(* ===== verification/Prelude.thy ===== *)
theory Prelude
  imports Complex_Main "HOL-Library.AList" "HOL-Library.Multiset"
begin

text \<open>
  What every component shares: the outcome type of a Go call that may panic, Go's
  fixed-width signed integers written out over \<open>int\<close>, the model of \<open>sync.Map\<close> as an
  association list, the 32-bit floats that scores are made of, and generic lemmas on
  lists.  The collections declared here are filled by the component theories.
\<close>

named_theorems smap_simps \<open>rewrite rules of the sync.Map model\<close>
named_theorems run_simps \<open>rewrite rules of outcomes\<close>

section \<open>Outcomes of a call\<close>

text \<open>
  A Go call returns a value or panics.  The faults are the run-time errors the modelled
  code can meet: a nil dereference, an index out of range, a slice made with a negative length or capacity, the
  release of a lock that is not held, the misuses of a wait group, a call of \<open>panic\<close> with its text, and the two ways a freed FAISS index can be misused (these two are
  undefined behaviour of the C library, not Go panics; the model stops there as well).
\<close>

datatype fault =
    NilDereference | IndexOutOfRange | MakeSliceRange | UseAfterFree | DoubleFree | UnlockOfUnlocked
  | WaitGroupMisuse | WaitGroupNegative | ExplicitPanic string

datatype 'a run = Ret 'a | Panic fault

fun run_bind :: "'a run \<Rightarrow> ('a \<Rightarrow> 'b run) \<Rightarrow> 'b run" where
  "run_bind (Ret x) f = f x"
| "run_bind (Panic p) f = Panic p"

fun run_map :: "('a \<Rightarrow> 'b) \<Rightarrow> 'a run \<Rightarrow> 'b run" where
  "run_map f (Ret x) = Ret (f x)"
| "run_map f (Panic p) = Panic p"

lemma run_bind_eq_Ret [run_simps]:
  "run_bind m f = Ret y \<longleftrightarrow> (\<exists>x. m = Ret x \<and> f x = Ret y)"
  by (cases m) auto

lemma run_map_eq_Ret [run_simps]:
  "run_map f m = Ret y \<longleftrightarrow> (\<exists>x. m = Ret x \<and> y = f x)"
  by (cases m) auto

lemma run_bind_assoc: "run_bind (run_bind m f) g = run_bind m (\<lambda>x. run_bind (f x) g)"
  by (cases m) auto

section \<open>Fixed-width integers\<close>

text \<open>
  \<open>int32\<close> and \<open>int64\<close> values are integers in range; \<open>wrap32\<close> is the conversion
  \<open>int32(x)\<close> and the result of an overflowing \<open>int32\<close> operation.
\<close>

definition in_int32 :: "int \<Rightarrow> bool" where
  "in_int32 x \<longleftrightarrow> - (2 ^ 31) \<le> x \<and> x < 2 ^ 31"

definition in_int64 :: "int \<Rightarrow> bool" where
  "in_int64 x \<longleftrightarrow> - (2 ^ 63) \<le> x \<and> x < 2 ^ 63"

definition wrap32 :: "int \<Rightarrow> int" where
  "wrap32 x = (x + 2 ^ 31) mod 2 ^ 32 - 2 ^ 31"

lemma wrap32_id [simp]: "in_int32 x \<Longrightarrow> wrap32 x = x"
  by (simp add: wrap32_def in_int32_def)

lemma wrap32_range: "in_int32 (wrap32 x)"
  by (simp add: wrap32_def in_int32_def)

lemma in_int32_int64: "in_int32 x \<Longrightarrow> in_int64 x"
  by (simp add: in_int32_def in_int64_def)

lemma in_int32_small: "0 \<le> i \<Longrightarrow> i < n \<Longrightarrow> in_int32 n \<Longrightarrow> in_int32 i"
  by (simp add: in_int32_def)

section \<open>sync.Map\<close>

text \<open>
  \<open>sync.Map\<close> as an association list: \<open>Load\<close> is \<open>map_of\<close>, \<open>Store\<close> and \<open>Delete\<close> are the
  library's \<open>update\<close> and \<open>delete\<close>.  \<open>Range\<close> visits the keys in an unspecified order;
  here it is the order of the list, and the theorems hold for every list.
\<close>

type_synonym ('k, 'v) smap = "('k \<times> 'v) list"

definition sm_load :: "('k, 'v) smap \<Rightarrow> 'k \<Rightarrow> 'v option" where
  "sm_load m k = map_of m k"

definition sm_store :: "'k \<Rightarrow> 'v \<Rightarrow> ('k, 'v) smap \<Rightarrow> ('k, 'v) smap" where
  "sm_store k v m = AList.update k v m"

definition sm_delete :: "'k \<Rightarrow> ('k, 'v) smap \<Rightarrow> ('k, 'v) smap" where
  "sm_delete k m = AList.delete k m"

definition sm_keys :: "('k, 'v) smap \<Rightarrow> 'k set" where
  "sm_keys m = fst ` set m"

definition sm_wf :: "('k, 'v) smap \<Rightarrow> bool" where
  "sm_wf m \<longleftrightarrow> distinct (map fst m)"

lemma sm_load_Nil [simp, smap_simps]: "sm_load [] k = None"
  by (simp add: sm_load_def)

lemma sm_load_Cons [smap_simps]: "sm_load ((k', v) # m) k = (if k = k' then Some v else sm_load m k)"
  by (simp add: sm_load_def)

lemma sm_load_store [simp, smap_simps]:
  "sm_load (sm_store k v m) k' = (if k' = k then Some v else sm_load m k')"
  by (simp add: sm_load_def sm_store_def update_conv')

lemma sm_load_delete [simp, smap_simps]:
  "sm_load (sm_delete k m) k' = (if k' = k then None else sm_load m k')"
  by (simp add: sm_load_def sm_delete_def delete_conv')

lemma sm_keys_load: "k \<in> sm_keys m \<longleftrightarrow> sm_load m k \<noteq> None"
  by (simp add: sm_keys_def sm_load_def map_of_eq_None_iff)

lemma sm_keys_Nil [simp]: "sm_keys [] = {}"
  by (simp add: sm_keys_def)

lemma sm_keys_store [simp]: "sm_keys (sm_store k v m) = insert k (sm_keys m)"
  by (simp add: sm_keys_def sm_store_def dom_update)

lemma sm_keys_delete [simp]: "sm_keys (sm_delete k m) = sm_keys m - {k}"
  by (auto simp: sm_keys_def sm_delete_def AList.delete_eq image_iff)

lemma sm_wf_Nil [simp]: "sm_wf []"
  by (simp add: sm_wf_def)

lemma sm_wf_store [simp]: "sm_wf m \<Longrightarrow> sm_wf (sm_store k v m)"
  by (simp add: sm_wf_def sm_store_def distinct_update)

lemma sm_wf_delete [simp]: "sm_wf m \<Longrightarrow> sm_wf (sm_delete k m)"
  by (simp add: sm_wf_def sm_delete_def distinct_delete)

lemma sm_delete_absent: "k \<notin> sm_keys m \<Longrightarrow> sm_delete k m = m"
  by (simp add: sm_delete_def sm_keys_def delete_id)

section \<open>Scores\<close>

text \<open>
  A \<open>float32\<close> is a finite number, an infinity or NaN.  The modelled code copies scores and
  compares them with \<open><\<close>; a comparison with NaN is false.
\<close>

datatype f32 = F_num rat | F_pinf | F_ninf | F_nan

fun f32_less :: "f32 \<Rightarrow> f32 \<Rightarrow> bool" where
  "f32_less (F_num a) (F_num b) = (a < b)"
| "f32_less F_ninf (F_num b) = True"
| "f32_less F_ninf F_pinf = True"
| "f32_less (F_num a) F_pinf = True"
| "f32_less _ _ = False"

lemma f32_less_irrefl [simp]: "\<not> f32_less a a"
  by (cases a) auto

lemma f32_less_asym: "f32_less a b \<Longrightarrow> \<not> f32_less b a"
  by (cases a; cases b) auto

lemma f32_less_cotrans:
  "\<not> f32_less a b \<Longrightarrow> \<not> f32_less b c \<Longrightarrow> b \<noteq> F_nan \<Longrightarrow> \<not> f32_less a c"
  by (cases a; cases b; cases c) auto

text \<open>
  The total order \<open><\<close> of the type puts NaN below every number; where there is no NaN on the left it is the
  comparison of the code.
\<close>

instantiation f32 :: linorder
begin

definition less_f32 :: "f32 \<Rightarrow> f32 \<Rightarrow> bool" where
  "less_f32 a b \<longleftrightarrow> (if a = F_nan then b \<noteq> F_nan else f32_less a b)"

definition less_eq_f32 :: "f32 \<Rightarrow> f32 \<Rightarrow> bool" where
  "less_eq_f32 a b \<longleftrightarrow> a = b \<or> (if a = F_nan then b \<noteq> F_nan else f32_less a b)"

instance
proof
  fix a b c :: f32
  show "a < b \<longleftrightarrow> a \<le> b \<and> \<not> b \<le> a"
    by (cases a; cases b) (auto simp: less_f32_def less_eq_f32_def)
  show "a \<le> a" by (simp add: less_eq_f32_def)
  show "a \<le> b \<Longrightarrow> b \<le> c \<Longrightarrow> a \<le> c"
    by (cases a; cases b; cases c) (auto simp: less_eq_f32_def)
  show "a \<le> b \<Longrightarrow> b \<le> a \<Longrightarrow> a = b"
    by (cases a; cases b) (auto simp: less_eq_f32_def)
  show "a \<le> b \<or> b \<le> a"
    by (cases a; cases b) (auto simp: less_eq_f32_def)
qed

end

lemma f32_less_order: "a \<noteq> F_nan \<Longrightarrow> f32_less a b \<longleftrightarrow> a < b"
  by (simp add: less_f32_def)

section \<open>Lists\<close>

lemma nth_list_update2:
  "i < length xs \<Longrightarrow> j < length xs \<Longrightarrow> k < length xs \<Longrightarrow>
   xs[i := a, j := b] ! k = (if k = j then b else if k = i then a else xs ! k)"
  by (simp add: nth_list_update)

end
