(* ===== verification/Error_Codes.thy ===== *)
theory Error_Codes
  imports Prelude "HOL-Library.Word"
begin

text \<open>
  \<open>internal/utils/error.go\<close>: errors that carry a 32-bit code.  A Go error is seen through
  what \<open>Code\<close> looks at: it is an \<open>internalErr\<close>, it has a \<open>Cause\<close> method (whose answer may be
  \<open>nil\<close>), or neither.  \<open>nil\<close> is \<open>None\<close>.  The wrapping of \<open>github.com/pkg/errors\<close> is a parameter.
\<close>

type_synonym u32 = "32 word"

datatype gerr = InternalErr gerr u32 | Causer string "gerr option" | Opaque string

definition cause :: "gerr \<Rightarrow> gerr option" where
  "cause e = (case e of InternalErr inner _ \<Rightarrow> Some inner | Causer _ c \<Rightarrow> c | Opaque _ \<Rightarrow> None)"

text \<open>\<open>New\<close>; \<open>errors.New\<close> of \<open>github.com/pkg/errors\<close> makes an error from a message.\<close>

definition err_new :: "(string \<Rightarrow> gerr) \<Rightarrow> string \<Rightarrow> u32 \<Rightarrow> gerr" where
  "err_new errors_new msg code = InternalErr (errors_new msg) code"

definition err_wrap ::
  "(gerr \<Rightarrow> string \<Rightarrow> gerr) \<Rightarrow> gerr option \<Rightarrow> string \<Rightarrow> u32 \<Rightarrow> gerr option" where
  "err_wrap errors_wrap err msg code =
     (case err of
       None \<Rightarrow> None
     | Some e \<Rightarrow>
         if msg = '''' then Some (InternalErr e code)
         else Some (InternalErr (errors_wrap e msg) code))"

text \<open>\<open>Code\<close> follows the causes up to the first \<open>internalErr\<close>.\<close>

fun err_code :: "gerr option \<Rightarrow> u32" where
  "err_code None = 0"
| "err_code (Some (InternalErr inner code)) = code"
| "err_code (Some (Causer m c)) = err_code c"
| "err_code (Some (Opaque m)) = 10000"

text \<open>The chain of causes below an error, outermost first.\<close>

fun chain :: "gerr option \<Rightarrow> gerr list" where
  "chain None = []"
| "chain (Some (InternalErr inner code)) = InternalErr inner code # chain (Some inner)"
| "chain (Some (Causer m c)) = Causer m c # chain c"
| "chain (Some (Opaque m)) = [Opaque m]"

definition is_internal :: "gerr \<Rightarrow> bool" where
  "is_internal e = (case e of InternalErr _ _ \<Rightarrow> True | _ \<Rightarrow> False)"

lemma err_code_first_internal:
  "chain e = pre @ InternalErr inner code # post \<Longrightarrow> list_all (\<lambda>x. \<not> is_internal x) pre \<Longrightarrow>
   err_code e = code"
  by (induction e arbitrary: pre rule: err_code.induct)
     (auto simp: is_internal_def Cons_eq_append_conv append_eq_Cons_conv split: gerr.splits)

section \<open>Properties\<close>

text \<open>The code of an error survives wrapping: along the chain of causes, however many layers without a code surround it,
  \<open>Code\<close> finds the code of the outermost layer that has one; an error whose causes run out
  without one answers the default code 10000 when the last is no wrapper; and wrapping again puts the new code in front.\<close>

theorem error_code_of_chain:
  assumes "chain e = pre @ post" "list_all (\<lambda>x. \<not> is_internal x) pre"
  shows "(\<forall>inner code rest. post = InternalErr inner code # rest \<longrightarrow>
      err_code e = code \<and>
      err_code (err_wrap errors_wrap e msg code') = code') \<and>
    (\<forall>m. post = [Opaque m] \<longrightarrow> err_code e = 10000)"
proof (intro conjI allI impI)
  fix inner code rest assume p: "post = InternalErr inner code # rest"
  with assms show "err_code e = code" by (auto intro: err_code_first_internal)
  from p assms(1) show "err_code (err_wrap errors_wrap e msg code') = code'"
    by (cases e) (auto simp: err_wrap_def)
next
  fix m assume "post = [Opaque m]"
  with assms show "err_code e = 10000"
    by (induction e arbitrary: pre rule: err_code.induct)
       (auto simp: is_internal_def Cons_eq_append_conv append_eq_Cons_conv split: gerr.splits)
qed

theorem error_code_of_chain_witness:
  "err_code (Some (Causer ''a'' (Some (Causer ''b'' (Some (InternalErr (Opaque ''c'') 7)))))) = 7"
  using error_code_of_chain [of "Some (Causer ''a'' (Some (Causer ''b'' (Some (InternalErr (Opaque ''c'') 7)))))"
      "[Causer ''a'' (Some (Causer ''b'' (Some (InternalErr (Opaque ''c'') 7)))),
        Causer ''b'' (Some (InternalErr (Opaque ''c'') 7))]"
      "[InternalErr (Opaque ''c'') 7, Opaque ''c'']"]
  by (simp add: is_internal_def)

end
