(* ===== verification/Go_Strings.thy ===== *)
theory Go_Strings
  imports Prelude "HOL-Library.Sublist"
begin

text \<open>
  The functions of Go's \<open>strconv\<close>, \<open>strings\<close>, \<open>fmt\<close> and \<open>path\<close> that the modelled code
  calls.  A Go string is a list of bytes, here a \<open>char list\<close>; separators are one byte, as
  every separator of the code is.
\<close>

named_theorems string_simps \<open>facts about decimal numerals and split strings\<close>

section \<open>strconv: Itoa, FormatInt and Atoi\<close>

definition digit_char :: "nat \<Rightarrow> char" where
  "digit_char n = char_of (48 + n)"

definition digit_val :: "char \<Rightarrow> nat option" where
  "digit_val c = (let n = of_char c in if 48 \<le> n \<and> n \<le> 57 then Some (n - 48) else None)"

fun dec :: "nat \<Rightarrow> string" where
  "dec n = (if n < 10 then [digit_char n] else dec (n div 10) @ [digit_char (n mod 10)])"

declare dec.simps [simp del]

definition itoa :: "int \<Rightarrow> string" where
  "itoa i = (if i < 0 then CHR ''-'' # dec (nat (- i)) else dec (nat i))"

fun parse_dec :: "nat \<Rightarrow> string \<Rightarrow> nat option" where
  "parse_dec a [] = Some a"
| "parse_dec a (c # cs) =
     (case digit_val c of None \<Rightarrow> None | Some d \<Rightarrow> parse_dec (10 * a + d) cs)"

text \<open>\<open>Atoi\<close>: an optional sign, at least one decimal digit, and a value in range.\<close>

definition atoi :: "string \<Rightarrow> int option" where
  "atoi s =
     (let neg = (s \<noteq> [] \<and> hd s = CHR ''-'');
          ds = (if s \<noteq> [] \<and> (hd s = CHR ''-'' \<or> hd s = CHR ''+'') then tl s else s)
      in if ds = [] then None
         else case parse_dec 0 ds of
           None \<Rightarrow> None
         | Some n \<Rightarrow> (let i = (if neg then - int n else int n)
                     in if in_int64 i then Some i else None))"

lemma digit_val_digit_char [simp]: "n < 10 \<Longrightarrow> digit_val (digit_char n) = Some n"
  by (simp add: digit_val_def digit_char_def Let_def)

lemma parse_dec_append:
  "parse_dec a (xs @ ys) = (case parse_dec a xs of None \<Rightarrow> None | Some b \<Rightarrow> parse_dec b ys)"
  by (induction xs arbitrary: a) (auto split: option.splits)

lemma dec_not_Nil [simp]: "dec n \<noteq> []"
  by (subst dec.simps) simp

lemma parse_dec_dec [simp]: "parse_dec 0 (dec n) = Some n"
proof (induction n rule: dec.induct)
  case (1 n)
  then show ?case
    by (cases "n < 10") (simp_all add: dec.simps [of n] parse_dec_append)
qed

lemma dec_digits: "c \<in> set (dec n) \<Longrightarrow> digit_val c \<noteq> None"
proof (induction n rule: dec.induct)
  case (1 n)
  then show ?case
    by (cases "n < 10") (auto simp: dec.simps [of n])
qed

lemma dec_no_sep [simp, string_simps]:
  "CHR '':'' \<notin> set (dec n)" "CHR ''/'' \<notin> set (dec n)"
  "CHR ''-'' \<notin> set (dec n)" "CHR ''+'' \<notin> set (dec n)"
  using dec_digits by (fastforce simp: digit_val_def Let_def)+

lemma hd_dec [simp]: "hd (dec n) \<noteq> CHR ''-''" "hd (dec n) \<noteq> CHR ''+''"
  by (metis dec_no_sep(3) dec_not_Nil hd_in_set) (metis dec_no_sep(4) dec_not_Nil hd_in_set)

lemma itoa_no_sep [simp, string_simps]:
  "CHR '':'' \<notin> set (itoa i)" "CHR ''/'' \<notin> set (itoa i)"
  by (simp_all add: itoa_def)

lemma itoa_not_Nil [simp]: "itoa i \<noteq> []"
  by (simp add: itoa_def)

lemma atoi_itoa [simp, string_simps]: "in_int64 i \<Longrightarrow> atoi (itoa i) = Some i"
  by (auto simp: atoi_def itoa_def Let_def)

lemma atoi_range: "atoi s = Some i \<Longrightarrow> in_int64 i"
  by (auto simp: atoi_def Let_def split: option.splits if_splits)

lemma dec_inj: "dec m = dec n \<Longrightarrow> m = n"
  by (metis option.inject parse_dec_dec)

lemma itoa_inj: "itoa i = itoa j \<Longrightarrow> i = j"
  unfolding itoa_def
  by (auto split: if_splits dest: dec_inj)
     (metis dec_no_sep(3) list.set_intros(1))+

section \<open>strings\<close>

text \<open>\<open>strings.Split(s, sep)\<close> and \<open>strings.Join(parts, sep)\<close> for a one-byte separator.\<close>

fun split_on :: "char \<Rightarrow> string \<Rightarrow> string list" where
  "split_on c [] = [[]]"
| "split_on c (x # xs) =
     (if x = c then [] # split_on c xs
      else (case split_on c xs of [] \<Rightarrow> [[x]] | y # ys \<Rightarrow> (x # y) # ys))"

fun join_with :: "char \<Rightarrow> string list \<Rightarrow> string" where
  "join_with c [] = []"
| "join_with c [p] = p"
| "join_with c (p # q # ps) = p @ c # join_with c (q # ps)"

lemma split_on_not_Nil [simp]: "split_on c s \<noteq> []"
  by (induction s) (auto split: list.splits)

lemma split_on_none [simp]: "c \<notin> set s \<Longrightarrow> split_on c s = [s]"
  by (induction s) auto

lemma split_on_append [simp]: "c \<notin> set a \<Longrightarrow> split_on c (a @ c # b) = a # split_on c b"
  by (induction a) auto

lemma split_on_sep: "split_on c (a @ c # b) = split_on c a @ split_on c b"
  by (induction a) (auto split: list.splits)

lemma last_split_on: "c \<notin> set b \<Longrightarrow> last (split_on c (a @ c # b)) = b"
  by (simp add: split_on_sep del: split_on_append)

lemma length_split_on: "length (split_on c s) = Suc (count_list s c)"
  by (induction s) (auto split: list.splits)

lemma split_on_parts: "p \<in> set (split_on c s) \<Longrightarrow> c \<notin> set p"
  by (induction s arbitrary: p) (auto split: list.splits if_splits)

lemma join_split [simp]: "join_with c (split_on c s) = s"
proof (induction s)
  case Nil
  then show ?case by simp
next
  case (Cons x s)
  obtain y ys where "split_on c s = y # ys" by (cases "split_on c s") auto
  with Cons show ?case by (cases ys) auto
qed

text \<open>\<open>strings.SplitN(s, sep, 2)\<close>: cut once, at the first separator.\<close>

fun cut_at :: "char \<Rightarrow> string \<Rightarrow> (string \<times> string) option" where
  "cut_at c [] = None"
| "cut_at c (x # xs) =
     (if x = c then Some ([], xs) else map_option (\<lambda>(a, b). (x # a, b)) (cut_at c xs))"

definition splitn2 :: "char \<Rightarrow> string \<Rightarrow> string list" where
  "splitn2 c s = (case cut_at c s of None \<Rightarrow> [s] | Some (a, b) \<Rightarrow> [a, b])"

lemma cut_at_append [simp]: "c \<notin> set a \<Longrightarrow> cut_at c (a @ c # b) = Some (a, b)"
  by (induction a) auto

lemma cut_at_None: "cut_at c s = None \<longleftrightarrow> c \<notin> set s"
  by (induction s) auto

lemma cut_at_Some: "cut_at c s = Some (a, b) \<Longrightarrow> s = a @ c # b \<and> c \<notin> set a"
  by (induction s arbitrary: a) (auto split: if_splits)

lemma splitn2_append [simp]: "c \<notin> set a \<Longrightarrow> splitn2 c (a @ c # b) = [a, b]"
  by (simp add: splitn2_def)

text \<open>\<open>strings.HasPrefix\<close> is the library's \<open>prefix\<close>; \<open>strings.TrimPrefix\<close> cuts it off.\<close>

definition trim_prefix :: "string \<Rightarrow> string \<Rightarrow> string" where
  "trim_prefix s p = (if prefix p s then drop (length p) s else s)"

lemma trim_prefix_append [simp]: "trim_prefix (p @ s) p = s"
  by (simp add: trim_prefix_def)

text \<open>\<open>strings.Replace(s, old, new, -1)\<close> for a non-empty \<open>old\<close>.\<close>

function replace_all :: "string \<Rightarrow> string \<Rightarrow> string \<Rightarrow> string" where
  "replace_all old new s =
     (if s = [] then []
      else if old \<noteq> [] \<and> prefix old s then new @ replace_all old new (drop (length old) s)
      else hd s # replace_all old new (tl s))"
  by pat_completeness auto
termination
  by (relation "measure (\<lambda>(old, new, s). length s)") auto

declare replace_all.simps [simp del]

lemma replace_all_absent:
  "old \<noteq> [] \<Longrightarrow> hd old \<notin> set s \<Longrightarrow> replace_all old new s = s"
proof (induction s)
  case Nil
  then show ?case by (simp add: replace_all.simps)
next
  case (Cons x s)
  then have "\<not> prefix old (x # s)"
    by (cases old) auto
  with Cons show ?case by (simp add: replace_all.simps [of old new "x # s"])
qed

text \<open>\<open>strings.TrimSpace\<close>, for the ASCII white space.\<close>

definition is_space :: "char \<Rightarrow> bool" where
  "is_space c \<longleftrightarrow> of_char c \<in> {9, 10, 11, 12, 13, 32 :: nat}"

definition trim_space :: "string \<Rightarrow> string" where
  "trim_space s = rev (dropWhile is_space (rev (dropWhile is_space s)))"

text \<open>\<open>strings.ToLower\<close>, for ASCII letters.\<close>

definition to_lower_char :: "char \<Rightarrow> char" where
  "to_lower_char c = (let n = of_char c in if 65 \<le> n \<and> n \<le> (90 :: nat) then char_of (n + 32) else c)"

definition to_lower :: "string \<Rightarrow> string" where
  "to_lower s = map to_lower_char s"

section \<open>path: Clean and Join\<close>

text \<open>
  \<open>Clean\<close> walks the elements left to right and keeps the cleaned ones on a stack: empty
  elements and \<open>.\<close> are dropped, \<open>..\<close> removes the element before it, and a \<open>..\<close> that has
  none to remove is dropped at the root and kept in a relative path.
\<close>

fun clean_step :: "bool \<Rightarrow> string list \<Rightarrow> string \<Rightarrow> string list" where
  "clean_step rooted st e =
     (if e = '''' \<or> e = ''.'' then st
      else if e = ''..'' then
        (case st of
          [] \<Rightarrow> if rooted then [] else [''..'']
        | t # ts \<Rightarrow> if t = ''..'' then ''..'' # st else ts)
      else e # st)"

definition path_clean :: "string \<Rightarrow> string" where
  "path_clean s =
     (if s = [] then ''.''
      else let rooted = (hd s = CHR ''/'');
               body = join_with CHR ''/'' (rev (foldl (clean_step rooted) [] (split_on CHR ''/'' s)));
               res = (if rooted then CHR ''/'' # body else body)
           in if res = [] then ''.'' else res)"

definition path_join :: "string list \<Rightarrow> string" where
  "path_join es =
     (let ne = filter (\<lambda>e. e \<noteq> []) es in if ne = [] then [] else path_clean (join_with CHR ''/'' ne))"

end
