(* ===== verification/Config.thy ===== *)
theory Config
  imports Go_Strings
begin

text \<open>
  \<open>internal/config\<close> and the configuration lookups of \<open>internal/utils/config_manager\<close>: the
  sentinel errors with their texts, the environment fallbacks and the paths every node
  uses for its keys in etcd.  The two viper instances are code outside the repository:
  they are parameters, functions from a key to a value.
\<close>

section \<open>Errors\<close>

datatype cfg_err =
    ErrWrongInputDimension | ErrEmptyInput | ErrNilIndex | ErrInvalidIndexType
  | ErrInvalidScheduleType | ErrAlreadyReloading | ErrIndexRevisionUpToDate
  | ErrUnknownStatus | ErrNodeNotAvailable | ErrClusterNotInitialised | ErrTypeAssertion
  | ErrIndexNotFound | ErrShardNotFound | ErrShardFileNotFound | ErrReloadConfNotFound
  | ErrGetRevisionFailed | ErrOutputDimension | ErrPartlySuccess | ErrNoSuccess
  | ErrGetManifestsFailed | ErrUnmarshal | ErrManifestValidateFailed | ErrResolveIndexShard
  | ErrResolveNoAvailableNode | ErrBadRequest | ErrInvalidLimit

primrec cfg_err_text :: "cfg_err \<Rightarrow> string" where
  "cfg_err_text ErrWrongInputDimension = ''wrong input dimension''"
| "cfg_err_text ErrEmptyInput = ''empty input vector''"
| "cfg_err_text ErrNilIndex = ''index is not loaded''"
| "cfg_err_text ErrInvalidIndexType = ''invalid index type''"
| "cfg_err_text ErrInvalidScheduleType = ''invalid schedule type''"
| "cfg_err_text ErrAlreadyReloading = ''index is reloading''"
| "cfg_err_text ErrIndexRevisionUpToDate = ''index is up-to-date''"
| "cfg_err_text ErrUnknownStatus = ''unknown node status''"
| "cfg_err_text ErrNodeNotAvailable = ''node under unavailable status''"
| "cfg_err_text ErrClusterNotInitialised = ''cluster not initialised hash ring is nil''"
| "cfg_err_text ErrTypeAssertion = ''type assertion failed''"
| "cfg_err_text ErrIndexNotFound = ''index not found''"
| "cfg_err_text ErrShardNotFound = ''shard not found''"
| "cfg_err_text ErrShardFileNotFound = ''shard file not found''"
| "cfg_err_text ErrReloadConfNotFound = ''reload config is nil''"
| "cfg_err_text ErrGetRevisionFailed = ''get index revision failed''"
| "cfg_err_text ErrOutputDimension = ''error output dimension''"
| "cfg_err_text ErrPartlySuccess = ''load shards partly success''"
| "cfg_err_text ErrNoSuccess = ''load shards no success''"
| "cfg_err_text ErrGetManifestsFailed = ''get manifest failed''"
| "cfg_err_text ErrUnmarshal = ''unmarshal failed''"
| "cfg_err_text ErrManifestValidateFailed = ''invalid index manifest''"
| "cfg_err_text ErrResolveIndexShard = ''cannot resolve shardKey''"
| "cfg_err_text ErrResolveNoAvailableNode = ''no available node resolved''"
| "cfg_err_text ErrBadRequest = ''invalid request body''"
| "cfg_err_text ErrInvalidLimit = ''limit must be greater than zero''"

text \<open>
  An error value: a sentinel of the list above, an error made on the spot by
  \<open>fmt.Errorf\<close> or returned by code outside the repository, or \<open>fmt.Errorf\<close> with \<open>%w\<close>.
  \<open>errors.Is\<close> looks through the wrapping.
\<close>

datatype error = Cfg cfg_err | ErrText string | ErrWrap string error

fun err_text :: "error \<Rightarrow> string" where
  "err_text (Cfg c) = cfg_err_text c"
| "err_text (ErrText t) = t"
| "err_text (ErrWrap t e) = t @ '': '' @ err_text e"

fun err_is :: "error \<Rightarrow> cfg_err \<Rightarrow> bool" where
  "err_is (Cfg c) d = (c = d)"
| "err_is (ErrText t) d = False"
| "err_is (ErrWrap t e) d = err_is e d"

lemma cfg_err_text_not_Nil [simp]: "cfg_err_text c \<noteq> []"
  by (cases c) simp_all

section \<open>Configuration lookups\<close>

text \<open>
  \<open>configManager\<close>: the local viper and, when remote configuration is enabled, the remote
  one; \<open>Get\<close> answers \<open>nil\<close> and \<open>GetString\<close> the empty string for a key without a value.
\<close>

record 'v viper =
  vp_get :: "string \<Rightarrow> 'v option"
  vp_get_string :: "string \<Rightarrow> string"

record 'v config_manager =
  local_viper :: "'v viper"
  remote_viper :: "'v viper option"

definition cm_get :: "'v config_manager \<Rightarrow> string \<Rightarrow> 'v option" where
  "cm_get cfg key =
     (case vp_get (local_viper cfg) key of
       Some conf \<Rightarrow> Some conf
     | None \<Rightarrow> (case remote_viper cfg of Some r \<Rightarrow> vp_get r key | None \<Rightarrow> None))"

definition cm_get_string :: "'v config_manager \<Rightarrow> string \<Rightarrow> string" where
  "cm_get_string cfg key =
     (let conf = vp_get_string (local_viper cfg) key in
      if conf \<noteq> '''' then conf
      else (case remote_viper cfg of Some r \<Rightarrow> vp_get_string r key | None \<Rightarrow> ''''))"

text \<open>\<open>Set\<close>: \<open>vset\<close> is viper's \<open>Set\<close>, which overrides whatever the file says about the key.\<close>

definition cm_set ::
    "(string \<Rightarrow> 'v \<Rightarrow> 'v viper \<Rightarrow> 'v viper) \<Rightarrow> string \<Rightarrow> 'v \<Rightarrow> 'v config_manager \<Rightarrow> 'v config_manager" where
  "cm_set vset key v cfg = cfg\<lparr>local_viper := vset key v (local_viper cfg)\<rparr>"

lemma cm_get_set:
  assumes "\<And>k v vp k'. vp_get (vset k v vp) k' = (if k' = k then Some v else vp_get vp k')"
  shows "cm_get (cm_set vset key v cfg) k = (if k = key then Some v else cm_get cfg k)"
  using assms by (auto simp: cm_get_def cm_set_def split: option.split)

text \<open>
  \<open>GetEnv\<close>: the process environment (a function, empty for an unset variable) before the
  \<open>env\<close> section of the configuration.
\<close>

type_synonym os_env = "string \<Rightarrow> string"

definition get_env :: "os_env \<Rightarrow> 'v config_manager \<Rightarrow> string \<Rightarrow> string" where
  "get_env osenv cfg name =
     (if osenv name \<noteq> '''' then osenv name else cm_get_string cfg (''env.'' @ name))"

definition get_port :: "os_env \<Rightarrow> 'v config_manager \<Rightarrow> int" where
  "get_port osenv cfg = (case atoi (get_env osenv cfg ''PORT'') of Some port \<Rightarrow> port | None \<Rightarrow> 0)"

definition get_rpc_port :: "os_env \<Rightarrow> 'v config_manager \<Rightarrow> int" where
  "get_rpc_port osenv cfg =
     (case atoi (get_env osenv cfg ''RPC_PORT'') of Some port \<Rightarrow> port | None \<Rightarrow> 0)"

definition get_pod_ip :: "os_env \<Rightarrow> 'v config_manager \<Rightarrow> string" where
  "get_pod_ip osenv cfg =
     (let ip = get_env osenv cfg ''POD_IP'' in if ip \<noteq> '''' then ip else ''0.0.0.0'')"

definition get_env_local_index_path :: "os_env \<Rightarrow> 'v config_manager \<Rightarrow> string" where
  "get_env_local_index_path osenv cfg =
     (let p = get_env osenv cfg ''IDX_PATH'' in if p \<noteq> '''' then p else ''./etc/index'')"

definition get_env_etcd_root :: "os_env \<Rightarrow> 'v config_manager \<Rightarrow> string \<Rightarrow> string" where
  "get_env_etcd_root osenv cfg cluster_name =
     (let root = get_env osenv cfg ''ETCD_ROOT''
      in if root \<noteq> '''' then root else ''/vectory/'' @ cluster_name)"

lemma get_env_precedence:
  "osenv name \<noteq> '''' \<Longrightarrow> get_env osenv cfg name = osenv name"
  "osenv name = '''' \<Longrightarrow> vp_get_string (local_viper cfg) (''env.'' @ name) \<noteq> '''' \<Longrightarrow>
   get_env osenv cfg name = vp_get_string (local_viper cfg) (''env.'' @ name)"
  by (simp_all add: get_env_def cm_get_string_def Let_def)

lemma get_port_range: "in_int64 (get_port osenv cfg)"
  by (auto simp: get_port_def in_int64_def split: option.splits dest!: atoi_range)

section \<open>Paths\<close>

text \<open>The paths, relative to \<open>GetRootPath()\<close>, which is the first argument \<open>rt\<close>.\<close>

definition node_meta_path_prefix :: "string \<Rightarrow> string" where
  "node_meta_path_prefix rt = rt @ ''/node/meta''"

definition node_meta_path :: "string \<Rightarrow> string \<Rightarrow> string" where
  "node_meta_path rt node = node_meta_path_prefix rt @ ''/'' @ node"

definition node_load_path :: "string \<Rightarrow> string \<Rightarrow> string" where
  "node_load_path rt node = rt @ ''/node/load/'' @ node"

definition local_index_path :: "string \<Rightarrow> string \<Rightarrow> string" where
  "local_index_path rt file = rt @ ''/'' @ file"

definition index_manifest_path_prefix :: "string \<Rightarrow> string" where
  "index_manifest_path_prefix rt = rt @ ''/index''"

definition revision_ready_path_prefix :: "string \<Rightarrow> string \<Rightarrow> string" where
  "revision_ready_path_prefix rt index_name = rt @ ''/revision/'' @ index_name @ ''/ready''"

definition revision_ready_path :: "string \<Rightarrow> string \<Rightarrow> string \<Rightarrow> string" where
  "revision_ready_path rt index_name node =
     revision_ready_path_prefix rt index_name @ ''/'' @ node"

definition revision_commit_path :: "string \<Rightarrow> string \<Rightarrow> string" where
  "revision_commit_path rt index_name = rt @ ''/revision/'' @ index_name @ ''/commit''"

definition revision_commit_path_prefix :: "string \<Rightarrow> string" where
  "revision_commit_path_prefix rt = rt @ ''/revision''"

end
