(* ===== verification/Shards.thy ===== *)
theory Shards
  imports Config
begin

text \<open>
  \<open>internal/engine/index.go\<close>: the manifest of an index, its shards and their keys.  A shard
  key \<open>name:shard:replica\<close> decides which node owns the shard, a unique key \<open>name:shard\<close>
  names it on a node.  The lemmas: keys determine shards, parsing inverts printing, and
  the generated shards are exactly the grid of the manifest, each once.
\<close>

section \<open>Manifests\<close>

record index_meta =
  meta_name :: string
  meta_type :: string
  meta_input_dim :: int
  meta_shards :: int
  meta_replicas :: int
  meta_c_time :: int
  meta_m_time :: int
  meta_version :: string

record schedule_setting =
  sched_type :: string
  sched_crontab :: string
  sched_interval :: string
  sched_every :: string
  sched_time :: string
  sched_random_dwell_time :: bool

record reload_setting =
  reload_enable :: bool
  reload_mode :: string
  reload_schedule :: schedule_setting

record index_source =
  src_type :: string
  src_location :: string
  src_name_fmt :: string
  src_endpoint :: string
  src_access_key :: string
  src_secret_key :: string
  src_use_ssl :: bool

record index_manifest =
  mf_meta :: index_meta
  mf_source :: "index_source option"
  mf_reload :: "reload_setting option"

text \<open>\<open>Validate\<close> accepts every manifest (its body is a TODO in the source).\<close>

definition manifest_validate :: "index_manifest \<Rightarrow> error option" where
  "manifest_validate m = None"

definition metric_type :: "int \<Rightarrow> string" where
  "metric_type n =
     (case map_of [(0, ''INNER_PRODUCT''), (1, ''L2''), (2, ''L1''), (3, ''Linf''), (4, ''Lp''),
                   (20, ''Canberra''), (21, ''BrayCurtis''), (22, ''JensenShannon''),
                   (23, ''Jaccard'')] n of
        Some t \<Rightarrow> t | None \<Rightarrow> '''')"

section \<open>Shards and their keys\<close>

record shard =
  sh_index_name :: string
  sh_shard_id :: int
  sh_replica_id :: int

text \<open>The invariant of the two identifiers: they are \<open>int32\<close> values.\<close>

definition shard_wf :: "shard \<Rightarrow> bool" where
  "shard_wf s \<longleftrightarrow> in_int32 (sh_shard_id s) \<and> in_int32 (sh_replica_id s)"

definition shard_key :: "shard \<Rightarrow> string" where
  "shard_key s =
     sh_index_name s @ '':'' @ itoa (sh_shard_id s) @ '':'' @ itoa (sh_replica_id s)"

definition unique_shard_key :: "shard \<Rightarrow> string" where
  "unique_shard_key s = sh_index_name s @ '':'' @ itoa (sh_shard_id s)"

text \<open>\<open>FromString\<close> overwrites the receiver, or leaves it as it was when the key is malformed.\<close>

definition from_string :: "string \<Rightarrow> shard \<Rightarrow> shard" where
  "from_string key s =
     (case split_on CHR '':'' key of
       [n] \<Rightarrow> s\<lparr>sh_index_name := n\<rparr>
     | [n, i] \<Rightarrow>
         (case atoi i of
           Some shard_id \<Rightarrow> s\<lparr>sh_index_name := n, sh_shard_id := wrap32 shard_id\<rparr>
         | None \<Rightarrow> s)
     | [n, i, r] \<Rightarrow>
         (case (atoi i, atoi r) of
           (Some shard_id, Some rep_id) \<Rightarrow>
             s\<lparr>sh_index_name := n, sh_shard_id := wrap32 shard_id, sh_replica_id := wrap32 rep_id\<rparr>
         | _ \<Rightarrow> s)
     | _ \<Rightarrow> s)"

definition zero_shard :: shard where
  "zero_shard = \<lparr>sh_index_name = '''', sh_shard_id = 0, sh_replica_id = 0\<rparr>"

definition shard_valid :: "shard \<Rightarrow> bool" where
  "shard_valid s \<longleftrightarrow> sh_index_name s \<noteq> ''''"

text \<open>\<open>make([]string, replicas)\<close> panics on a negative length.\<close>

definition generate_replica_keys :: "shard \<Rightarrow> int \<Rightarrow> string list run" where
  "generate_replica_keys s replicas =
     (if \<not> shard_valid s then Ret []
      else if replicas < 0 then Panic MakeSliceRange
      else Ret (map (\<lambda>i. sh_index_name s @ '':'' @ itoa (sh_shard_id s) @ '':'' @ itoa i)
                 [0..replicas - 1]))"

text \<open>
  \<open>make([]Shard, 0, Shards*Replicas)\<close> multiplies two \<open>int32\<close> and panics when the wrapped
  product is negative.
\<close>

definition generate_shards :: "index_manifest \<Rightarrow> shard list run" where
  "generate_shards m =
     (let meta = mf_meta m in
      if wrap32 (meta_shards meta * meta_replicas meta) < 0 then Panic MakeSliceRange
      else Ret (concat (map (\<lambda>sh. map (\<lambda>rep.
             \<lparr>sh_index_name = meta_name meta, sh_shard_id = sh, sh_replica_id = rep\<rparr>)
               [0..meta_replicas meta - 1]) [0..meta_shards meta - 1])))"

definition generate_unique_shards :: "index_manifest \<Rightarrow> shard list run" where
  "generate_unique_shards m =
     (let meta = mf_meta m in
      if wrap32 (meta_shards meta * meta_replicas meta) < 0 then Panic MakeSliceRange
      else Ret (map (\<lambda>sh.
             \<lparr>sh_index_name = meta_name meta, sh_shard_id = sh, sh_replica_id = 0\<rparr>)
               [0..meta_shards meta - 1]))"

section \<open>Keys determine shards\<close>

lemma append_sep_inj:
  fixes c :: char
  assumes "a @ c # b = a' @ c # b'" "c \<notin> set b" "c \<notin> set b'"
  shows "a = a' \<and> b = b'"
proof -
  have "rev (a @ c # b) = rev (a' @ c # b')"
    by (simp only: assms(1))
  then have *: "rev b @ c # rev a = rev b' @ c # rev a'"
    by simp
  have "cut_at c (rev b @ c # rev a) = Some (rev b, rev a)"
    using assms(2) by (intro cut_at_append) simp
  moreover have "cut_at c (rev b' @ c # rev a') = Some (rev b', rev a')"
    using assms(3) by (intro cut_at_append) simp
  ultimately have "Some (rev b, rev a) = Some (rev b', rev a')"
    by (simp only: *)
  then show ?thesis by simp
qed

lemma unique_shard_key_eq:
  "unique_shard_key s = unique_shard_key t \<longleftrightarrow>
   sh_index_name s = sh_index_name t \<and> sh_shard_id s = sh_shard_id t"
  using append_sep_inj [of "sh_index_name s" "CHR '':''" "itoa (sh_shard_id s)"
      "sh_index_name t" "itoa (sh_shard_id t)"]
  by (auto simp: unique_shard_key_def dest: itoa_inj)

lemma shard_key_unique: "shard_key s = unique_shard_key s @ '':'' @ itoa (sh_replica_id s)"
  by (simp add: shard_key_def unique_shard_key_def)

lemma shard_key_eq: "shard_key s = shard_key t \<longleftrightarrow> s = t"
proof
  assume "shard_key s = shard_key t"
  then have "unique_shard_key s = unique_shard_key t \<and> itoa (sh_replica_id s) = itoa (sh_replica_id t)"
    unfolding shard_key_unique by (intro append_sep_inj [where c = "CHR '':''"]) simp_all
  then show "s = t"
    by (auto simp: unique_shard_key_eq dest: itoa_inj)
qed simp

lemma from_string_shard_key:
  assumes "CHR '':'' \<notin> set (sh_index_name s)" "shard_wf s"
  shows "from_string (shard_key s) t = s"
  using assms by (simp add: from_string_def shard_key_def shard_wf_def in_int32_int64)

lemma from_string_unique_shard_key:
  assumes "CHR '':'' \<notin> set (sh_index_name s)" "shard_wf s"
  shows "from_string (unique_shard_key s) t = s\<lparr>sh_replica_id := sh_replica_id t\<rparr>"
  using assms by (simp add: from_string_def unique_shard_key_def shard_wf_def in_int32_int64)

lemma from_string_wf: "shard_wf t \<Longrightarrow> shard_wf (from_string key t)"
  by (auto simp: from_string_def shard_wf_def wrap32_range split: list.splits option.splits)

lemma from_string_empty: "from_string '''' t = t\<lparr>sh_index_name := ''''\<rparr>"
  by (simp add: from_string_def)

lemma from_string_many_parts:
  assumes "2 < count_list key CHR '':''"
  shows "from_string key t = t"
proof -
  from assms have "3 < length (split_on CHR '':'' key)"
    by (simp add: length_split_on)
  then show ?thesis
    by (auto simp: from_string_def split: list.splits)
qed

section \<open>The generated shards\<close>

lemma set_grid:
  "set (concat (map (\<lambda>a. map (f a) ys) xs)) = {f a b | a b. a \<in> set xs \<and> b \<in> set ys}"
  by auto

lemma generate_shards_Ret:
  assumes "generate_shards m = Ret ss"
  shows "s \<in> set ss \<longleftrightarrow>
     sh_index_name s = meta_name (mf_meta m) \<and>
     0 \<le> sh_shard_id s \<and> sh_shard_id s < meta_shards (mf_meta m) \<and>
     0 \<le> sh_replica_id s \<and> sh_replica_id s < meta_replicas (mf_meta m)"
proof -
  let ?f = "\<lambda>sh rep. \<lparr>sh_index_name = meta_name (mf_meta m), sh_shard_id = sh, sh_replica_id = rep\<rparr>"
  have "ss = concat (map (\<lambda>sh. map (?f sh) [0..meta_replicas (mf_meta m) - 1])
                [0..meta_shards (mf_meta m) - 1])"
    using assms by (simp add: generate_shards_def Let_def split: if_splits)
  then have "set ss = {?f sh rep | sh rep. sh \<in> set [0..meta_shards (mf_meta m) - 1] \<and>
                                          rep \<in> set [0..meta_replicas (mf_meta m) - 1]}"
    by (simp only: set_grid)
  then show ?thesis by (cases s) auto
qed

lemma generate_unique_shards_Ret:
  "generate_unique_shards m = Ret us \<Longrightarrow> s \<in> set us \<longleftrightarrow>
     sh_index_name s = meta_name (mf_meta m) \<and>
     0 \<le> sh_shard_id s \<and> sh_shard_id s < meta_shards (mf_meta m) \<and> sh_replica_id s = 0"
  by (cases s) (auto simp: generate_unique_shards_def Let_def split: if_splits)

lemma distinct_concat_map:
  assumes "distinct xs" "\<And>x. x \<in> set xs \<Longrightarrow> distinct (f x)"
    "\<And>x y. x \<in> set xs \<Longrightarrow> y \<in> set xs \<Longrightarrow> x \<noteq> y \<Longrightarrow> set (f x) \<inter> set (f y) = {}"
  shows "distinct (concat (map f xs))"
  using assms by (induction xs) auto

lemma generate_shards_distinct: "generate_shards m = Ret ss \<Longrightarrow> distinct ss"
  by (auto simp: generate_shards_def Let_def distinct_map inj_on_def
      intro!: distinct_concat_map split: if_splits)

lemma generate_unique_shards_distinct: "generate_unique_shards m = Ret us \<Longrightarrow> distinct us"
  by (auto simp: generate_unique_shards_def Let_def distinct_map inj_on_def split: if_splits)

lemma generate_shards_length:
  "generate_shards m = Ret ss \<Longrightarrow>
   length ss = nat (meta_shards (mf_meta m)) * nat (meta_replicas (mf_meta m))"
  by (auto simp: generate_shards_def Let_def length_concat sum_list_triv o_def split: if_splits)

lemma generate_unique_shards_length:
  "generate_unique_shards m = Ret us \<Longrightarrow> length us = nat (meta_shards (mf_meta m))"
  by (auto simp: generate_unique_shards_def Let_def split: if_splits)

text \<open>The keys of the generated shards are pairwise different.\<close>

lemma generate_unique_keys_distinct:
  assumes "generate_unique_shards m = Ret us"
  shows "distinct (map unique_shard_key us)"
  using generate_unique_shards_distinct [OF assms]
  by (auto simp: distinct_map inj_on_def unique_shard_key_eq generate_unique_shards_Ret [OF assms])

section \<open>Properties\<close>

text \<open>C38: Shard keys round trip: parsing the key of a shard gives the shard back, whatever the
  receiver held, and parsing its unique key gives everything but the replica, which the receiver keeps.
  The index name must not contain the separator.\<close>

theorem shard_key_roundtrip:
  assumes "CHR '':'' \<notin> set (sh_index_name s)" "shard_wf s"
  shows "from_string (shard_key s) t = s \<and>
    from_string (unique_shard_key s) t = s\<lparr>sh_replica_id := sh_replica_id t\<rparr>"
  by (simp add: from_string_shard_key from_string_unique_shard_key assms)

theorem shard_key_roundtrip_witness:
  "from_string ''docs:12:-3'' zero_shard = \<lparr>sh_index_name = ''docs'', sh_shard_id = 12, sh_replica_id = -3\<rparr>"
proof -
  let ?s = "\<lparr>sh_index_name = ''docs'', sh_shard_id = 12, sh_replica_id = -3\<rparr>"
  have "shard_key ?s = ''docs:12:-3''" by code_simp
  moreover have "shard_wf ?s" by (simp add: shard_wf_def in_int32_def)
  ultimately show ?thesis using shard_key_roundtrip [of ?s zero_shard] by simp
qed

text \<open>Keys name shards without ambiguity, even when the index name itself contains the separator:
  two shards have the same key exactly when they are equal, and the same unique key exactly when
  they agree up to the replica.\<close>

theorem shard_keys_injective:
  "(shard_key s = shard_key t \<longleftrightarrow> s = t) \<and>
   (unique_shard_key s = unique_shard_key t \<longleftrightarrow>
      sh_index_name s = sh_index_name t \<and> sh_shard_id s = sh_shard_id t)"
  by (simp add: shard_key_eq unique_shard_key_eq)

text \<open>The generated shards of a manifest are its grid: every pair of a shard and a replica number in
  range, each exactly once, under pairwise different keys; the unique shards are those with
  replica zero, one for every shard number.\<close>

theorem generated_grid:
  assumes "generate_shards m = Ret ss" "generate_unique_shards m = Ret us"
  shows "distinct (map shard_key ss) \<and> distinct (map unique_shard_key us) \<and>
    set ss = {s. sh_index_name s = meta_name (mf_meta m) \<and>
                 sh_shard_id s \<in> {0..<meta_shards (mf_meta m)} \<and>
                 sh_replica_id s \<in> {0..<meta_replicas (mf_meta m)}} \<and>
    set us = {s. sh_index_name s = meta_name (mf_meta m) \<and>
                 sh_shard_id s \<in> {0..<meta_shards (mf_meta m)} \<and> sh_replica_id s = 0}"
proof -
  have "distinct (map shard_key ss)"
    using generate_shards_distinct [OF assms(1)] by (simp add: distinct_map inj_on_def shard_key_eq)
  moreover have "set us = {s. sh_index_name s = meta_name (mf_meta m) \<and>
       sh_shard_id s \<in> {0..<meta_shards (mf_meta m)} \<and> sh_replica_id s = 0}"
    by (auto simp: generate_unique_shards_Ret [OF assms(2)])
  moreover have "set ss = {s. sh_index_name s = meta_name (mf_meta m) \<and>
       sh_shard_id s \<in> {0..<meta_shards (mf_meta m)} \<and> sh_replica_id s \<in> {0..<meta_replicas (mf_meta m)}}"
    by (auto simp: generate_shards_Ret [OF assms(1)])
  ultimately show ?thesis using generate_unique_keys_distinct [OF assms(2)] by blast
qed

theorem generated_grid_witness:
  "\<exists>ss us m. generate_shards m = Ret ss \<and> generate_unique_shards m = Ret us \<and> length ss = 6 \<and> length us = 3 \<and>
     distinct (map shard_key ss)"
proof -
  let ?m = "\<lparr>mf_meta = \<lparr>meta_name = ''a'', meta_type = ''mock'', meta_input_dim = 1, meta_shards = 3,
      meta_replicas = 2, meta_c_time = 0, meta_m_time = 0, meta_version = ''''\<rparr>,
      mf_source = None, mf_reload = None\<rparr>"
  obtain ss us where g: "generate_shards ?m = Ret ss" "generate_unique_shards ?m = Ret us"
    by (simp add: generate_shards_def generate_unique_shards_def wrap32_def)
  with generated_grid [OF g] generate_shards_length [OF g(1)] generate_unique_shards_length [OF g(2)]
  show ?thesis by auto
qed

text \<open>A malformed key never half-updates the receiver: with more than three parts, or with a number
  that is not a decimal integer, the shard stays as it was; and whatever the key, the
  identifiers stay in the range of \<open>int32\<close>.\<close>

theorem from_string_all_or_nothing:
  assumes "shard_wf t" "split_on CHR '':'' key = parts"
  shows "shard_wf (from_string key t) \<and>
    (from_string key t = t \<or>
     length parts \<le> 3 \<and> (\<forall>n \<in> set (tl parts). atoi n \<noteq> None) \<and>
     sh_index_name (from_string key t) = hd parts)"
  using from_string_wf [OF assms(1), of key] assms(2)
  by (auto simp: from_string_def split: list.splits option.splits)

theorem from_string_all_or_nothing_witness:
  "from_string ''docs:x:1'' zero_shard = zero_shard \<and> from_string ''docs:7'' zero_shard \<noteq> zero_shard"
proof -
  have "shard_wf zero_shard" by code_simp
  moreover have "split_on CHR '':'' ''docs:x:1'' = [''docs'', ''x'', ''1'']" "atoi ''x'' = None"
    by code_simp+
  ultimately have "from_string ''docs:x:1'' zero_shard = zero_shard"
    using from_string_all_or_nothing [of zero_shard "''docs:x:1''"] by auto
  then show ?thesis by (simp add: from_string_def zero_shard_def) code_simp
qed

end
