(* ===== verification/Downloader.thy ===== *)
theory Downloader
  imports Shards
begin

text \<open>
  \<open>internal/engine/downloader.go\<close>, \<open>local_dl.go\<close> and \<open>s3_dl.go\<close>: where the file of a shard
  comes from.  A revision number stands in the file \<open>_revision\<close> of the source, the shard
  files of revision \<open>r\<close> below the directory \<open>r\<close>.  The file system, the object store, the
  FAISS reader and the cron parser are code outside the repository: they are the fields of
  \<open>world\<close>, one snapshot of what they answer.  The locale \<open>revision_source\<close> is the contract of
  the Go interface \<open>Downloader\<close>; both downloaders are interpreted in it.
\<close>

section \<open>The world a download sees\<close>

datatype stat = StatOk | StatNotExist | StatOtherError

text \<open>What FAISS holds of a loaded index file: the answers of its methods.\<close>

record faiss_data =
  fd_d :: int
  fd_ntotal :: int
  fd_metric_type :: int
  fd_search :: "f32 list \<Rightarrow> int \<Rightarrow> error + (f32 list \<times> int list)"

record world =
  w_read_file :: "string \<Rightarrow> error + string"
  w_stat :: "string \<Rightarrow> stat"
  w_minio_new :: "index_source \<Rightarrow> error option"
  w_get_object :: "string \<Rightarrow> string \<Rightarrow> error option"
  w_object_body :: "string \<Rightarrow> string \<Rightarrow> error + string"
  w_create_temp :: "string \<Rightarrow> error + string"
  w_read_index :: "string \<Rightarrow> error + faiss_data"
  w_cron_add :: "string \<Rightarrow> error + int"

definition file_exists :: "world \<Rightarrow> string \<Rightarrow> bool" where
  "file_exists w p \<longleftrightarrow> w_stat w p \<noteq> StatNotExist"

section \<open>Paths of a source\<close>

definition latest_revision_path :: "index_source \<Rightarrow> string" where
  "latest_revision_path src = path_join [src_location src, ''_revision'']"

definition revision_dir_path :: "index_source \<Rightarrow> int \<Rightarrow> string" where
  "revision_dir_path src rv = path_join [src_location src, itoa rv]"

definition shard_rel_path :: "index_source \<Rightarrow> int \<Rightarrow> shard \<Rightarrow> string" where
  "shard_rel_path src rv sh =
     (let file = replace_all ''{index_name}'' (sh_index_name sh) (src_name_fmt src);
          file = replace_all ''{shard_id}'' (itoa (sh_shard_id sh)) file
      in path_join [itoa rv, file])"

definition shard_file_path :: "index_source \<Rightarrow> int \<Rightarrow> shard \<Rightarrow> string" where
  "shard_file_path src rv sh = path_join [src_location src, shard_rel_path src rv sh]"

section \<open>The local downloader\<close>

text \<open>A download answers the local path, the revision and the error, all three.\<close>

type_synonym dl_result = "string \<times> int \<times> error option"

record local_dl =
  ld_source :: index_source
  ld_shard :: shard

definition new_local_dl :: "index_source \<Rightarrow> shard \<Rightarrow> local_dl" where
  "new_local_dl src sh = \<lparr>ld_source = src, ld_shard = sh\<rparr>"

definition local_read_revision :: "world \<Rightarrow> local_dl \<Rightarrow> error + int" where
  "local_read_revision w l =
     (case w_read_file w (latest_revision_path (ld_source l)) of
       Inl e \<Rightarrow> Inl (Cfg ErrGetRevisionFailed)
     | Inr bytes \<Rightarrow>
         (case atoi bytes of
           None \<Rightarrow> Inl (Cfg ErrGetRevisionFailed)
         | Some rv \<Rightarrow> Inr rv))"

definition local_download :: "world \<Rightarrow> local_dl \<Rightarrow> dl_result" where
  "local_download w l =
     (case local_read_revision w l of
       Inl e \<Rightarrow> ('''', 0, Some (Cfg ErrGetRevisionFailed))
     | Inr rv \<Rightarrow>
         (let file = shard_file_path (ld_source l) rv (ld_shard l) in
          if \<not> file_exists w file then ('''', 0, Some (Cfg ErrShardFileNotFound))
          else (file, rv, None)))"

text \<open>
  \<open>DownloadUpdate\<close> reads the revision, and \<open>Download\<close> reads it again: the two reads may see
  different worlds.
\<close>

definition local_download_update :: "world \<Rightarrow> world \<Rightarrow> local_dl \<Rightarrow> int \<Rightarrow> dl_result" where
  "local_download_update w w' l cur =
     (case local_read_revision w l of
       Inl e \<Rightarrow> ('''', 0, Some (Cfg ErrGetRevisionFailed))
     | Inr rv \<Rightarrow>
         if rv \<le> cur then ('''', rv, Some (Cfg ErrIndexRevisionUpToDate))
         else local_download w' l)"

section \<open>The S3 downloader\<close>

definition parse_s3_location :: "string \<Rightarrow> error + (string \<times> string)" where
  "parse_s3_location location =
     (let loc = trim_prefix location ''s3://'';
          parts = splitn2 CHR ''/'' loc
      in if parts = [] \<or> hd parts = ''''
         then Inl (ErrText (''invalid S3 location: '' @ location))
         else Inr (hd parts, if length parts > 1 then parts ! 1 else ''''))"

record s3_dl =
  sd_source :: index_source
  sd_shard :: shard
  sd_bucket :: string
  sd_prefix :: string

definition new_s3_dl :: "world \<Rightarrow> index_source \<Rightarrow> shard \<Rightarrow> error + s3_dl" where
  "new_s3_dl w src sh =
     (if src_endpoint src = '''' then Inl (ErrText ''s3 source requires endpoint'')
      else if src_access_key src = '''' \<or> src_secret_key src = ''''
        then Inl (ErrText ''s3 source requires access_key and secret_key'')
      else (case parse_s3_location (src_location src) of
        Inl e \<Rightarrow> Inl e
      | Inr (bucket, pre) \<Rightarrow>
          (case w_minio_new w src of
            Some e \<Rightarrow> Inl (ErrWrap ''create minio client'' e)
          | None \<Rightarrow> Inr \<lparr>sd_source = src, sd_shard = sh, sd_bucket = bucket, sd_prefix = pre\<rparr>)))"

definition s3_key :: "s3_dl \<Rightarrow> string \<Rightarrow> string" where
  "s3_key d rel = (if sd_prefix d = '''' then rel else sd_prefix d @ ''/'' @ rel)"

text \<open>The revision file, parsed after \<open>strings.TrimSpace\<close>.\<close>

definition s3_read_revision :: "world \<Rightarrow> s3_dl \<Rightarrow> error + int" where
  "s3_read_revision w d =
     (let key = s3_key d ''_revision'' in
      case w_get_object w (sd_bucket d) key of
        Some e \<Rightarrow> Inl (ErrWrap (''get S3 object '' @ sd_bucket d @ ''/'' @ key) e)
      | None \<Rightarrow>
          (case w_object_body w (sd_bucket d) key of
            Inl e \<Rightarrow> Inl (ErrWrap ''read S3 object body'' e)
          | Inr body \<Rightarrow>
              (case atoi (trim_space body) of
                None \<Rightarrow> Inl (ErrText ''parse revision'')
              | Some rv \<Rightarrow> Inr rv)))"

definition s3_download_shard_file :: "world \<Rightarrow> s3_dl \<Rightarrow> int \<Rightarrow> error + string" where
  "s3_download_shard_file w d rv =
     (let key = s3_key d (shard_rel_path (sd_source d) rv (sd_shard d)) in
      case w_get_object w (sd_bucket d) key of
        Some e \<Rightarrow> Inl (ErrWrap (''get S3 object '' @ sd_bucket d @ ''/'' @ key) e)
      | None \<Rightarrow>
          (case w_create_temp w (''vectory-s3-'' @ sh_index_name (sd_shard d) @ ''-'' @ itoa rv @ ''-*'') of
            Inl e \<Rightarrow> Inl (ErrWrap ''create temp file'' e)
          | Inr tmp \<Rightarrow>
              (case w_object_body w (sd_bucket d) key of
                Inl e \<Rightarrow> Inl (ErrWrap ''write S3 object to temp file'' e)
              | Inr body \<Rightarrow> Inr tmp)))"

definition s3_download :: "world \<Rightarrow> s3_dl \<Rightarrow> dl_result" where
  "s3_download w d =
     (case s3_read_revision w d of
       Inl e \<Rightarrow> ('''', 0, Some (Cfg ErrGetRevisionFailed))
     | Inr rv \<Rightarrow>
         (case s3_download_shard_file w d rv of
           Inl e \<Rightarrow> ('''', 0, Some e)
         | Inr tmp \<Rightarrow> (tmp, rv, None)))"

definition s3_download_update :: "world \<Rightarrow> world \<Rightarrow> s3_dl \<Rightarrow> int \<Rightarrow> dl_result" where
  "s3_download_update w w' d cur =
     (case s3_read_revision w d of
       Inl e \<Rightarrow> ('''', 0, Some (Cfg ErrGetRevisionFailed))
     | Inr rv \<Rightarrow>
         if rv \<le> cur then ('''', rv, Some (Cfg ErrIndexRevisionUpToDate))
         else s3_download w' d)"

section \<open>The interface\<close>

datatype downloader = LocalDl local_dl | S3Dl s3_dl

text \<open>\<open>NewDownLoader\<close> reads \<open>source.Type\<close>: a manifest without a source is a nil dereference.\<close>

definition new_downloader :: "world \<Rightarrow> index_source option \<Rightarrow> shard \<Rightarrow> (error + downloader) run" where
  "new_downloader w source sh =
     (case source of
       None \<Rightarrow> Panic NilDereference
     | Some src \<Rightarrow> Ret
         (if src_type src = ''local_path'' then Inr (LocalDl (new_local_dl src sh))
          else if src_type src = ''s3'' then
            (case new_s3_dl w src sh of Inl e \<Rightarrow> Inl e | Inr d \<Rightarrow> Inr (S3Dl d))
          else Inl (ErrText (''unsupported source type: '' @ src_type src))))"

fun read_revision :: "world \<Rightarrow> downloader \<Rightarrow> error + int" where
  "read_revision w (LocalDl l) = local_read_revision w l"
| "read_revision w (S3Dl d) = s3_read_revision w d"

fun download :: "world \<Rightarrow> downloader \<Rightarrow> dl_result" where
  "download w (LocalDl l) = local_download w l"
| "download w (S3Dl d) = s3_download w d"

fun download_update :: "world \<Rightarrow> world \<Rightarrow> downloader \<Rightarrow> int \<Rightarrow> dl_result" where
  "download_update w w' (LocalDl l) cur = local_download_update w w' l cur"
| "download_update w w' (S3Dl d) cur = s3_download_update w w' d cur"

section \<open>The contract\<close>

locale revision_source =
  fixes latest :: "world \<Rightarrow> 'd \<Rightarrow> error + int"
    and fetch :: "world \<Rightarrow> 'd \<Rightarrow> dl_result"
    and update :: "world \<Rightarrow> world \<Rightarrow> 'd \<Rightarrow> int \<Rightarrow> dl_result"
  assumes fetch_ok: "fetch w d = (p, r, None) \<Longrightarrow> latest w d = Inr r"
    and fetch_err: "fetch w d = (p, r, Some e) \<Longrightarrow> p = '''' \<and> r = 0"
    and fetch_no_revision:
      "latest w d = Inl e \<Longrightarrow> fetch w d = ('''', 0, Some (Cfg ErrGetRevisionFailed))"
    and update_no_revision:
      "latest w d = Inl e \<Longrightarrow> update w w' d cur = ('''', 0, Some (Cfg ErrGetRevisionFailed))"
    and update_current:
      "latest w d = Inr r \<Longrightarrow> r \<le> cur \<Longrightarrow>
       update w w' d cur = ('''', r, Some (Cfg ErrIndexRevisionUpToDate))"
    and update_newer:
      "latest w d = Inr r \<Longrightarrow> cur < r \<Longrightarrow> update w w' d cur = fetch w' d"
begin

text \<open>
  A successful update is newer than the current revision as long as the revision of the
  source does not go back between the two reads.
\<close>

lemma update_ok:
  assumes "update w w' d cur = (p, r, None)"
  shows "\<exists>r0. latest w d = Inr r0 \<and> cur < r0 \<and> latest w' d = Inr r \<and> fetch w' d = (p, r, None)"
proof (cases "latest w d")
  case (Inl e)
  with assms show ?thesis by (simp add: update_no_revision)
next
  case (Inr r0)
  with assms have "cur < r0"
    by (cases "r0 \<le> cur") (simp_all add: update_current)
  with Inr assms show ?thesis by (auto simp: update_newer dest: fetch_ok)
qed

lemma update_ok_newer:
  assumes "update w w' d cur = (p, r, None)"
    "\<And>r0 r1. latest w d = Inr r0 \<Longrightarrow> latest w' d = Inr r1 \<Longrightarrow> r0 \<le> r1"
  shows "cur < r"
  using update_ok [OF assms(1)] assms(2) by fastforce

lemma update_same_world:
  "update w w d cur = (p, r, None) \<Longrightarrow> cur < r \<and> latest w d = Inr r"
  using update_ok by fastforce

end

interpretation local_source: revision_source local_read_revision local_download local_download_update
  by unfold_locales
     (auto simp: local_download_def local_download_update_def Let_def split: sum.splits if_splits)

interpretation s3_source: revision_source s3_read_revision s3_download s3_download_update
  by unfold_locales
     (auto simp: s3_download_def s3_download_update_def split: sum.splits if_splits)

interpretation any_source: revision_source read_revision download download_update
proof unfold_locales
  fix w d p r show "download w d = (p, r, None) \<Longrightarrow> read_revision w d = Inr r"
    by (cases d) (simp_all add: local_source.fetch_ok s3_source.fetch_ok)
next
  fix w d p r e show "download w d = (p, r, Some e) \<Longrightarrow> p = '''' \<and> r = 0"
    by (cases d) (simp_all add: local_source.fetch_err s3_source.fetch_err)
next
  fix w d e show "read_revision w d = Inl e \<Longrightarrow> download w d = ('''', 0, Some (Cfg ErrGetRevisionFailed))"
    by (cases d) (simp_all add: local_source.fetch_no_revision s3_source.fetch_no_revision)
next
  fix w w' d e cur
  show "read_revision w d = Inl e \<Longrightarrow>
        download_update w w' d cur = ('''', 0, Some (Cfg ErrGetRevisionFailed))"
    by (cases d) (simp_all add: local_source.update_no_revision s3_source.update_no_revision)
next
  fix w w' d r cur
  show "read_revision w d = Inr r \<Longrightarrow> r \<le> cur \<Longrightarrow>
        download_update w w' d cur = ('''', r, Some (Cfg ErrIndexRevisionUpToDate))"
    by (cases d) (simp_all add: local_source.update_current s3_source.update_current)
next
  fix w w' d r cur
  show "read_revision w d = Inr r \<Longrightarrow> cur < r \<Longrightarrow> download_update w w' d cur = download w' d"
    by (cases d) (simp_all add: local_source.update_newer s3_source.update_newer)
qed

section \<open>Locations of the object store\<close>

lemma parse_s3_location_bucket_prefix:
  assumes "bucket \<noteq> ''''" "CHR ''/'' \<notin> set bucket" "\<not> prefix ''s3://'' (bucket @ ''/'' @ pre)"
  shows "parse_s3_location (''s3://'' @ bucket @ ''/'' @ pre) = Inr (bucket, pre)"
    and "parse_s3_location (bucket @ ''/'' @ pre) = Inr (bucket, pre)"
proof -
  have s: "splitn2 CHR ''/'' (bucket @ CHR ''/'' # pre) = [bucket, pre]"
    using assms(2) by simp
  show "parse_s3_location (''s3://'' @ bucket @ ''/'' @ pre) = Inr (bucket, pre)"
    using s assms(1) trim_prefix_append [of "''s3://''"] by (simp add: parse_s3_location_def)
  show "parse_s3_location (bucket @ ''/'' @ pre) = Inr (bucket, pre)"
    using s assms(1,3) by (simp add: parse_s3_location_def trim_prefix_def)
qed

section \<open>Properties\<close>

text \<open>An update is fetched exactly when the source is ahead: for either kind of source, \<open>DownloadUpdate\<close>
  reports that the revision cannot be read, or answers up-to-date with the revision it saw when that is
  not newer than the current one, or behaves as \<open>Download\<close>; and a successful update has the source's own revision,
  which is newer when the source does not go back meanwhile.\<close>

theorem download_update_newer:
  assumes "\<And>r0 r1. read_revision w d = Inr r0 \<Longrightarrow> read_revision w' d = Inr r1 \<Longrightarrow> r0 \<le> r1"
  shows "download_update w w' d cur = (case read_revision w d of
      Inl e \<Rightarrow> ('''', 0, Some (Cfg ErrGetRevisionFailed))
    | Inr r \<Rightarrow> if r \<le> cur then ('''', r, Some (Cfg ErrIndexRevisionUpToDate)) else download w' d) \<and>
    (\<forall>p r. download_update w w' d cur = (p, r, None) \<longrightarrow> cur < r \<and> read_revision w' d = Inr r)"
proof (intro conjI allI impI)
  show "download_update w w' d cur = (case read_revision w d of
      Inl e \<Rightarrow> ('''', 0, Some (Cfg ErrGetRevisionFailed))
    | Inr r \<Rightarrow> if r \<le> cur then ('''', r, Some (Cfg ErrIndexRevisionUpToDate)) else download w' d)"
    by (auto simp: any_source.update_no_revision any_source.update_current any_source.update_newer
        split: sum.splits)
  fix p r assume u: "download_update w w' d cur = (p, r, None)"
  show "cur < r" using any_source.update_ok_newer [OF u] assms by blast
  show "read_revision w' d = Inr r" using any_source.update_ok [OF u] by blast
qed

text \<open>An S3 location names a bucket and a prefix: written with the scheme or without it, the part
  before the first slash is the bucket and everything after it the prefix; a location without a bucket is refused.\<close>

theorem parse_s3_location_parts:
  assumes "bucket \<noteq> ''''" "CHR ''/'' \<notin> set bucket" "\<not> prefix ''s3://'' (bucket @ ''/'' @ pre)"
  shows "parse_s3_location (''s3://'' @ bucket @ ''/'' @ pre) = Inr (bucket, pre) \<and>
    parse_s3_location (bucket @ ''/'' @ pre) = Inr (bucket, pre) \<and>
    (\<exists>e. parse_s3_location (''s3:///'' @ pre) = Inl e)"
proof -
  have "trim_prefix (''s3://'' @ ''/'' @ pre) ''s3://'' = ''/'' @ pre"
    by (rule trim_prefix_append)
  then have "\<exists>e. parse_s3_location (''s3:///'' @ pre) = Inl e"
    by (simp add: parse_s3_location_def splitn2_def)
  with parse_s3_location_bucket_prefix [OF assms] show ?thesis by blast
qed

theorem parse_s3_location_parts_witness:
  "parse_s3_location ''s3://models/prod/idx'' = Inr (''models'', ''prod/idx'')"
proof -
  have "\<not> prefix ''s3://'' (''models'' @ ''/'' @ ''prod/idx'')" by code_simp
  from parse_s3_location_parts [OF _ _ this] show ?thesis by simp
qed

section \<open>Witnesses\<close>

text \<open>A concrete world: the source is at revision 5 and every file loads, to an index of dimension two.\<close>

definition ex_faiss :: faiss_data where
  "ex_faiss = \<lparr>fd_d = 2, fd_ntotal = 3, fd_metric_type = 1,
     fd_search = (\<lambda>x k. Inr ([F_num 1, F_num 2], [7, 9]))\<rparr>"

definition ex_world :: "string \<Rightarrow> world" where
  "ex_world revision = \<lparr>w_read_file = (\<lambda>p. Inr revision), w_stat = (\<lambda>p. StatOk),
     w_minio_new = (\<lambda>src. None), w_get_object = (\<lambda>b k. None), w_object_body = (\<lambda>b k. Inr revision),
     w_create_temp = (\<lambda>p. Inr ''tmp''), w_read_index = (\<lambda>p. Inr ex_faiss), w_cron_add = (\<lambda>c. Inr 1)\<rparr>"

definition ex_source :: index_source where
  "ex_source = \<lparr>src_type = ''local_path'', src_location = ''idx'', src_name_fmt = ''{shard_id}'',
     src_endpoint = '''', src_access_key = '''', src_secret_key = '''', src_use_ssl = False\<rparr>"

definition ex_shard :: shard where
  "ex_shard = \<lparr>sh_index_name = ''docs'', sh_shard_id = 0, sh_replica_id = 0\<rparr>"

lemma ex_read_revision: "read_revision (ex_world ''5'') (LocalDl (new_local_dl ex_source ex_shard)) = Inr 5"
  by code_simp

theorem download_update_newer_witness:
  "\<exists>p. download_update (ex_world ''5'') (ex_world ''5'') (LocalDl (new_local_dl ex_source ex_shard)) 3 = (p, 5, None)"
proof -
  have "download_update (ex_world ''5'') (ex_world ''5'') (LocalDl (new_local_dl ex_source ex_shard)) 3 =
      download (ex_world ''5'') (LocalDl (new_local_dl ex_source ex_shard))"
    using download_update_newer [of "ex_world ''5''" "LocalDl (new_local_dl ex_source ex_shard)" "ex_world ''5''" 3]
      ex_read_revision by simp
  also have "\<dots> = (''idx/5/0'', 5, None)" by code_simp
  finally show ?thesis by blast
qed

end
