(* ===== verification/Faiss_Index.thy ===== *)
theory Faiss_Index
  imports Downloader
begin

text \<open>
  \<open>internal/engine/faiss.go\<close> and \<open>mock.go\<close>: one loaded shard.  A FAISS index lives in the
  memory of the C library and is freed by hand, so the model keeps that memory explicit:
  \<open>c_heap\<close> maps handles to loaded files, and using or freeing a handle that is gone is a
  fault.  A reload either swaps the serving index at once (\<open>reload\<close>) or stages the new
  revision (\<open>stage_reload\<close>) for a later \<open>commit_staged\<close>.
\<close>

section \<open>The memory of the FAISS library\<close>

record c_heap =
  ch_live :: "(nat, faiss_data) smap"
  ch_next :: nat

definition empty_heap :: c_heap where
  "empty_heap = \<lparr>ch_live = [], ch_next = 0\<rparr>"

definition ch_alloc :: "faiss_data \<Rightarrow> c_heap \<Rightarrow> nat \<times> c_heap" where
  "ch_alloc d h =
     (ch_next h, h\<lparr>ch_live := sm_store (ch_next h) d (ch_live h), ch_next := Suc (ch_next h)\<rparr>)"

definition ch_deref :: "c_heap \<Rightarrow> nat \<Rightarrow> faiss_data run" where
  "ch_deref h i = (case sm_load (ch_live h) i of None \<Rightarrow> Panic UseAfterFree | Some d \<Rightarrow> Ret d)"

definition ch_free :: "nat \<Rightarrow> c_heap \<Rightarrow> c_heap run" where
  "ch_free i h =
     (case sm_load (ch_live h) i of
       None \<Rightarrow> Panic DoubleFree
     | Some d \<Rightarrow> Ret (h\<lparr>ch_live := sm_delete i (ch_live h)\<rparr>))"

definition ch_handles :: "c_heap \<Rightarrow> nat set" where
  "ch_handles h = sm_keys (ch_live h)"

definition ch_ok :: "c_heap \<Rightarrow> bool" where
  "ch_ok h \<longleftrightarrow> (\<forall>i \<in> ch_handles h. i < ch_next h)"

text \<open>\<open>readIndexFn\<close>: the library reads a file and hands out a fresh handle.\<close>

definition read_index :: "world \<Rightarrow> string \<Rightarrow> c_heap \<Rightarrow> c_heap \<times> (error + nat)" where
  "read_index w path h =
     (case w_read_index w path of
       Inl e \<Rightarrow> (h, Inl e)
     | Inr d \<Rightarrow> (let (i, h') = ch_alloc d h in (h', Inr i)))"

section \<open>The state of a shard\<close>

text \<open>\<open>reloadCallback\<close>: the index's own \<open>Reload\<close>, or the manager's stage-and-signal closure.\<close>

datatype reload_callback = ReloadSelf | StageAndSignal string

record faiss_index =
  fx_index :: "nat option"
  fx_reloading :: bool
  fx_reload_entry :: int
  fx_shard :: shard
  fx_revision :: int
  fx_staged_index :: "nat option"
  fx_staged_revision :: int
  fx_manifest :: index_manifest
  fx_reload_callback :: reload_callback

definition start_reload :: "world \<Rightarrow> reload_setting \<Rightarrow> faiss_index \<Rightarrow> error + faiss_index" where
  "start_reload w setting fx =
     (if reload_mode setting = ''passive'' then Inr fx
      else if reload_mode setting = ''active'' then
        (let sch = reload_schedule setting;
             cron_str =
               (if sched_type sch = ''cron'' then Some (sched_crontab sch)
                else if sched_type sch = ''interval'' then Some (''@every '' @ sched_interval sch)
                else if sched_type sch = ''fixed'' then Some ''''
                else None)
         in case cron_str of
              None \<Rightarrow> Inl (Cfg ErrInvalidScheduleType)
            | Some c \<Rightarrow>
                (case w_cron_add w c of
                  Inl e \<Rightarrow> Inl e
                | Inr entry \<Rightarrow> Inr (fx\<lparr>fx_reload_entry := entry\<rparr>)))
      else Inr fx)"

text \<open>
  \<open>newFaissIndex\<close>.  When starting the reload schedule fails, the handle that has been read
  stays allocated: no one frees it.
\<close>

definition new_faiss_index ::
    "world \<Rightarrow> index_manifest \<Rightarrow> shard \<Rightarrow> c_heap \<Rightarrow> (c_heap \<times> (error + faiss_index)) run" where
  "new_faiss_index w manifest sh h =
     run_bind (new_downloader w (mf_source manifest) sh) (\<lambda>dl.
       Ret (case dl of
         Inl e \<Rightarrow> (h, Inl e)
       | Inr d \<Rightarrow>
           (case download w d of
             (p, r, Some e) \<Rightarrow> (h, Inl e)
           | (p, r, None) \<Rightarrow>
               (case read_index w p h of
                 (h', Inl e) \<Rightarrow> (h', Inl e)
               | (h', Inr i) \<Rightarrow>
                   (let fx = \<lparr>fx_index = Some i, fx_reloading = False, fx_reload_entry = 0,
                              fx_shard = sh, fx_revision = r, fx_staged_index = None,
                              fx_staged_revision = 0, fx_manifest = manifest,
                              fx_reload_callback = ReloadSelf\<rparr>
                    in case mf_reload manifest of
                         Some setting \<Rightarrow>
                           if reload_enable setting then (h', start_reload w setting fx) else (h', Inr fx)
                       | None \<Rightarrow> (h', Inr fx))))))"

section \<open>Serving\<close>

type_synonym search_out = "error + (f32 list \<times> string list)"

definition faiss_search :: "c_heap \<Rightarrow> faiss_index \<Rightarrow> f32 list \<Rightarrow> int \<Rightarrow> search_out run" where
  "faiss_search h fx x k =
     (case fx_index fx of
       None \<Rightarrow> Ret (Inl (Cfg ErrNilIndex))
     | Some i \<Rightarrow>
         if x = [] then Ret (Inl (Cfg ErrEmptyInput))
         else run_bind (ch_deref h i) (\<lambda>d. Ret
           (if int (length x) < fd_d d then Inl (Cfg ErrWrongInputDimension)
            else (case fd_search d x k of
              Inl e \<Rightarrow> Inl e
            | Inr (distances, int_labels) \<Rightarrow> Inr (distances, map itoa int_labels)))))"

definition discard_staged :: "c_heap \<Rightarrow> faiss_index \<Rightarrow> (c_heap \<times> faiss_index) run" where
  "discard_staged h fx =
     (case fx_staged_index fx of
       None \<Rightarrow> Ret (h, fx)
     | Some i \<Rightarrow> run_bind (ch_free i h) (\<lambda>h'.
         Ret (h', fx\<lparr>fx_staged_index := None, fx_staged_revision := 0\<rparr>)))"

text \<open>\<open>Delete\<close> keeps the pointer to the freed handle.\<close>

definition faiss_delete :: "c_heap \<Rightarrow> faiss_index \<Rightarrow> (c_heap \<times> faiss_index) run" where
  "faiss_delete h fx =
     run_bind (discard_staged h fx) (\<lambda>(h1, fx1).
       case fx_index fx1 of
         None \<Rightarrow> Panic NilDereference
       | Some i \<Rightarrow> run_bind (ch_free i h1) (\<lambda>h2. Ret (h2, fx1)))"

definition handle_data :: "c_heap \<Rightarrow> faiss_index \<Rightarrow> faiss_data run" where
  "handle_data h fx =
     (case fx_index fx of None \<Rightarrow> Panic NilDereference | Some i \<Rightarrow> ch_deref h i)"

definition vector_count :: "c_heap \<Rightarrow> faiss_index \<Rightarrow> int run" where
  "vector_count h fx = run_map fd_ntotal (handle_data h fx)"

definition faiss_metric_type :: "c_heap \<Rightarrow> faiss_index \<Rightarrow> string run" where
  "faiss_metric_type h fx = run_map (\<lambda>d. metric_type (fd_metric_type d)) (handle_data h fx)"

definition faiss_input_dim :: "c_heap \<Rightarrow> faiss_index \<Rightarrow> int run" where
  "faiss_input_dim h fx = run_map fd_d (handle_data h fx)"

definition check_available :: "faiss_index \<Rightarrow> error option" where
  "check_available fx = (if fx_index fx = None then Some (Cfg ErrNilIndex) else None)"

section \<open>Reloading\<close>

text \<open>
  \<open>Reload\<close>.  \<open>w\<close> answers until the revision has been read once, \<open>w'\<close> from then on.  The
  code passes over \<open>ErrIndexRevisionUpToDate\<close> and goes on with the empty path; it swaps
  the serving index without freeing the old one.
\<close>

definition faiss_reload ::
    "world \<Rightarrow> world \<Rightarrow> c_heap \<Rightarrow> faiss_index \<Rightarrow> (c_heap \<times> faiss_index \<times> error option) run" where
  "faiss_reload w w' h fx =
     (if fx_reloading fx then Ret (h, fx, Some (Cfg ErrAlreadyReloading))
      else run_bind (new_downloader w (mf_source (fx_manifest fx)) (fx_shard fx)) (\<lambda>dl.
        Ret (case dl of
          Inl e \<Rightarrow> (h, fx, Some e)
        | Inr d \<Rightarrow>
            (let (p, r, err) = download_update w w' d (fx_revision fx)
             in case err of
                  Some e \<Rightarrow>
                    if \<not> err_is e ErrIndexRevisionUpToDate then (h, fx, Some e)
                    else (case read_index w' p h of
                      (h', Inl e') \<Rightarrow> (h', fx, Some e')
                    | (h', Inr i) \<Rightarrow> (h', fx\<lparr>fx_index := Some i, fx_revision := r\<rparr>, None))
                | None \<Rightarrow>
                    (case read_index w' p h of
                      (h', Inl e') \<Rightarrow> (h', fx, Some e')
                    | (h', Inr i) \<Rightarrow> (h', fx\<lparr>fx_index := Some i, fx_revision := r\<rparr>, None))))))"

definition set_reload_callback :: "reload_callback \<Rightarrow> faiss_index \<Rightarrow> faiss_index" where
  "set_reload_callback cb fx = fx\<lparr>fx_reload_callback := cb\<rparr>"

definition stage_reload ::
    "world \<Rightarrow> world \<Rightarrow> c_heap \<Rightarrow> faiss_index \<Rightarrow> (c_heap \<times> faiss_index \<times> (error + int)) run" where
  "stage_reload w w' h fx =
     (if fx_reloading fx then Ret (h, fx, Inl (Cfg ErrAlreadyReloading))
      else run_bind (new_downloader w (mf_source (fx_manifest fx)) (fx_shard fx)) (\<lambda>dl.
        case dl of
          Inl e \<Rightarrow> Ret (h, fx, Inl e)
        | Inr d \<Rightarrow>
            (case download_update w w' d (fx_revision fx) of
              (p, r, Some e) \<Rightarrow> Ret (h, fx, Inl e)
            | (p, r, None) \<Rightarrow>
                (case read_index w' p h of
                  (h1, Inl e) \<Rightarrow> Ret (h1, fx, Inl e)
                | (h1, Inr i) \<Rightarrow>
                    run_bind (case fx_staged_index fx of None \<Rightarrow> Ret h1 | Some j \<Rightarrow> ch_free j h1)
                      (\<lambda>h2. Ret (h2, fx\<lparr>fx_staged_index := Some i, fx_staged_revision := r\<rparr>, Inr r))))))"

definition commit_staged ::
    "int \<Rightarrow> c_heap \<Rightarrow> faiss_index \<Rightarrow> (c_heap \<times> faiss_index \<times> error option) run" where
  "commit_staged expected h fx =
     (case fx_staged_index fx of
       None \<Rightarrow> Ret (h, fx, Some (ErrText (''nothing staged for shard '' @ shard_key (fx_shard fx))))
     | Some i \<Rightarrow>
         if fx_staged_revision fx \<noteq> expected
         then Ret (h, fx, Some (ErrText (''staged revision '' @ itoa (fx_staged_revision fx) @ '' != expected ''
                @ itoa expected @ '' for shard '' @ shard_key (fx_shard fx))))
         else run_bind (case fx_index fx of None \<Rightarrow> Ret h | Some j \<Rightarrow> ch_free j h)
           (\<lambda>h'. Ret (h', fx\<lparr>fx_index := Some i, fx_revision := fx_staged_revision fx,
                             fx_staged_index := None, fx_staged_revision := 0\<rparr>, None)))"

definition staged_revision :: "faiss_index \<Rightarrow> int" where
  "staged_revision fx = fx_staged_revision fx"

section \<open>The mock index\<close>

record mock_index =
  mx_shard :: shard
  mx_revision :: int
  mx_manifest :: index_manifest

definition new_mock_index :: "index_manifest \<Rightarrow> shard \<Rightarrow> error + mock_index" where
  "new_mock_index manifest sh =
     (if meta_name (mf_meta manifest) = ''failed'' then Inl (ErrText ''mock error'')
      else Inr \<lparr>mx_shard = sh, mx_revision = 123, mx_manifest = manifest\<rparr>)"

definition mock_input_dim :: "mock_index \<Rightarrow> int" where
  "mock_input_dim m = meta_input_dim (mf_meta (mx_manifest m))"

definition mock_search :: "mock_index \<Rightarrow> f32 list \<Rightarrow> int \<Rightarrow> search_out" where
  "mock_search m x k =
     (if int (length x) \<noteq> mock_input_dim m then Inl (Cfg ErrWrongInputDimension)
      else Inr (replicate 3 (F_num (1 / 2)), [''1'', ''2'', ''3'']))"

section \<open>Any index\<close>

text \<open>The two implementations of the Go interface \<open>Index\<close>.\<close>

datatype index = FaissIx faiss_index | MockIx mock_index

definition new_index ::
    "world \<Rightarrow> index_manifest \<Rightarrow> shard \<Rightarrow> c_heap \<Rightarrow> (c_heap \<times> (error + index)) run" where
  "new_index w manifest sh h =
     (if meta_type (mf_meta manifest) = ''faiss'' then
        run_map (\<lambda>(h', r). (h', case r of Inl e \<Rightarrow> Inl e | Inr fx \<Rightarrow> Inr (FaissIx fx)))
          (new_faiss_index w manifest sh h)
      else if meta_type (mf_meta manifest) = ''mock'' then
        Ret (h, case new_mock_index manifest sh of Inl e \<Rightarrow> Inl e | Inr m \<Rightarrow> Inr (MockIx m))
      else Ret (h, Inl (Cfg ErrInvalidIndexType)))"

fun index_search :: "c_heap \<Rightarrow> index \<Rightarrow> f32 list \<Rightarrow> int \<Rightarrow> search_out run" where
  "index_search h (FaissIx fx) x k = faiss_search h fx x k"
| "index_search h (MockIx m) x k = Ret (mock_search m x k)"

fun index_delete :: "c_heap \<Rightarrow> index \<Rightarrow> c_heap run" where
  "index_delete h (FaissIx fx) = run_map fst (faiss_delete h fx)"
| "index_delete h (MockIx m) = Ret h"

fun index_shard :: "index \<Rightarrow> shard" where
  "index_shard (FaissIx fx) = fx_shard fx"
| "index_shard (MockIx m) = mx_shard m"

fun index_meta_of :: "index \<Rightarrow> index_meta" where
  "index_meta_of (FaissIx fx) = mf_meta (fx_manifest fx)"
| "index_meta_of (MockIx m) = mf_meta (mx_manifest m)"

fun index_revision :: "index \<Rightarrow> int" where
  "index_revision (FaissIx fx) = fx_revision fx"
| "index_revision (MockIx m) = mx_revision m"

text \<open>The handles an index owns.\<close>

definition fx_owned :: "faiss_index \<Rightarrow> nat set" where
  "fx_owned fx = set_option (fx_index fx) \<union> set_option (fx_staged_index fx)"

fun index_owned :: "index \<Rightarrow> nat set" where
  "index_owned (FaissIx fx) = fx_owned fx"
| "index_owned (MockIx m) = {}"

section \<open>Well-formed shards\<close>

text \<open>
  A serving shard: the serving handle and the staged one are live and different, and the
  staged revision is zero exactly when nothing is staged.
\<close>

definition fx_ok :: "c_heap \<Rightarrow> faiss_index \<Rightarrow> bool" where
  "fx_ok h fx \<longleftrightarrow>
     ch_ok h \<and> \<not> fx_reloading fx \<and> mf_source (fx_manifest fx) \<noteq> None \<and>
     (\<exists>i \<in> ch_handles h. fx_index fx = Some i) \<and>
     (case fx_staged_index fx of
        None \<Rightarrow> fx_staged_revision fx = 0
      | Some j \<Rightarrow> j \<in> ch_handles h \<and> fx_index fx \<noteq> Some j)"

fun index_ok :: "c_heap \<Rightarrow> index \<Rightarrow> bool" where
  "index_ok h (FaissIx fx) = fx_ok h fx"
| "index_ok h (MockIx m) = ch_ok h"

text \<open>What an operation does to the handles it does not own: nothing.\<close>

definition ch_frame :: "nat set \<Rightarrow> c_heap \<Rightarrow> c_heap \<Rightarrow> bool" where
  "ch_frame own h h' \<longleftrightarrow>
     ch_ok h' \<and> ch_next h \<le> ch_next h' \<and>
     (\<forall>i. i < ch_next h \<and> i \<notin> own \<longrightarrow> sm_load (ch_live h') i = sm_load (ch_live h) i)"

lemma ch_frame_refl [simp]: "ch_ok h \<Longrightarrow> ch_frame own h h"
  by (simp add: ch_frame_def)

lemma ch_handles_load: "i \<in> ch_handles h \<longleftrightarrow> sm_load (ch_live h) i \<noteq> None"
  by (simp add: ch_handles_def sm_keys_load)

lemma ch_ok_fresh: "ch_ok h \<Longrightarrow> ch_next h \<notin> ch_handles h"
  by (auto simp: ch_ok_def)

lemma ch_alloc_handles: "ch_alloc d h = (i, h') \<Longrightarrow> ch_handles h' = insert i (ch_handles h) \<and> i = ch_next h"
  by (auto simp: ch_alloc_def ch_handles_def)

lemma ch_alloc_ok: "ch_alloc d h = (i, h') \<Longrightarrow> ch_ok h \<Longrightarrow> ch_ok h'"
  by (auto simp: ch_alloc_def ch_handles_def ch_ok_def less_Suc_eq)

lemma ch_free_live:
  "i \<in> ch_handles h \<Longrightarrow> \<exists>h'. ch_free i h = Ret h' \<and> ch_handles h' = ch_handles h - {i} \<and>
     ch_next h' = ch_next h \<and> (\<forall>j. j \<noteq> i \<longrightarrow> sm_load (ch_live h') j = sm_load (ch_live h) j)"
  by (cases "sm_load (ch_live h) i") (auto simp: ch_free_def ch_handles_def sm_keys_load)

lemma ch_free_dead: "i \<notin> ch_handles h \<Longrightarrow> ch_free i h = Panic DoubleFree"
  by (auto simp: ch_free_def ch_handles_load)

lemma ch_deref_live: "i \<in> ch_handles h \<Longrightarrow> ch_deref h i = Ret (the (sm_load (ch_live h) i))"
  by (auto simp: ch_deref_def ch_handles_load)

lemma ch_deref_dead: "i \<notin> ch_handles h \<Longrightarrow> ch_deref h i = Panic UseAfterFree"
  by (auto simp: ch_deref_def ch_handles_load)

lemma ch_frame_trans:
  "ch_frame own h h1 \<Longrightarrow> ch_frame own' h1 h2 \<Longrightarrow> own' \<subseteq> own \<union> {i. ch_next h \<le> i} \<Longrightarrow> ch_frame own h h2"
  unfolding ch_frame_def
  by (smt (verit) UnE mem_Collect_eq not_le order_less_le_trans order_trans subset_eq)

lemma ch_frame_handles:
  "ch_frame own h h' \<Longrightarrow> ch_ok h \<Longrightarrow> i \<in> ch_handles h \<Longrightarrow> i \<notin> own \<Longrightarrow> i \<in> ch_handles h'"
  by (auto simp: ch_frame_def ch_handles_load ch_ok_def)

text \<open>An operation on one shard leaves every other shard well formed.\<close>

lemma fx_ok_frame:
  assumes "ch_frame own h h'" "fx_ok h fx" "fx_owned fx \<inter> own = {}"
  shows "fx_ok h' fx"
proof -
  have "ch_ok h'" using assms(1) by (simp add: ch_frame_def)
  moreover have "i \<in> ch_handles h'" if "i \<in> fx_owned fx" "i \<in> ch_handles h" for i
    using ch_frame_handles [OF assms(1) _ that(2)] assms(2,3) that(1) by (auto simp: fx_ok_def)
  ultimately show ?thesis
    using assms(2) by (auto simp: fx_ok_def fx_owned_def split: option.splits)
qed

lemma index_ok_frame:
  "ch_frame own h h' \<Longrightarrow> index_ok h ix \<Longrightarrow> index_owned ix \<inter> own = {} \<Longrightarrow> index_ok h' ix"
  by (cases ix) (auto intro: fx_ok_frame simp: ch_frame_def)

lemma index_owned_live: "index_ok h ix \<Longrightarrow> index_owned ix \<subseteq> ch_handles h"
  by (cases ix) (auto simp: fx_ok_def fx_owned_def split: option.splits)

end
