(* ===== verification/Staged_Reload.thy ===== *)
theory Staged_Reload
  imports Faiss_Index
begin

text \<open>
  The Go interface \<open>StagedReloader\<close> as a contract: a shard serves one revision and may hold a
  second one staged.  The abstract state is the pair of the two; staging, committing and
  discarding act on it, and only a commit of exactly the staged revision changes what is
  served.  The FAISS index is interpreted in it, with its hand-managed memory.
\<close>

section \<open>The contract\<close>

datatype 'w staged_op = StageOp 'w | CommitOp int | DiscardOp

text \<open>A sequence of calls on one shard, by the three operations of the interface.\<close>

fun staged_op_run ::
    "('w \<Rightarrow> 's \<Rightarrow> ('s \<times> (error + int)) run) \<Rightarrow> (int \<Rightarrow> 's \<Rightarrow> ('s \<times> error option) run) \<Rightarrow>
     ('s \<Rightarrow> 's run) \<Rightarrow> 'w staged_op \<Rightarrow> 's \<Rightarrow> 's run" where
  "staged_op_run stage commit discard (StageOp w) s = run_map fst (stage w s)"
| "staged_op_run stage commit discard (CommitOp r) s = run_map fst (commit r s)"
| "staged_op_run stage commit discard DiscardOp s = discard s"

fun staged_ops_run ::
    "('w \<Rightarrow> 's \<Rightarrow> ('s \<times> (error + int)) run) \<Rightarrow> (int \<Rightarrow> 's \<Rightarrow> ('s \<times> error option) run) \<Rightarrow>
     ('s \<Rightarrow> 's run) \<Rightarrow> 'w staged_op list \<Rightarrow> 's \<Rightarrow> 's run" where
  "staged_ops_run stage commit discard [] s = Ret s"
| "staged_ops_run stage commit discard (p # ps) s =
     run_bind (staged_op_run stage commit discard p s) (staged_ops_run stage commit discard ps)"

locale staged_reloader =
  fixes stage :: "'w \<Rightarrow> 's \<Rightarrow> ('s \<times> (error + int)) run"
    and commit :: "int \<Rightarrow> 's \<Rightarrow> ('s \<times> error option) run"
    and discard :: "'s \<Rightarrow> 's run"
    and serving :: "'s \<Rightarrow> 'v"
    and staged :: "'s \<Rightarrow> 'v option"
    and revision :: "'v \<Rightarrow> int"
    and inv :: "'s \<Rightarrow> bool"
  assumes stage_inv: "inv s \<Longrightarrow> \<exists>s' r. stage w s = Ret (s', r) \<and> inv s' \<and> serving s' = serving s"
    and stage_ok: "inv s \<Longrightarrow> stage w s = Ret (s', Inr r) \<Longrightarrow> \<exists>v. staged s' = Some v \<and> revision v = r"
    and stage_err: "inv s \<Longrightarrow> stage w s = Ret (s', Inl e) \<Longrightarrow> staged s' = staged s"
    and commit_match:
      "inv s \<Longrightarrow> staged s = Some v \<Longrightarrow>
       \<exists>s'. commit (revision v) s = Ret (s', None) \<and> inv s' \<and> serving s' = v \<and> staged s' = None"
    and commit_other:
      "inv s \<Longrightarrow> (\<And>v. staged s = Some v \<Longrightarrow> revision v \<noteq> r) \<Longrightarrow>
       \<exists>e. commit r s = Ret (s, Some e)"
    and discard_ok:
      "inv s \<Longrightarrow> \<exists>s'. discard s = Ret s' \<and> inv s' \<and> serving s' = serving s \<and> staged s' = None"
begin

lemma commit_cases:
  assumes "inv s"
  obtains (swap) v s' where "staged s = Some v" "revision v = r" "commit r s = Ret (s', None)"
      "inv s'" "serving s' = v" "staged s' = None"
    | (refused) e where "commit r s = Ret (s, Some e)"
  using commit_match [OF assms] commit_other [OF assms] by (metis (no_types))

lemma run_op_inv:
  assumes "inv s"
  shows "\<exists>s'. staged_op_run stage commit discard p s = Ret s' \<and> inv s' \<and>
    (serving s' = serving s \<or> (\<exists>r. p = CommitOp r \<and> revision (serving s') = r))"
proof (cases p)
  case (StageOp w)
  then show ?thesis using stage_inv [OF assms, of w] by auto
next
  case (CommitOp r)
  then show ?thesis
    by (cases rule: commit_cases [OF assms, of r]) (use assms in auto)
next
  case DiscardOp
  then show ?thesis using discard_ok [OF assms] by auto
qed

text \<open>Every sequence of operations returns, and what is served came from a commit.\<close>

lemma run_ops_inv:
  "inv s \<Longrightarrow> \<exists>s'. staged_ops_run stage commit discard ps s = Ret s' \<and> inv s' \<and>
    (serving s' = serving s \<or> CommitOp (revision (serving s')) \<in> set ps)"
proof (induction ps arbitrary: s)
  case Nil
  then show ?case by simp
next
  case (Cons p ps)
  from run_op_inv [OF Cons.prems, of p] obtain s1 where s1: "staged_op_run stage commit discard p s = Ret s1" "inv s1"
    "serving s1 = serving s \<or> (\<exists>r. p = CommitOp r \<and> revision (serving s1) = r)" by auto
  from Cons.IH [OF s1(2)] obtain s2 where "staged_ops_run stage commit discard ps s1 = Ret s2" "inv s2"
    "serving s2 = serving s1 \<or> CommitOp (revision (serving s2)) \<in> set ps" by auto
  with s1 show ?case by auto
qed

text \<open>A commit right after a successful staging serves the staged revision.\<close>

lemma stage_commit:
  assumes "inv s" "stage w s = Ret (s1, Inr r)"
  shows "\<exists>s2. commit r s1 = Ret (s2, None) \<and> inv s2 \<and> revision (serving s2) = r"
proof -
  from stage_inv [OF assms(1), of w] assms(2) have i: "inv s1" by simp
  from stage_ok [OF assms] obtain v where v: "staged s1 = Some v" "revision v = r" by auto
  from commit_match [OF i v(1)] v(2) show ?thesis by auto
qed

end

section \<open>The operations of the FAISS index\<close>

lemma new_downloader_Ret: "src \<noteq> None \<Longrightarrow> \<exists>dl. new_downloader w src sh = Ret dl"
  by (auto simp: new_downloader_def)

lemma read_index_cases:
  obtains (err) e where "read_index w p h = (h, Inl e)"
    | (ok) d h' where "w_read_index w p = Inr d" "ch_alloc d h = (ch_next h, h')"
        "read_index w p h = (h', Inr (ch_next h))"
proof (cases "w_read_index w p")
  case (Inl e)
  then show ?thesis by (intro err) (simp add: read_index_def)
next
  case (Inr d)
  then show ?thesis by (intro ok) (auto simp: read_index_def ch_alloc_def)
qed

text \<open>The state after a successful staging: a fresh handle, the previously staged one freed.\<close>

definition staged_state :: "faiss_data \<Rightarrow> int \<Rightarrow> c_heap \<Rightarrow> faiss_index \<Rightarrow> c_heap \<times> faiss_index" where
  "staged_state d r h fx =
     (let live = sm_store (ch_next h) d (ch_live h)
      in (h\<lparr>ch_live := (case fx_staged_index fx of None \<Rightarrow> live | Some j \<Rightarrow> sm_delete j live),
            ch_next := Suc (ch_next h)\<rparr>,
          fx\<lparr>fx_staged_index := Some (ch_next h), fx_staged_revision := r\<rparr>))"

lemma stage_reload_cases:
  assumes "fx_ok h fx"
  obtains (err) e where "stage_reload w w' h fx = Ret (h, fx, Inl e)"
    | (ok) dl p r d where
        "new_downloader w (mf_source (fx_manifest fx)) (fx_shard fx) = Ret (Inr dl)"
        "download_update w w' dl (fx_revision fx) = (p, r, None)" "w_read_index w' p = Inr d"
        "stage_reload w w' h fx = Ret (fst (staged_state d r h fx), snd (staged_state d r h fx), Inr r)"
proof -
  from assms obtain dl where dl: "new_downloader w (mf_source (fx_manifest fx)) (fx_shard fx) = Ret dl"
    using new_downloader_Ret [of "mf_source (fx_manifest fx)"] by (auto simp: fx_ok_def)
  have nr: "\<not> fx_reloading fx" using assms by (simp add: fx_ok_def)
  show thesis
  proof (cases dl)
    case (Inl e)
    with dl nr show thesis by (intro err) (simp add: stage_reload_def)
  next
    case (Inr d)
    obtain p r oe where u: "download_update w w' d (fx_revision fx) = (p, r, oe)"
      by (metis prod_cases3)
    show thesis
    proof (cases oe)
      case (Some e)
      with dl nr Inr u show thesis by (intro err) (simp add: stage_reload_def)
    next
      case None
      show thesis
      proof (cases rule: read_index_cases [of w' p h])
        case (err e)
        with dl nr Inr u None show thesis by (intro that(1)) (simp add: stage_reload_def)
      next
        case (ok fd h')
        have "stage_reload w w' h fx =
            Ret (fst (staged_state fd r h fx), snd (staged_state fd r h fx), Inr r)"
        proof (cases "fx_staged_index fx")
          case None
          with dl nr Inr u \<open>oe = None\<close> ok show ?thesis
            by (simp add: stage_reload_def staged_state_def ch_alloc_def)
        next
          case (Some j)
          with assms have "j \<in> ch_handles h" "j \<noteq> ch_next h"
            by (auto simp: fx_ok_def dest: ch_ok_fresh)
          with Some dl nr Inr u \<open>oe = None\<close> ok show ?thesis
            by (auto simp: stage_reload_def staged_state_def ch_alloc_def ch_free_def ch_handles_load)
        qed
        with dl Inr u None ok(1) show thesis by (intro that(2)) auto
      qed
    qed
  qed
qed

definition fx_data :: "c_heap \<Rightarrow> nat option \<Rightarrow> faiss_data option" where
  "fx_data h i = (case i of None \<Rightarrow> None | Some j \<Rightarrow> sm_load (ch_live h) j)"

text \<open>What is served and what is staged: the revision and the data behind the handle.\<close>

definition fx_serving :: "c_heap \<times> faiss_index \<Rightarrow> int \<times> faiss_data option" where
  "fx_serving s = (fx_revision (snd s), fx_data (fst s) (fx_index (snd s)))"

definition fx_staged :: "c_heap \<times> faiss_index \<Rightarrow> (int \<times> faiss_data option) option" where
  "fx_staged s =
     (case fx_staged_index (snd s) of
        None \<Rightarrow> None
      | Some j \<Rightarrow> Some (fx_staged_revision (snd s), fx_data (fst s) (Some j)))"

lemma staged_state_frame:
  assumes "fx_ok h fx" "staged_state d r h fx = (h', fx')"
  shows "fx_ok h' fx'" "ch_frame (fx_owned fx) h h'" "fx_owned fx' \<subseteq> fx_owned fx \<union> {ch_next h}"
    and "fx_serving (h', fx') = fx_serving (h, fx)" "fx_staged (h', fx') = Some (r, Some d)"
proof -
  from assms(1) have ok: "ch_ok h" and fr: "ch_next h \<notin> ch_handles h"
    by (auto simp: fx_ok_def dest: ch_ok_fresh)
  obtain i where i: "fx_index fx = Some i" "i \<in> ch_handles h" "i \<noteq> ch_next h"
    using assms(1) fr by (auto simp: fx_ok_def)
  have less: "j < ch_next h" if "j \<in> ch_handles h" for j
    using ok that by (simp add: ch_ok_def)
  have h': "h' = h\<lparr>ch_live := (case fx_staged_index fx of None \<Rightarrow> sm_store (ch_next h) d (ch_live h)
        | Some j \<Rightarrow> sm_delete j (sm_store (ch_next h) d (ch_live h))), ch_next := Suc (ch_next h)\<rparr>"
    and fx': "fx' = fx\<lparr>fx_staged_index := Some (ch_next h), fx_staged_revision := r\<rparr>"
    using assms(2) by (auto simp: staged_state_def Let_def)
  have hs: "ch_handles h' = insert (ch_next h) (ch_handles h) - set_option (fx_staged_index fx)"
    by (auto simp: h' ch_handles_def split: option.splits)
  have st: "fx_staged_index fx = None \<or> (\<exists>j. fx_staged_index fx = Some j \<and> j \<in> ch_handles h \<and> j \<noteq> i)"
    using assms(1) i by (auto simp: fx_ok_def split: option.splits)
  have ok': "ch_ok h'"
    unfolding ch_ok_def hs by (auto simp: h' less_Suc_eq dest: less)
  show "fx_ok h' fx'"
    using assms(1) ok' i st fr by (auto simp: fx_ok_def fx' hs)
  show "ch_frame (fx_owned fx) h h'"
    using ok' by (auto simp: ch_frame_def h' fx_owned_def split: option.splits)
  show "fx_owned fx' \<subseteq> fx_owned fx \<union> {ch_next h}"
    by (auto simp: fx' fx_owned_def)
  show "fx_serving (h', fx') = fx_serving (h, fx)"
    using i st by (auto simp: fx_serving_def fx_data_def h' fx' split: option.splits)
  show "fx_staged (h', fx') = Some (r, Some d)"
    using st fr by (auto simp: fx_staged_def fx_data_def h' fx' split: option.splits)
qed

lemma commit_staged_cases:
  assumes "fx_ok h fx"
  obtains (swap) h' j where "fx_staged_index fx = Some j" "fx_staged_revision fx = r"
      "commit_staged r h fx = Ret (h', fx\<lparr>fx_index := Some j, fx_revision := r,
          fx_staged_index := None, fx_staged_revision := 0\<rparr>, None)"
      "ch_free (the (fx_index fx)) h = Ret h'"
    | (refused) e where "commit_staged r h fx = Ret (h, fx, Some e)"
        "fx_staged_index fx = None \<or> fx_staged_revision fx \<noteq> r"
proof (cases "fx_staged_index fx")
  case None
  then show thesis by (intro refused) (simp_all add: commit_staged_def)
next
  case (Some j)
  show thesis
  proof (cases "fx_staged_revision fx = r")
    case True
    from assms obtain i where i: "fx_index fx = Some i" "i \<in> ch_handles h" by (auto simp: fx_ok_def)
    from ch_free_live [OF i(2)] obtain h' where "ch_free i h = Ret h'" by auto
    with Some True i show thesis by (intro swap) (auto simp: commit_staged_def)
  next
    case False
    with Some show thesis by (intro refused) (auto simp: commit_staged_def)
  qed
qed

lemma free_own_frame:
  assumes "ch_ok h" "ch_free i h = Ret h'" "i \<in> own"
  shows "ch_frame own h h'" "ch_handles h' = ch_handles h - {i}"
    "\<And>j. j \<noteq> i \<Longrightarrow> sm_load (ch_live h') j = sm_load (ch_live h) j"
  using assms by (auto simp: ch_free_def ch_frame_def ch_ok_def ch_handles_def split: option.splits)

lemma commit_staged_frame:
  assumes "fx_ok h fx" "commit_staged r h fx = Ret (h', fx', None)"
  shows "fx_ok h' fx'" "ch_frame (fx_owned fx) h h'" "fx_owned fx' \<subseteq> fx_owned fx"
    "fx_staged (h, fx) = Some (fx_serving (h', fx'))" "fx_staged (h', fx') = None"
    "fx_revision fx' = r"
proof -
  from assms(2) obtain h1 j where swap: "fx_staged_index fx = Some j" "fx_staged_revision fx = r"
    "commit_staged r h fx = Ret (h1, fx\<lparr>fx_index := Some j, fx_revision := r,
        fx_staged_index := None, fx_staged_revision := 0\<rparr>, None)" "ch_free (the (fx_index fx)) h = Ret h1"
    by (cases rule: commit_staged_cases [OF assms(1), of r]) auto
  obtain i where i: "fx_index fx = Some i" using assms(1) by (auto simp: fx_ok_def)
  have h1: "h1 = h'" "fx' = fx\<lparr>fx_index := Some j, fx_revision := r, fx_staged_index := None, fx_staged_revision := 0\<rparr>"
    using swap assms(2) by auto
  have ne: "j \<noteq> i" "j \<in> ch_handles h" using assms(1) swap(1) i by (auto simp: fx_ok_def)
  have "ch_ok h" "ch_free i h = Ret h'" "i \<in> fx_owned fx"
    using assms(1) swap(4) i h1 by (simp_all add: fx_ok_def fx_owned_def)
  note f = free_own_frame [OF this]
  have ok': "ch_ok h'" using f(1) by (simp add: ch_frame_def)
  show "ch_frame (fx_owned fx) h h'" by (rule f(1))
  show "fx_ok h' fx'" using ok' ne assms(1) by (simp add: h1(2) fx_ok_def f(2))
  show "fx_owned fx' \<subseteq> fx_owned fx" using swap(1) by (simp add: h1(2) fx_owned_def)
  show "fx_staged (h, fx) = Some (fx_serving (h', fx'))"
    using swap(1,2) f(3) [OF ne(1)] by (simp add: h1(2) fx_staged_def fx_serving_def fx_data_def)
  show "fx_staged (h', fx') = None" "fx_revision fx' = r" by (simp_all add: h1(2) fx_staged_def)
qed

lemma discard_staged_frame:
  assumes "fx_ok h fx"
  obtains h' fx' where "discard_staged h fx = Ret (h', fx')" "fx_ok h' fx'" "ch_frame (fx_owned fx) h h'"
    "fx_owned fx' \<subseteq> fx_owned fx" "fx_serving (h', fx') = fx_serving (h, fx)" "fx_staged (h', fx') = None"
    "fx_index fx' = fx_index fx"
proof (cases "fx_staged_index fx")
  case None
  with assms show thesis by (intro that) (auto simp: discard_staged_def fx_staged_def fx_ok_def)
next
  case (Some j)
  with assms have j: "j \<in> ch_handles h" "fx_index fx \<noteq> Some j" "ch_ok h" by (auto simp: fx_ok_def)
  from ch_free_live [OF j(1)] obtain h' where h': "ch_free j h = Ret h'" by auto
  have own: "j \<in> fx_owned fx" using Some by (simp add: fx_owned_def)
  note f = free_own_frame [OF j(3) h' own]
  show thesis
  proof (rule that)
    show "discard_staged h fx = Ret (h', fx\<lparr>fx_staged_index := None, fx_staged_revision := 0\<rparr>)"
      using Some h' by (simp add: discard_staged_def)
  qed (use assms Some j f in \<open>auto simp: fx_ok_def fx_owned_def fx_staged_def fx_serving_def fx_data_def ch_frame_def\<close>)
qed

lemma faiss_delete_frame:
  assumes "fx_ok h fx"
  obtains h' fx' where "faiss_delete h fx = Ret (h', fx')" "ch_frame (fx_owned fx) h h'"
    "fx_index fx' = fx_index fx" "the (fx_index fx) \<notin> ch_handles h'"
proof -
  from discard_staged_frame [OF assms] obtain h1 fx1 where d: "discard_staged h fx = Ret (h1, fx1)"
    "fx_ok h1 fx1" "ch_frame (fx_owned fx) h h1" "fx_owned fx1 \<subseteq> fx_owned fx" "fx_index fx1 = fx_index fx"
    by metis
  obtain i where i: "fx_index fx = Some i" "i \<in> ch_handles h1" "ch_ok h1"
    using d by (auto simp: fx_ok_def)
  from ch_free_live [OF i(2)] obtain h2 where h2: "ch_free i h1 = Ret h2" by auto
  have own: "i \<in> fx_owned fx" using i by (simp add: fx_owned_def)
  note f = free_own_frame [OF i(3) h2 own]
  have "ch_frame (fx_owned fx) h h2" using d(3) f(1) by (auto intro: ch_frame_trans)
  moreover have "faiss_delete h fx = Ret (h2, fx1)"
    using d h2 i by (simp add: faiss_delete_def)
  ultimately show thesis using f(2) i d by (intro that [of h2 fx1]) auto
qed

section \<open>The FAISS index keeps the contract\<close>

type_synonym shard_state = "c_heap \<times> faiss_index"

definition fx_stage :: "world \<times> world \<Rightarrow> shard_state \<Rightarrow> (shard_state \<times> (error + int)) run" where
  "fx_stage ww s = run_map (\<lambda>(h, fx, r). ((h, fx), r)) (stage_reload (fst ww) (snd ww) (fst s) (snd s))"

definition fx_commit :: "int \<Rightarrow> shard_state \<Rightarrow> (shard_state \<times> error option) run" where
  "fx_commit r s = run_map (\<lambda>(h, fx, e). ((h, fx), e)) (commit_staged r (fst s) (snd s))"

definition fx_discard :: "shard_state \<Rightarrow> shard_state run" where
  "fx_discard s = discard_staged (fst s) (snd s)"

definition fx_inv :: "shard_state \<Rightarrow> bool" where
  "fx_inv s = fx_ok (fst s) (snd s)"

interpretation faiss_staging: staged_reloader fx_stage fx_commit fx_discard fx_serving fx_staged fst fx_inv
proof unfold_locales
  fix s w assume "fx_inv s"
  then have ok: "fx_ok (fst s) (snd s)" by (simp add: fx_inv_def)
  show "\<exists>s' r. fx_stage w s = Ret (s', r) \<and> fx_inv s' \<and> fx_serving s' = fx_serving s"
    by (cases rule: stage_reload_cases [OF ok, of "fst w" "snd w"])
       (use ok staged_state_frame(1,4) [OF ok prod.collapse [symmetric]] in \<open>auto simp: fx_stage_def fx_inv_def\<close>)
next
  fix s w s' r assume "fx_inv s" and st: "fx_stage w s = Ret (s', Inr r)"
  then have ok: "fx_ok (fst s) (snd s)" by (simp add: fx_inv_def)
  show "\<exists>v. fx_staged s' = Some v \<and> fst v = r"
    by (cases rule: stage_reload_cases [OF ok, of "fst w" "snd w"])
       (use st staged_state_frame(5) [OF ok prod.collapse [symmetric]] in \<open>auto simp: fx_stage_def\<close>)
next
  fix s w s' e assume "fx_inv s" and st: "fx_stage w s = Ret (s', Inl e)"
  then have ok: "fx_ok (fst s) (snd s)" by (simp add: fx_inv_def)
  show "fx_staged s' = fx_staged s"
    by (cases rule: stage_reload_cases [OF ok, of "fst w" "snd w"]) (use st in \<open>auto simp: fx_stage_def\<close>)
next
  fix s v assume "fx_inv s" and sg: "fx_staged s = Some v"
  then have ok: "fx_ok (fst s) (snd s)" by (simp add: fx_inv_def)
  show "\<exists>s'. fx_commit (fst v) s = Ret (s', None) \<and> fx_inv s' \<and> fx_serving s' = v \<and> fx_staged s' = None"
  proof -
    from sg obtain h' fx' where c: "commit_staged (fst v) (fst s) (snd s) = Ret (h', fx', None)"
      by (cases rule: commit_staged_cases [OF ok, of "fst v"])
        (auto simp: fx_staged_def split: option.splits)
    have "fx_commit (fst v) s = Ret ((h', fx'), None)" by (simp add: fx_commit_def c)
    moreover from commit_staged_frame [OF ok c] sg
    have "fx_inv (h', fx')" "fx_serving (h', fx') = v" "fx_staged (h', fx') = None"
      by (simp_all add: fx_inv_def)
    ultimately show ?thesis by blast
  qed
next
  fix s r assume "fx_inv s" and sg: "\<And>v. fx_staged s = Some v \<Longrightarrow> fst v \<noteq> r"
  then have ok: "fx_ok (fst s) (snd s)" by (simp add: fx_inv_def)
  show "\<exists>e. fx_commit r s = Ret (s, Some e)"
    by (cases rule: commit_staged_cases [OF ok, of r])
       (use sg in \<open>auto simp: fx_commit_def fx_staged_def\<close>)
next
  fix s assume "fx_inv s"
  then have ok: "fx_ok (fst s) (snd s)" by (simp add: fx_inv_def)
  show "\<exists>s'. fx_discard s = Ret s' \<and> fx_inv s' \<and> fx_serving s' = fx_serving s \<and> fx_staged s' = None"
    by (rule discard_staged_frame [OF ok], rule exI, rule conjI, simp add: fx_discard_def)
       (simp add: fx_inv_def)
qed


section \<open>Loading a shard\<close>

lemma start_reload_keeps:
  "start_reload w setting fx = Inr fx' \<Longrightarrow> \<exists>e. fx' = fx\<lparr>fx_reload_entry := e\<rparr>"
  by (cases fx) (auto simp: start_reload_def Let_def split: if_splits option.splits sum.splits)

definition fresh_index :: "c_heap \<Rightarrow> int \<Rightarrow> index_manifest \<Rightarrow> shard \<Rightarrow> int \<Rightarrow> faiss_index" where
  "fresh_index h r m sh entry =
     \<lparr>fx_index = Some (ch_next h), fx_reloading = False, fx_reload_entry = entry,
      fx_shard = sh, fx_revision = r, fx_staged_index = None,
      fx_staged_revision = 0, fx_manifest = m, fx_reload_callback = ReloadSelf\<rparr>"

text \<open>The outcomes of loading: an error, on the heap or on one with a leaked handle, or a fresh index.\<close>

lemma new_faiss_index_cases:
  assumes "mf_source m \<noteq> None"
  obtains (err) e where "new_faiss_index w m sh h = Ret (h, Inl e)"
    | (leak) e h' d where "new_faiss_index w m sh h = Ret (h', Inl e)" "ch_alloc d h = (ch_next h, h')"
    | (ok) dl p r d h' entry where "new_downloader w (mf_source m) sh = Ret (Inr dl)"
        "download w dl = (p, r, None)" "w_read_index w p = Inr d" "ch_alloc d h = (ch_next h, h')"
        "new_faiss_index w m sh h = Ret (h', Inr (fresh_index h r m sh entry))"
proof -
  obtain res where nd: "new_downloader w (mf_source m) sh = Ret res"
    using new_downloader_Ret [OF assms] by auto
  show thesis
  proof (cases res)
    case (Inl e)
    with nd show thesis by (intro err) (simp add: new_faiss_index_def)
  next
    case (Inr dl)
    obtain p r oe where d: "download w dl = (p, r, oe)" by (metis prod_cases3)
    show thesis
    proof (cases oe)
      case (Some e)
      with nd Inr d show thesis by (intro err) (simp add: new_faiss_index_def)
    next
      case None
      show thesis
      proof (cases rule: read_index_cases [of w p h])
        case (err e)
        with nd Inr d None show thesis by (intro that(1)) (simp add: new_faiss_index_def)
      next
        case (ok fd h')
        define out where "out = (case mf_reload m of
            Some setting \<Rightarrow> if reload_enable setting then start_reload w setting (fresh_index h r m sh 0)
                            else Inr (fresh_index h r m sh 0)
          | None \<Rightarrow> Inr (fresh_index h r m sh 0))"
        have n: "new_faiss_index w m sh h = Ret (h', out)"
          using nd Inr d None ok
          by (auto simp: new_faiss_index_def out_def fresh_index_def Let_def split: option.splits)
        show thesis
        proof (cases out)
          case (Inl e)
          with n ok(2) show thesis by (intro leak) simp_all
        next
          case (Inr fx)
          have "\<exists>entry. fx = fresh_index h r m sh entry"
          proof (cases "\<exists>setting. mf_reload m = Some setting \<and> reload_enable setting")
            case True
            with Inr obtain setting where "start_reload w setting (fresh_index h r m sh 0) = Inr fx"
              by (auto simp: out_def)
            from start_reload_keeps [OF this] show ?thesis by (auto simp: fresh_index_def)
          next
            case False
            with Inr show ?thesis by (auto simp: out_def split: option.splits)
          qed
          with n nd \<open>res = Inr dl\<close> d None ok Inr show thesis by (auto intro: that(3))
        qed
      qed
    qed
  qed
qed

lemma new_faiss_index_source: "new_faiss_index w m sh h = Ret r \<Longrightarrow> mf_source m \<noteq> None"
  by (auto simp: new_faiss_index_def new_downloader_def run_bind_eq_Ret split: option.splits)

lemma fresh_index_owned [simp]: "fx_owned (fresh_index h r m sh e) = {ch_next h}"
  by (simp add: fresh_index_def fx_owned_def)

lemma fresh_index_ok:
  assumes "ch_ok h" "ch_alloc d h = (ch_next h, h')" "mf_source m \<noteq> None"
  shows "fx_ok h' (fresh_index h r m sh e)"
  using ch_alloc_ok [OF assms(2,1)] ch_alloc_handles [OF assms(2)] assms(3)
  by (simp add: fx_ok_def fresh_index_def)

lemma ch_alloc_frame: "ch_ok h \<Longrightarrow> ch_alloc d h = (i, h') \<Longrightarrow> ch_frame {} h h'"
  using ch_alloc_ok [of d h i h'] by (auto simp: ch_frame_def ch_alloc_def)

lemma new_faiss_index_ok:
  assumes "ch_ok h" "new_faiss_index w m sh h = Ret (h', Inr fx)"
  shows "\<exists>r e. fx = fresh_index h r m sh e" "fx_ok h' fx"
    "\<exists>dl p. new_downloader w (mf_source m) sh = Ret (Inr dl) \<and> download w dl = (p, fx_revision fx, None)"
proof (atomize (full))
  note src = new_faiss_index_source [OF assms(2)]
  show "(\<exists>r e. fx = fresh_index h r m sh e) \<and> fx_ok h' fx \<and>
    (\<exists>dl p. new_downloader w (mf_source m) sh = Ret (Inr dl) \<and> download w dl = (p, fx_revision fx, None))"
    by (cases rule: new_faiss_index_cases [OF src, of w sh h])
      (use assms fresh_index_ok [OF assms(1) _ src] in \<open>auto simp: fresh_index_def\<close>)
qed

lemma new_faiss_index_heap:
  assumes "ch_ok h" "new_faiss_index w m sh h = Ret (h', r)"
  shows "ch_frame {} h h'"
  by (cases rule: new_faiss_index_cases [OF new_faiss_index_source [OF assms(2)], of w sh h])
    (use assms in \<open>auto intro: ch_alloc_frame\<close>)

lemma new_faiss_index_Ret: "mf_source m \<noteq> None \<Longrightarrow> \<exists>h' r. new_faiss_index w m sh h = Ret (h', r)"
  by (cases rule: new_faiss_index_cases [of m w sh h]) auto

lemma new_index_Inr:
  assumes "new_index w m sh h = Ret (h', Inr ix)"
  obtains (faiss) fx where "meta_type (mf_meta m) = ''faiss''" "ix = FaissIx fx"
      "new_faiss_index w m sh h = Ret (h', Inr fx)"
    | (mock) mx where "meta_type (mf_meta m) = ''mock''" "ix = MockIx mx" "h' = h"
      "new_mock_index m sh = Inr mx"
proof (cases "meta_type (mf_meta m) = ''faiss''")
  case True
  with assms obtain r where "new_faiss_index w m sh h = Ret (h', r)"
    "(case r of Inl e \<Rightarrow> Inl e | Inr fx \<Rightarrow> Inr (FaissIx fx)) = Inr ix"
    by (auto simp: new_index_def run_map_eq_Ret)
  with True show thesis by (cases r) (auto intro: faiss)
next
  case False
  with assms show thesis
    by (cases "new_mock_index m sh") (auto simp: new_index_def intro: mock split: if_splits)
qed

lemma new_index_ok:
  assumes "ch_ok h" "new_index w m sh h = Ret (h', Inr ix)"
  shows "index_ok h' ix" "index_owned ix \<subseteq> {ch_next h}" "index_shard ix = sh"
proof (atomize (full), cases rule: new_index_Inr [OF assms(2)])
  case (1 fx)
  with new_faiss_index_ok(1,2) [OF assms(1) 1(3)]
  show "index_ok h' ix \<and> index_owned ix \<subseteq> {ch_next h} \<and> index_shard ix = sh"
    by (auto simp: fresh_index_def fx_owned_def)
next
  case (2 mx)
  with assms(1) show "index_ok h' ix \<and> index_owned ix \<subseteq> {ch_next h} \<and> index_shard ix = sh"
    by (auto simp: new_mock_index_def split: if_splits)
qed

lemma new_index_heap:
  "ch_ok h \<Longrightarrow> new_index w m sh h = Ret (h', r) \<Longrightarrow> ch_frame {} h h'"
  by (auto simp: new_index_def run_map_eq_Ret split: if_splits prod.splits dest: new_faiss_index_heap)

lemma new_index_Ret: "mf_source m \<noteq> None \<Longrightarrow> \<exists>h' r. new_index w m sh h = Ret (h', r)"
  using new_faiss_index_Ret [of m w sh h] by (auto simp: new_index_def)

lemma index_delete_ok:
  assumes "index_ok h ix"
  shows "\<exists>h'. index_delete h ix = Ret h' \<and> ch_frame (index_owned ix) h h'"
proof (cases ix)
  case (FaissIx fx)
  with assms have "fx_ok h fx" by simp
  then obtain h' fx' where "faiss_delete h fx = Ret (h', fx')" "ch_frame (fx_owned fx) h h'"
    by (rule faiss_delete_frame)
  with FaissIx show ?thesis by simp
next
  case (MockIx m)
  with assms show ?thesis by auto
qed

lemma index_search_Ret: "index_ok h ix \<Longrightarrow> \<exists>r. index_search h ix x k = Ret r"
  by (cases ix) (auto simp: faiss_search_def fx_ok_def ch_deref_live)

lemma faiss_reload_ok:
  assumes "fx_ok h fx"
  shows "\<exists>h' fx' e. faiss_reload w w' h fx = Ret (h', fx', e) \<and> fx_ok h' fx' \<and> ch_frame (fx_owned fx) h h' \<and>
    fx_shard fx' = fx_shard fx \<and> fx_owned fx' \<subseteq> fx_owned fx \<union> {i. ch_next h \<le> i}"
proof -
  obtain dl where dl: "new_downloader w (mf_source (fx_manifest fx)) (fx_shard fx) = Ret dl"
    using assms new_downloader_Ret [of "mf_source (fx_manifest fx)"] by (auto simp: fx_ok_def)
  have ok: "ch_ok h" "\<not> fx_reloading fx" using assms by (simp_all add: fx_ok_def)
  have swap: "fx_ok h' (fx\<lparr>fx_index := Some i, fx_revision := r\<rparr>) \<and> ch_frame (fx_owned fx) h h' \<and>
      fx_owned (fx\<lparr>fx_index := Some i, fx_revision := r\<rparr>) \<subseteq> fx_owned fx \<union> {i. ch_next h \<le> i}"
    if "ch_alloc d h = (i, h')" for d i h' r
    using that assms ch_alloc_handles [OF that] ch_alloc_ok [OF that ok(1)] ch_alloc_frame [OF ok(1) that]
    by (auto simp: fx_ok_def ch_frame_def fx_owned_def ch_ok_def split: option.splits)
  have rd: "(\<exists>e. read_index w' p h = (h, Inl e)) \<or> (\<exists>d i h'. ch_alloc d h = (i, h') \<and> read_index w' p h = (h', Inr i))" for p
    by (cases rule: read_index_cases [of w' p h]) auto
  have nop: "fx_ok h fx \<and> ch_frame (fx_owned fx) h h \<and> fx_owned fx \<subseteq> fx_owned fx \<union> {i. ch_next h \<le> i}"
    using assms ok by simp
  show ?thesis
  proof (cases dl)
    case (Inl e)
    with dl ok nop show ?thesis by (simp add: faiss_reload_def)
  next
    case (Inr d)
    obtain p r err where u: "download_update w w' d (fx_revision fx) = (p, r, err)" by (metis prod_cases3)
    from rd [of p] dl ok Inr u swap nop show ?thesis
      by (auto simp: faiss_reload_def Let_def split: option.splits)
  qed
qed

section \<open>Properties\<close>

text \<open>C2: The staging protocol of a FAISS shard is memory safe and never changes what is served
  behind a caller's back.  From a well-formed shard, every sequence of stage, commit and discard
  calls, whatever the sources answer, returns without using or freeing a dead handle, leaves a
  well-formed shard, and serves either what it served before, revision and data, or a revision
  that one of the commits of the sequence named.\<close>

theorem staged_sequence_safe:
  assumes "fx_ok h fx"
  shows "\<exists>h' fx'. staged_ops_run fx_stage fx_commit fx_discard ops (h, fx) = Ret (h', fx') \<and> fx_ok h' fx' \<and>
    (fx_serving (h', fx') = fx_serving (h, fx) \<or> CommitOp (fx_revision fx') \<in> set ops)"
  using faiss_staging.run_ops_inv [of "(h, fx)" ops] assms
  by (auto simp: fx_inv_def fx_serving_def)

text \<open>A commit activates exactly what is staged: it succeeds if and only if something is staged
  at the expected revision; then the staged data is served at that revision, nothing is staged
  any more and the handle served before is freed, so nothing leaks.  In every other case the shard and the
  memory are left as they were and an error is returned.\<close>

theorem commit_staged_exact:
  assumes "fx_ok h fx" "fx_index fx = Some old"
  shows "if fx_staged_index fx \<noteq> None \<and> fx_staged_revision fx = expected
    then \<exists>h' fx'. commit_staged expected h fx = Ret (h', fx', None) \<and>
           Some (fx_serving (h', fx')) = fx_staged (h, fx) \<and> fx_revision fx' = expected \<and>
           fx_staged_index fx' = None \<and> ch_handles h' = ch_handles h - {old}
    else \<exists>e. commit_staged expected h fx = Ret (h, fx, Some e)"
proof (cases rule: commit_staged_cases [OF assms(1), of expected])
  case (1 h' j)
  from commit_staged_frame [OF assms(1) 1(3)] have
    "Some (fx_serving (h', fx\<lparr>fx_index := Some j, fx_revision := expected,
        fx_staged_index := None, fx_staged_revision := 0\<rparr>)) = fx_staged (h, fx)" by simp
  moreover have "ch_handles h' = ch_handles h - {old}"
    using free_own_frame(2) [of h old h' "{old}"] 1(4) assms by (simp add: fx_ok_def)
  ultimately show ?thesis using 1 by auto
next
  case (2 e)
  then show ?thesis by auto
qed

text \<open>Staging is followed by a commit that cannot fail: when \<open>StageReload\<close> returns revision \<open>r\<close>, the
  revision is newer than the one served, provided the source does not go back between its two reads,
  the shard still serves what it did, and \<open>CommitStaged r\<close> on the result succeeds and serves \<open>r\<close>.\<close>

theorem stage_then_commit:
  assumes "fx_ok h fx" "stage_reload w w' h fx = Ret (h1, fx1, Inr r)"
    and "\<And>dl r0 r1. read_revision w dl = Inr r0 \<Longrightarrow> read_revision w' dl = Inr r1 \<Longrightarrow> r0 \<le> r1"
  shows "fx_revision fx < r \<and> fx_serving (h1, fx1) = fx_serving (h, fx) \<and>
    (\<exists>h2 fx2. commit_staged r h1 fx1 = Ret (h2, fx2, None) \<and> fx_ok h2 fx2 \<and> fx_revision fx2 = r)"
proof -
  from assms(2) obtain dl p d where dl: "download_update w w' dl (fx_revision fx) = (p, r, None)"
    and s: "staged_state d r h fx = (h1, fx1)"
    by (cases rule: stage_reload_cases [OF assms(1), of w w']) (auto simp: prod_eq_iff)
  note f = staged_state_frame [OF assms(1) s]
  have "fx_staged_index fx1 \<noteq> None" "fx_staged_revision fx1 = r"
    using s by (auto simp: staged_state_def Let_def)
  then obtain h2 fx2 where c: "commit_staged r h1 fx1 = Ret (h2, fx2, None)"
    by (cases rule: commit_staged_cases [OF f(1), of r]) auto
  have "fx_revision fx < r" using any_source.update_ok_newer [OF dl] assms(3) by blast
  with commit_staged_frame(1,6) [OF f(1) c] c f(4) show ?thesis by blast
qed

text \<open>A search on a well-formed shard returns, and its answer is decided in the order of the
  code: an empty vector is refused first, then a vector shorter than the dimension, then the
  error of the library is passed on, and otherwise the scores come back with one decimal label per
  identifier the library returned.\<close>

theorem faiss_search_answers:
  assumes "fx_ok h fx" "fx_data h (fx_index fx) = Some d"
  shows "faiss_search h fx x k = Ret
    (if x = [] then Inl (Cfg ErrEmptyInput)
     else if int (length x) < fd_d d then Inl (Cfg ErrWrongInputDimension)
     else (case fd_search d x k of Inl e \<Rightarrow> Inl e | Inr (ds, ls) \<Rightarrow> Inr (ds, map itoa ls)))"
  using assms by (auto simp: faiss_search_def fx_data_def ch_deref_def split: option.splits)

text \<open>Deleting a shard frees everything it holds, exactly once, and nothing else; the pointer
  stays, so a search that reaches the shard afterwards with a non-empty vector uses freed memory,
  and a second deletion frees it again.\<close>

theorem faiss_delete_frees:
  assumes "fx_ok h fx" "x \<noteq> []"
  shows "\<exists>h' fx'. faiss_delete h fx = Ret (h', fx') \<and> ch_handles h' = ch_handles h - fx_owned fx \<and>
    faiss_search h' fx' x k = Panic UseAfterFree \<and> faiss_delete h' fx' = Panic DoubleFree"
proof -
  obtain i where i: "fx_index fx = Some i" "i \<in> ch_handles h" using assms by (auto simp: fx_ok_def)
  from discard_staged_frame [OF assms(1)] obtain h1 fx1 where d: "discard_staged h fx = Ret (h1, fx1)"
    "fx_ok h1 fx1" "fx_index fx1 = fx_index fx" "fx_staged (h1, fx1) = None" by metis
  have sn: "fx_staged_index fx1 = None" using d(4) by (auto simp: fx_staged_def split: option.splits)
  have h1: "ch_handles h1 = ch_handles h - set_option (fx_staged_index fx)"
    using d(1) by (auto simp: discard_staged_def run_bind_eq_Ret ch_free_def ch_handles_def
        split: option.splits)
  have "i \<in> ch_handles h1" using d i by (auto simp: fx_ok_def)
  from ch_free_live [OF this] obtain h2 where h2: "ch_free i h1 = Ret h2" "ch_handles h2 = ch_handles h1 - {i}"
    by auto
  have "faiss_delete h fx = Ret (h2, fx1)" using d h2 i by (simp add: faiss_delete_def)
  moreover have "ch_handles h2 = ch_handles h - fx_owned fx"
    using h1 h2 i by (auto simp: fx_owned_def)
  moreover have "faiss_search h2 fx1 x k = Panic UseAfterFree"
    using h2 i d assms(2) by (simp add: faiss_search_def ch_deref_dead)
  moreover have "faiss_delete h2 fx1 = Panic DoubleFree"
    using h2 i d sn by (simp add: faiss_delete_def discard_staged_def ch_free_dead)
  ultimately show ?thesis by blast
qed

text \<open>A reload that finds the revision up to date does not stop: it asks the library to read the
  empty path.  Should the library accept it, the shard serves that file, and in any case no reload
  frees a handle, so a successful one leaks the index served before.\<close>

theorem reload_up_to_date:
  assumes "\<not> fx_reloading fx" "new_downloader w (mf_source (fx_manifest fx)) (fx_shard fx) = Ret (Inr dl)"
    and "read_revision w dl = Inr r" "r \<le> fx_revision fx"
  shows "faiss_reload w w' h fx = Ret (case w_read_index w' '''' of
      Inl e \<Rightarrow> (h, fx, Some e)
    | Inr d \<Rightarrow> (snd (ch_alloc d h), fx\<lparr>fx_index := Some (ch_next h), fx_revision := r\<rparr>, None))"
  using assms any_source.update_current [OF assms(3,4), of w']
  by (auto simp: faiss_reload_def read_index_def ch_alloc_def split: sum.splits)

section \<open>Witnesses\<close>

definition ex_manifest :: index_manifest where
  "ex_manifest = \<lparr>mf_meta = \<lparr>meta_name = ''docs'', meta_type = ''faiss'', meta_input_dim = 2, meta_shards = 2,
       meta_replicas = 1, meta_c_time = 0, meta_m_time = 0, meta_version = ''1''\<rparr>,
     mf_source = Some ex_source, mf_reload = None\<rparr>"

text \<open>A shard serving revision 3, with revision 4 staged or not.\<close>

definition ex_fx :: "bool \<Rightarrow> faiss_index" where
  "ex_fx staged_too = \<lparr>fx_index = Some 0, fx_reloading = False, fx_reload_entry = 0, fx_shard = ex_shard,
     fx_revision = 3, fx_staged_index = (if staged_too then Some 1 else None),
     fx_staged_revision = (if staged_too then 4 else 0), fx_manifest = ex_manifest,
     fx_reload_callback = ReloadSelf\<rparr>"

definition ex_heap :: c_heap where
  "ex_heap = \<lparr>ch_live = [(0, ex_faiss), (1, ex_faiss)], ch_next = 2\<rparr>"

lemma ex_fx_ok: "fx_ok ex_heap (ex_fx b)"
  by (simp add: fx_ok_def ex_heap_def ex_fx_def ch_ok_def ch_handles_def sm_keys_def ex_manifest_def)

lemma ex_new_downloader:
  "new_downloader (ex_world s) (mf_source (fx_manifest (ex_fx b))) (fx_shard (ex_fx b)) =
   Ret (Inr (LocalDl (new_local_dl ex_source ex_shard)))"
  by (simp add: new_downloader_def ex_fx_def ex_manifest_def ex_source_def)

theorem staged_sequence_safe_witness:
  "fx_ok ex_heap (ex_fx True) \<and>
   (\<exists>h' fx'. staged_ops_run fx_stage fx_commit fx_discard [CommitOp 9, CommitOp 4] (ex_heap, ex_fx True)
       = Ret (h', fx') \<and> fx_ok h' fx' \<and>
     (fx_serving (h', fx') = fx_serving (ex_heap, ex_fx True) \<or> CommitOp (fx_revision fx') \<in> set [CommitOp 9, CommitOp 4 :: (world \<times> world) staged_op]))"
  using staged_sequence_safe [OF ex_fx_ok [of True], of "[CommitOp 9, CommitOp 4]"] ex_fx_ok [of True]
  by blast

theorem commit_staged_exact_witness:
  "\<exists>h' fx'. commit_staged 4 ex_heap (ex_fx True) = Ret (h', fx', None) \<and> fx_revision fx' = 4 \<and>
     ch_handles h' = {1}"
proof -
  have "fx_index (ex_fx True) = Some 0" "fx_staged_index (ex_fx True) \<noteq> None"
    "fx_staged_revision (ex_fx True) = 4" by (simp_all add: ex_fx_def)
  moreover have "ch_handles ex_heap - {0} = {1}"
    by (simp add: ex_heap_def ch_handles_def sm_keys_def)
  ultimately show ?thesis using commit_staged_exact [OF ex_fx_ok [of True], of 0 4] by auto
qed

theorem stage_then_commit_witness:
  "\<exists>h1 fx1 h2 fx2. stage_reload (ex_world ''5'') (ex_world ''5'') ex_heap (ex_fx True) = Ret (h1, fx1, Inr 5) \<and>
     commit_staged 5 h1 fx1 = Ret (h2, fx2, None) \<and> fx_revision fx2 = 5"
proof -
  have "download_update (ex_world ''5'') (ex_world ''5'') (LocalDl (new_local_dl ex_source ex_shard)) 3 =
      (''idx/5/0'', 5, None)"
    by code_simp
  moreover have "fx_revision (ex_fx True) = 3" by (simp add: ex_fx_def)
  ultimately obtain h1 fx1 where s:
    "stage_reload (ex_world ''5'') (ex_world ''5'') ex_heap (ex_fx True) = Ret (h1, fx1, Inr 5)"
    by (cases rule: stage_reload_cases [OF ex_fx_ok [of True], of "ex_world ''5''" "ex_world ''5''"])
       (auto simp: stage_reload_def ex_new_downloader read_index_def ex_world_def ch_alloc_def ex_fx_def ch_free_def
         ex_heap_def ex_manifest_def ex_source_def new_downloader_def sm_load_def sm_store_def)
  with stage_then_commit [OF ex_fx_ok [of True] s] show ?thesis by fastforce
qed

theorem faiss_search_answers_witness:
  "faiss_search ex_heap (ex_fx False) [F_num 0, F_num 1] 2 = Ret (Inr ([F_num 1, F_num 2], [''7'', ''9'']))"
proof -
  have "fx_data ex_heap (fx_index (ex_fx False)) = Some ex_faiss"
    by (simp add: fx_data_def ex_heap_def ex_fx_def sm_load_def)
  from faiss_search_answers [OF ex_fx_ok this, of "[F_num 0, F_num 1]" 2] show ?thesis
    by (simp add: ex_faiss_def) code_simp
qed

theorem faiss_delete_frees_witness:
  "\<exists>h' fx'. faiss_delete ex_heap (ex_fx True) = Ret (h', fx') \<and> ch_handles h' = {} \<and>
     faiss_search h' fx' [F_num 0] 1 = Panic UseAfterFree"
proof -
  have "ch_handles ex_heap - fx_owned (ex_fx True) = {}"
    by (simp add: ex_heap_def ch_handles_def sm_keys_def fx_owned_def ex_fx_def)
  with faiss_delete_frees [OF ex_fx_ok [of True], of "[F_num 0]" 1] show ?thesis by auto
qed

theorem reload_up_to_date_witness:
  "\<exists>h' fx'. faiss_reload (ex_world ''3'') (ex_world ''3'') ex_heap (ex_fx False) = Ret (h', fx', None) \<and>
     fx_index fx' = Some 2 \<and> ch_handles h' = {0, 1, 2}"
proof -
  have "read_revision (ex_world ''3'') (LocalDl (new_local_dl ex_source ex_shard)) = Inr 3"
    by code_simp
  from reload_up_to_date [OF _ ex_new_downloader this, of False "ex_world ''3''" ex_heap] show ?thesis
    by (auto simp: ex_fx_def ex_world_def ch_alloc_def ex_heap_def ch_handles_def sm_keys_def sm_store_def)
qed

end
