(* ===== verification/Node_Status.thy ===== *)
theory Node_Status
  imports Prelude
begin

text \<open>
  \<open>pkg/pkg.go\<close>: the status of the node and the channel, of capacity one, on which every
  change is sent to the consumer that publishes it.  \<open>set_status\<close> is a call that returns;
  the machine with the channel adds the call that blocks, holding the lock, until the
  consumer has made room.
\<close>

datatype node_status =
    Start | Init | Healthy | Unhealthy | Rebalancing | Inactive | OtherStatus string

fun status_string :: "node_status \<Rightarrow> string" where
  "status_string Start = ''start''"
| "status_string Init = ''init''"
| "status_string Healthy = ''healthy''"
| "status_string Unhealthy = ''unhealthy''"
| "status_string Rebalancing = ''rebalancing''"
| "status_string Inactive = ''inactive''"
| "status_string (OtherStatus s) = s"

text \<open>\<open>ps_sent\<close> is everything sent on \<open>StatusUpdating\<close> so far, oldest first.\<close>

record pkg_state =
  ps_status :: node_status
  ps_sent :: "node_status list"

definition init_pkg :: pkg_state where
  "init_pkg = \<lparr>ps_status = Start, ps_sent = []\<rparr>"

definition get_status :: "pkg_state \<Rightarrow> node_status" where
  "get_status p = ps_status p"

definition set_status :: "node_status \<Rightarrow> pkg_state \<Rightarrow> pkg_state" where
  "set_status s p =
     (if ps_status p = s then p else p\<lparr>ps_status := s, ps_sent := ps_sent p @ [s]\<rparr>)"

lemma status_set_status [simp]: "ps_status (set_status s p) = s"
  by (simp add: set_status_def)

lemma set_status_idem [simp]: "set_status s (set_status s p) = set_status s p"
  by (simp add: set_status_def)

section \<open>The channel\<close>

text \<open>
  \<open>cs_buf\<close> is the buffer of the channel (capacity one), \<open>cs_blocked\<close> the status a blocked
  \<open>SetStatus\<close> is waiting to send, \<open>cs_recv\<close> what the consumer has taken.
\<close>

record chan_state =
  cs_pkg :: pkg_state
  cs_buf :: "node_status list"
  cs_blocked :: "node_status option"
  cs_recv :: "node_status list"

datatype status_event = SetStatus node_status | Receive

definition init_chan :: chan_state where
  "init_chan = \<lparr>cs_pkg = init_pkg, cs_buf = [], cs_blocked = None, cs_recv = []\<rparr>"

text \<open>One event; \<open>None\<close> when it cannot happen now (the lock is held, the buffer is empty).\<close>

fun chan_step :: "chan_state \<Rightarrow> status_event \<Rightarrow> chan_state option" where
  "chan_step c (SetStatus s) =
     (if cs_blocked c \<noteq> None then None
      else if ps_status (cs_pkg c) = s then Some c
      else if length (cs_buf c) < 1
        then Some (c\<lparr>cs_pkg := set_status s (cs_pkg c), cs_buf := cs_buf c @ [s]\<rparr>)
        else Some (c\<lparr>cs_pkg := set_status s (cs_pkg c), cs_blocked := Some s\<rparr>))"
| "chan_step c Receive =
     (case cs_buf c of
       [] \<Rightarrow> None
     | x # xs \<Rightarrow> Some (c\<lparr>cs_buf := xs @ (case cs_blocked c of None \<Rightarrow> [] | Some s \<Rightarrow> [s]),
                         cs_blocked := None, cs_recv := cs_recv c @ [x]\<rparr>))"

fun chan_run :: "chan_state \<Rightarrow> status_event list \<Rightarrow> chan_state option" where
  "chan_run c [] = Some c"
| "chan_run c (e # es) = (case chan_step c e of None \<Rightarrow> None | Some c' \<Rightarrow> chan_run c' es)"

text \<open>The specification: the sequence of distinct changes the calls make.\<close>

fun changes :: "node_status \<Rightarrow> status_event list \<Rightarrow> node_status list" where
  "changes cur [] = []"
| "changes cur (SetStatus s # es) = (if s = cur then changes cur es else s # changes s es)"
| "changes cur (Receive # es) = changes cur es"

definition in_flight :: "chan_state \<Rightarrow> node_status list" where
  "in_flight c = cs_buf c @ (case cs_blocked c of None \<Rightarrow> [] | Some s \<Rightarrow> [s])"

definition chan_inv :: "chan_state \<Rightarrow> bool" where
  "chan_inv c \<longleftrightarrow>
     ps_sent (cs_pkg c) = cs_recv c @ in_flight c \<and> length (cs_buf c) \<le> 1 \<and>
     (cs_blocked c \<noteq> None \<longrightarrow> length (cs_buf c) = 1) \<and>
     ps_status (cs_pkg c) = last (Start # ps_sent (cs_pkg c))"

lemma chan_inv_init: "chan_inv init_chan"
  by (simp add: chan_inv_def init_chan_def init_pkg_def in_flight_def)

lemma chan_step_inv: "chan_step c e = Some c' \<Longrightarrow> chan_inv c \<Longrightarrow> chan_inv c'"
  by (cases e) (auto simp: chan_inv_def in_flight_def set_status_def le_Suc_eq
      split: if_splits list.splits option.splits)

lemma chan_run_inv: "chan_run c es = Some c' \<Longrightarrow> chan_inv c \<Longrightarrow> chan_inv c'"
  by (induction es arbitrary: c) (auto split: option.splits intro: chan_step_inv)

lemma chan_run_sent:
  "chan_run c es = Some c' \<Longrightarrow>
   ps_sent (cs_pkg c') = ps_sent (cs_pkg c) @ changes (ps_status (cs_pkg c)) es"
proof (induction es arbitrary: c)
  case Nil
  then show ?case by simp
next
  case (Cons e es)
  then obtain d where d: "chan_step c e = Some d" and r: "chan_run d es = Some c'"
    by (auto split: option.splits)
  from Cons.IH [OF r] d show ?case
    by (cases e) (auto simp: set_status_def split: if_splits list.splits)
qed

section \<open>Properties\<close>

text \<open>C39: The status channel loses nothing and reorders nothing.  After any sequence of calls and
  receptions from the start of the process, what the consumer has received followed by what is in
  the channel and in a blocked call is exactly the sequence of status changes, the node's status is
  the last of them, at most one change is buffered, and a call blocks only on a full buffer.\<close>

theorem status_channel_fifo:
  assumes "chan_run init_chan es = Some c"
  shows "cs_recv c @ in_flight c = changes Start es \<and>
    get_status (cs_pkg c) = last (Start # changes Start es) \<and>
    length (cs_buf c) \<le> 1 \<and> (cs_blocked c \<noteq> None \<longrightarrow> length (cs_buf c) = 1)"
  using chan_run_inv [OF assms chan_inv_init] chan_run_sent [OF assms]
  by (auto simp: chan_inv_def init_chan_def init_pkg_def get_status_def)

theorem status_channel_fifo_witness:
  "\<exists>c. chan_run init_chan [SetStatus Init, SetStatus Init, SetStatus Healthy, Receive] = Some c \<and>
     cs_recv c @ in_flight c = [Init, Healthy] \<and> get_status (cs_pkg c) = Healthy"
proof -
  let ?es = "[SetStatus Init, SetStatus Init, SetStatus Healthy, Receive]"
  obtain c where c: "chan_run init_chan ?es = Some c"
    by (simp add: init_chan_def init_pkg_def set_status_def)
  from status_channel_fifo [OF c] c show ?thesis by auto
qed

text \<open>A change of status needs its consumer.  With nobody receiving, the first change of status is
  buffered, the second one blocks its caller, and from then on no call on the status proceeds,
  until one is received.\<close>

theorem status_blocks_without_consumer:
  assumes "chan_run init_chan (map SetStatus ss) = Some c" "length (changes Start (map SetStatus ss)) = 2"
  shows "cs_blocked c = Some (last (changes Start (map SetStatus ss))) \<and>
    (\<forall>s. chan_step c (SetStatus s) = None) \<and> chan_step c Receive \<noteq> None"
proof -
  have norecv: "cs_recv d = cs_recv d0" if "chan_run d0 (map SetStatus ss) = Some d" for d d0
    using that by (induction ss arbitrary: d0) (auto split: option.splits if_splits)
  note i = chan_run_inv [OF assms(1) chan_inv_init] chan_run_sent [OF assms(1)]
  have "cs_recv c = []" using norecv [OF assms(1)] by (simp add: init_chan_def)
  with i have sent: "in_flight c = changes Start (map SetStatus ss)" "length (cs_buf c) \<le> 1"
    by (simp_all add: chan_inv_def init_chan_def init_pkg_def)
  with assms(2) have "\<exists>x y. cs_buf c = [x] \<and> cs_blocked c = Some y \<and> changes Start (map SetStatus ss) = [x, y]"
    unfolding sent(1) [symmetric] by (cases "cs_buf c"; cases "cs_blocked c") (auto simp: in_flight_def)
  then show ?thesis by auto
qed

theorem status_blocks_without_consumer_witness:
  "\<exists>c. chan_run init_chan (map SetStatus [Init, Healthy]) = Some c \<and> cs_blocked c = Some Healthy"
proof -
  obtain c where c: "chan_run init_chan (map SetStatus [Init, Healthy]) = Some c"
    by (simp add: init_chan_def init_pkg_def set_status_def)
  with status_blocks_without_consumer [OF c] show ?thesis by auto
qed

end
