(* ===== verification/Etcd_Store.thy ===== *)
theory Etcd_Store
  imports Shards Node_Status "HOL-Library.List_Lexorder" "HOL-Library.Char_ord"
begin

text \<open>
  The key-value store the nodes share.  etcd and its client are code outside the repository:
  the components call them through the record \<open>etcd_ops\<close>, and read and write values through
  \<open>codec\<close> (JSON and YAML).  The locale \<open>kv_store\<close> is the contract of the calls; it is
  interpreted on the server of \<open>mocks/etcd_svr.go\<close>, the store the repository's tests run on.
\<close>

section \<open>What is stored\<close>

text \<open>\<open>NodeMeta\<close> and \<open>NodeLoad\<close> of \<open>internal/cluster/node.go\<close>; a load is the exact value of its float.\<close>

record node_meta =
  nm_node_id :: string
  nm_addr :: string
  nm_status :: node_status

record node_load =
  nl_cpu :: rat
  nl_mem_free :: int

text \<open>The codecs of the four kinds of value; decoding fails on bytes that are not of the kind.\<close>

record 'v codec =
  enc_meta :: "node_meta \<Rightarrow> 'v"
  dec_meta :: "'v \<Rightarrow> node_meta option"
  enc_load :: "node_load \<Rightarrow> 'v"
  dec_load :: "'v \<Rightarrow> node_load option"
  enc_revision :: "int \<Rightarrow> 'v"
  dec_revision :: "'v \<Rightarrow> int option"
  dec_manifest :: "'v \<Rightarrow> index_manifest option"

text \<open>The documented behaviour of the codecs the code relies on: decoding inverts encoding.\<close>

definition codec_ok :: "'v codec \<Rightarrow> bool" where
  "codec_ok c \<longleftrightarrow> (\<forall>m. dec_meta c (enc_meta c m) = Some m) \<and>
     (\<forall>l. dec_load c (enc_load c l) = Some l) \<and> (\<forall>r. dec_revision c (enc_revision c r) = Some r)"

lemma codec_okD:
  assumes "codec_ok c"
  shows "dec_meta c (enc_meta c m) = Some m" "dec_load c (enc_load c l) = Some l"
    "dec_revision c (enc_revision c r) = Some r"
  using assms by (auto simp: codec_ok_def)

text \<open>
  \<open>utils.Unmarshal\<close>: YAML first, then JSON, into the same variable; the decoders take the variable and
  return what they left in it.  JSON starts from whatever a failed YAML decoding wrote.
\<close>

definition unmarshal ::
    "('v \<Rightarrow> 'd \<Rightarrow> 'd \<times> error option) \<Rightarrow> ('v \<Rightarrow> 'd \<Rightarrow> 'd \<times> error option) \<Rightarrow> 'v \<Rightarrow> 'd \<Rightarrow> 'd \<times> error option" where
  "unmarshal yaml json raw dest =
     (case yaml raw dest of
        (dest1, None) \<Rightarrow> (dest1, None)
      | (dest1, Some e) \<Rightarrow>
          (case json raw dest1 of
             (dest2, None) \<Rightarrow> (dest2, None)
           | (dest2, Some e') \<Rightarrow> (dest2, Some (ErrText ''cannot unmarshal either json and yaml''))))"

section \<open>The client\<close>

record ('e, 'v) etcd_ops =
  et_get :: "string \<Rightarrow> 'e \<Rightarrow> error + (string \<times> 'v) list"
  et_get_prefix :: "string \<Rightarrow> 'e \<Rightarrow> error + (string \<times> 'v) list"
  et_put :: "string \<Rightarrow> 'v \<Rightarrow> int option \<Rightarrow> 'e \<Rightarrow> 'e \<times> error option"
  et_delete :: "string \<Rightarrow> 'e \<Rightarrow> 'e \<times> error option"

text \<open>A change a watcher is told of: \<open>ev_create\<close> is the client's \<open>IsCreate\<close>.\<close>

datatype event_type = PutEvent | DeleteEvent

record 'v event =
  ev_type :: event_type
  ev_create :: bool
  ev_key :: string
  ev_value :: 'v

definition ev_is_create :: "'v event \<Rightarrow> bool" where
  "ev_is_create e \<longleftrightarrow> ev_type e = PutEvent \<and> ev_create e"

definition ev_is_modify :: "'v event \<Rightarrow> bool" where
  "ev_is_modify e \<longleftrightarrow> ev_type e = PutEvent \<and> \<not> ev_create e"

text \<open>Prefixes whose last byte can be incremented: all the paths of this program.\<close>

definition plain_prefix :: "string \<Rightarrow> bool" where
  "plain_prefix p \<longleftrightarrow> p \<noteq> [] \<and> of_char (last p) < (255 :: nat)"

text \<open>
  The contract.  \<open>contents\<close> is the map the store holds; a call that reports no error has done
  what it says, and one that reports an error has changed nothing.
\<close>

locale kv_store =
  fixes et :: "('e, 'v) etcd_ops"
    and contents :: "'e \<Rightarrow> string \<Rightarrow> 'v option"
    and inv :: "'e \<Rightarrow> bool"
  assumes put_inv: "inv st \<Longrightarrow> inv (fst (et_put et k v l st))"
    and delete_inv: "inv st \<Longrightarrow> inv (fst (et_delete et k st))"
    and get_prefix_ok:
      "inv st \<Longrightarrow> et_get_prefix et p st = Inr kvs \<Longrightarrow> plain_prefix p \<Longrightarrow>
       distinct (map fst kvs) \<and> map_of kvs = (\<lambda>k. if prefix p k then contents st k else None)"
    and get_ok: "et_get et k st = Inr kvs \<Longrightarrow> map_of kvs k = contents st k"
    and put_ok: "et_put et k v l st = (st', None) \<Longrightarrow> contents st' = (contents st)(k \<mapsto> v)"
    and put_err: "et_put et k v l st = (st', Some e) \<Longrightarrow> contents st' = contents st"
    and delete_ok: "et_delete et k st = (st', None) \<Longrightarrow> contents st' = (contents st)(k := None)"
    and delete_err: "et_delete et k st = (st', Some e) \<Longrightarrow> contents st' = contents st"
begin

lemma put_other: "et_put et k v l st = (st', oe) \<Longrightarrow> k' \<noteq> k \<Longrightarrow> contents st' k' = contents st k'"
  using put_ok [of k v l st st'] put_err [of k v l st st'] by (cases oe) auto

lemma delete_other: "et_delete et k st = (st', oe) \<Longrightarrow> k' \<noteq> k \<Longrightarrow> contents st' k' = contents st k'"
  using delete_ok [of k st st'] delete_err [of k st st'] by (cases oe) auto

lemma put_get_prefix:
  assumes "inv st" "et_put et k v l st = (st', None)" "et_get_prefix et p st' = Inr kvs" "prefix p k" "plain_prefix p"
  shows "map_of kvs k = Some v"
  using get_prefix_ok [OF _ assms(3,5)] put_inv [OF assms(1), of k v l] put_ok [OF assms(2)] assms(2,4) by simp

end

section \<open>The server of the tests\<close>

text \<open>
  \<open>mockKVServer\<close>: the data, the revision counters and the events sent on \<open>updateEventChan\<close>.
  A range is the keys from \<open>key\<close> (inclusive) to \<open>range_end\<close> (exclusive), compared as strings;
  an empty \<open>range_end\<close> asks for the single key.
\<close>

record mock_kv =
  mk_data :: "(string, string) smap"
  mk_revision :: "(string, int) smap"
  mk_events :: "(event_type \<times> string \<times> string) list"

definition new_mock_kv :: mock_kv where
  "new_mock_kv = \<lparr>mk_data = [], mk_revision = [], mk_events = []\<rparr>"

definition mock_range :: "string \<Rightarrow> string \<Rightarrow> mock_kv \<Rightarrow> error + (string \<times> string) list" where
  "mock_range key range_end m =
     (if key = '''' then Inl (ErrText ''etcdserver: key is not provided'')
      else if range_end \<noteq> '''' then Inr (filter (\<lambda>(k, v). key \<le> k \<and> k < range_end) (mk_data m))
      else (case sm_load (mk_data m) key of
        None \<Rightarrow> Inl (ErrText ''etcdserver: key not found'')
      | Some v \<Rightarrow> Inr [(key, v)]))"

definition mock_put :: "string \<Rightarrow> string \<Rightarrow> mock_kv \<Rightarrow> mock_kv" where
  "mock_put key v m =
     m\<lparr>mk_revision := (case sm_load (mk_revision m) key of
          Some n \<Rightarrow> sm_store key (n + 1) (mk_revision m) | None \<Rightarrow> mk_revision m),
       mk_data := sm_store key v (mk_data m),
       mk_events := mk_events m @ [(PutEvent, key, v)]\<rparr>"

text \<open>A range deletion collects the pairs but deletes nothing, and it tests the key of the request.\<close>

definition mock_delete_range :: "string \<Rightarrow> string \<Rightarrow> mock_kv \<Rightarrow> mock_kv \<times> (error + (string \<times> string) list)" where
  "mock_delete_range key range_end m =
     (if key = '''' then (m, Inl (ErrText ''etcdserver: key is not provided''))
      else if range_end \<noteq> '''' then
        (m, Inr (map (\<lambda>(k, v). (key, v)) (filter (\<lambda>(k, v). key \<le> k \<and> key < range_end) (mk_data m))))
      else (case sm_load (mk_data m) key of
        None \<Rightarrow> (m, Inl (ErrText ''etcdserver: key not found''))
      | Some v \<Rightarrow>
          (m\<lparr>mk_data := sm_delete key (mk_data m), mk_revision := sm_delete key (mk_revision m),
             mk_events := mk_events m @ [(DeleteEvent, key, v)]\<rparr>, Inr [(key, v)])))"

text \<open>
  The client on top of it; \<open>range_end\<close> is the client library's end of the range of a prefix.
  The mock server has no leases on keys: \<open>Put\<close> ignores them.
\<close>

definition mock_etcd :: "(string \<Rightarrow> string) \<Rightarrow> (mock_kv, string) etcd_ops" where
  "mock_etcd range_end =
     \<lparr>et_get = (\<lambda>k m. mock_range k '''' m),
      et_get_prefix = (\<lambda>p m. mock_range p (range_end p) m),
      et_put = (\<lambda>k v l m. (mock_put k v m, None)),
      et_delete = (\<lambda>k m. case mock_delete_range k '''' m of
         (m', Inl e) \<Rightarrow> (m', Some e) | (m', Inr kvs) \<Rightarrow> (m', None))\<rparr>"

text \<open>The events of the mock server as the client sees them: both revisions are zero, so every put
  looks like a creation, and a deletion carries the value deleted.\<close>

definition mock_event :: "event_type \<times> string \<times> string \<Rightarrow> string event" where
  "mock_event e = \<lparr>ev_type = fst e, ev_create = True, ev_key = fst (snd e), ev_value = snd (snd e)\<rparr>"

text \<open>The end of a prefix's range: the prefix with its last byte incremented, as the client documents it.\<close>

definition prefix_end :: "string \<Rightarrow> string" where
  "prefix_end p = butlast p @ [char_of (of_char (last p) + 1 :: nat)]"

lemma less_char_iff: "(c :: char) < d \<longleftrightarrow> (of_char c :: nat) < of_char d"
  by (simp add: less_char_def)

lemma prefix_range:
  assumes "plain_prefix p"
  shows "(p \<le> k \<and> k < prefix_end p) \<longleftrightarrow> prefix p k"
  using assms unfolding plain_prefix_def
proof (induction p arbitrary: k)
  case Nil
  then show ?case by simp
next
  case (Cons c p)
  show ?case
  proof (cases "p = []")
    case True
    let ?n = "of_char c :: nat"
    have e: "of_char (char_of (Suc ?n) :: char) = Suc ?n"
      using Cons.prems True by (simp add: of_char_of)
    show ?thesis
      using True e by (cases k) (auto simp: prefix_end_def less_char_iff less_Suc_eq)
  next
    case False
    have pe: "prefix_end (c # p) = c # prefix_end p"
      using False by (simp add: prefix_end_def)
    have IH: "(p \<le> ks \<and> ks < prefix_end p) \<longleftrightarrow> prefix p ks" for ks
      using Cons.IH Cons.prems False by simp
    show ?thesis
    proof (cases k)
      case Nil
      then show ?thesis by simp
    next
      case (Cons a ks)
      have "(c # p \<le> a # ks \<and> a # ks < c # prefix_end p) \<longleftrightarrow> c = a \<and> (p \<le> ks \<and> ks < prefix_end p)"
        unfolding Cons_le_Cons Cons_less_Cons by (blast dest: less_asym)
      with IH show ?thesis by (simp add: Cons pe)
    qed
  qed
qed

lemma map_of_filter_key:
  "map_of (filter (\<lambda>(k, v). P k) m) k = (if P k then map_of m k else None)"
  by (induction m) auto

lemma distinct_filter_keys: "distinct (map fst m) \<Longrightarrow> distinct (map fst (filter P m))"
  by (induction m) auto

interpretation mock_store: kv_store "mock_etcd prefix_end" "\<lambda>m. sm_load (mk_data m)" "\<lambda>m. sm_wf (mk_data m)"
proof unfold_locales
  fix st :: mock_kv and p kvs
  assume wf: "sm_wf (mk_data st)" and g: "et_get_prefix (mock_etcd prefix_end) p st = Inr kvs"
    and p: "plain_prefix p"
  have "prefix_end p \<noteq> []" "p \<noteq> []" using p by (auto simp: prefix_end_def plain_prefix_def)
  with g have kvs: "kvs = filter (\<lambda>(k, v). prefix p k) (mk_data st)"
    using prefix_range [OF p] by (simp add: mock_etcd_def mock_range_def)
  show "distinct (map fst kvs) \<and> map_of kvs = (\<lambda>k. if prefix p k then sm_load (mk_data st) k else None)"
    using wf by (auto simp: kvs sm_wf_def distinct_filter_keys map_of_filter_key sm_load_def)
qed (auto simp: mock_etcd_def mock_range_def mock_put_def mock_delete_range_def fun_eq_iff
    split: if_splits option.splits)

section \<open>Properties\<close>

text \<open>The store of the tests keeps the contract of etcd: asked for the keys below a path, it answers exactly the
  pairs it holds whose key has that path as a prefix, each once, whatever puts and deletions came before.\<close>

theorem mock_prefix_get_exact:
  assumes "sm_wf (mk_data m)" "plain_prefix p"
  shows "\<exists>kvs. et_get_prefix (mock_etcd prefix_end) p m = Inr kvs \<and> distinct (map fst kvs) \<and>
    map_of kvs = (\<lambda>k. if prefix p k then sm_load (mk_data m) k else None) \<and>
    sm_wf (mk_data (fst (et_put (mock_etcd prefix_end) k v l m))) \<and>
    sm_wf (mk_data (fst (et_delete (mock_etcd prefix_end) k m)))"
proof -
  obtain kvs where g: "et_get_prefix (mock_etcd prefix_end) p m = Inr kvs"
    using assms(2) by (auto simp: mock_etcd_def mock_range_def prefix_end_def plain_prefix_def)
  from mock_store.get_prefix_ok [OF assms(1) g assms(2)] g mock_store.put_inv [OF assms(1)]
    mock_store.delete_inv [OF assms(1)]
  show ?thesis by blast
qed

theorem mock_prefix_get_exact_witness:
  "\<exists>kvs. et_get_prefix (mock_etcd prefix_end) ''/a'' (mock_put ''/b/1'' ''y'' (mock_put ''/a/1'' ''x'' new_mock_kv)) = Inr kvs \<and>
     map_of kvs ''/a/1'' = Some ''x'' \<and> map_of kvs ''/b/1'' = None"
proof -
  let ?m = "mock_put ''/b/1'' ''y'' (mock_put ''/a/1'' ''x'' new_mock_kv)"
  have "sm_wf (mk_data ?m)" "plain_prefix ''/a''"
    by (simp_all add: mock_put_def new_mock_kv_def plain_prefix_def)
  from mock_prefix_get_exact [OF this] obtain kvs where
    "et_get_prefix (mock_etcd prefix_end) ''/a'' ?m = Inr kvs"
    "map_of kvs = (\<lambda>k. if prefix ''/a'' k then sm_load (mk_data ?m) k else None)" by blast
  moreover have "sm_load (mk_data ?m) ''/a/1'' = Some ''x''" by (simp add: mock_put_def new_mock_kv_def)
  ultimately show ?thesis by auto
qed

end
