(* ===== verification/Cluster.thy ===== *)
theory Cluster
  imports Etcd_Store
begin

text \<open>
  \<open>internal/cluster/node.go\<close> and the load-balancing mode of \<open>internal/config/cluster_meta.go\<close>:
  which nodes there are, which node owns a key, and how a key is routed.  The consistent
  hash ring (\<open>github.com/serialx/hashring\<close>) is code outside the repository: it is the record
  \<open>ring_ops\<close>, with what the code relies on in \<open>ring_ok\<close>.
\<close>

section \<open>The hash ring\<close>

record 'r ring_ops =
  rg_new :: "string list \<Rightarrow> 'r"
  rg_add :: "'r \<Rightarrow> string \<Rightarrow> 'r"
  rg_remove :: "'r \<Rightarrow> string \<Rightarrow> 'r"
  rg_get :: "'r \<Rightarrow> string \<Rightarrow> string option"

text \<open>
  The documented behaviour: a ring has a set of nodes, adding and removing a node change this
  set, and a key is given to one of the nodes as long as there is one.
\<close>

definition ring_ok :: "'r ring_ops \<Rightarrow> ('r \<Rightarrow> string set) \<Rightarrow> bool" where
  "ring_ok rg nodes \<longleftrightarrow>
     (\<forall>ns. nodes (rg_new rg ns) = set ns) \<and>
     (\<forall>r n. nodes (rg_add rg r n) = insert n (nodes r)) \<and>
     (\<forall>r n. nodes (rg_remove rg r n) = nodes r - {n}) \<and>
     (\<forall>r k n. rg_get rg r k = Some n \<longrightarrow> n \<in> nodes r) \<and>
     (\<forall>r k. rg_get rg r k = None \<longrightarrow> nodes r = {})"

lemma ring_okD:
  assumes "ring_ok rg nodes"
  shows "nodes (rg_new rg ns) = set ns" "nodes (rg_add rg r n) = insert n (nodes r)"
    "nodes (rg_remove rg r n) = nodes r - {n}"
    "rg_get rg r k = Some n \<Longrightarrow> n \<in> nodes r" "rg_get rg r k = None \<Longrightarrow> nodes r = {}"
  using assms by (auto simp: ring_ok_def)

section \<open>Weights\<close>

text \<open>
  Floating-point arithmetic: the rounding of \<open>float64\<close> and of \<open>float32\<close> results, and the
  implementation-defined value of converting a float outside its range to \<open>uint32\<close>.
\<close>

record float_ops =
  fl_round64 :: "rat \<Rightarrow> rat"
  fl_round32 :: "rat \<Rightarrow> rat"
  fl_outside :: "rat \<Rightarrow> nat"

definition to_uint32 :: "float_ops \<Rightarrow> rat \<Rightarrow> nat" where
  "to_uint32 fl x = (if - 1 < x \<and> x < 2 ^ 32 then nat (floor x) else fl_outside fl x)"

record routing =
  rt_node :: "node_meta option"
  rt_load :: "node_load option"

definition initial_weight :: nat where
  "initial_weight = 1000"

definition weight :: "float_ops \<Rightarrow> routing \<Rightarrow> nat" where
  "weight fl r =
     (case rt_node r of
       None \<Rightarrow> 0
     | Some node \<Rightarrow>
         if nm_addr node = '''' then 0
         else
           (let w = (case rt_load r of
                  Some l \<Rightarrow>
                    if nl_cpu l \<noteq> 0
                    then to_uint32 fl (fl_round64 fl (fl_round64 fl (1 - nl_cpu l) * of_nat initial_weight))
                    else initial_weight
                | None \<Rightarrow> initial_weight)
            in case nm_status node of
                 Healthy \<Rightarrow> w
               | Rebalancing \<Rightarrow> to_uint32 fl (fl_round32 fl (fl_round32 fl (of_nat w) * fl_round32 fl (1 / 10)))
               | Unhealthy \<Rightarrow> to_uint32 fl (fl_round32 fl (fl_round32 fl (of_nat w) * fl_round32 fl (1 / 10)))
               | _ \<Rightarrow> 0))"

section \<open>The manager of the cluster\<close>

record 'r etcd_manager =
  em_node_id :: string
  em_lease :: "int option"
  em_attached_load :: bool
  em_ring :: "'r option"
  em_node_metas :: "(string, node_meta) smap"
  em_hook :: bool

definition init_etcd_manager :: "string \<Rightarrow> 'r etcd_manager" where
  "init_etcd_manager node_id =
     \<lparr>em_node_id = node_id, em_lease = None, em_attached_load = False, em_ring = None,
      em_node_metas = [], em_hook = False\<rparr>"

definition set_rebalance_hook :: "'r etcd_manager \<Rightarrow> 'r etcd_manager" where
  "set_rebalance_hook em = em\<lparr>em_hook := True\<rparr>"

subsection \<open>Registration and status\<close>

text \<open>
  \<open>Register\<close>: \<open>grant\<close> and \<open>keep_alive\<close> are the answers of the lease service, \<open>addr\<close> the address
  of the listener.  A failed grant leaves a nil lease.
\<close>

definition register ::
    "'v codec \<Rightarrow> ('e, 'v) etcd_ops \<Rightarrow> string \<Rightarrow> string \<Rightarrow> error + int \<Rightarrow> error option \<Rightarrow>
     'r etcd_manager \<Rightarrow> 'e \<Rightarrow> 'r etcd_manager \<times> 'e \<times> error option" where
  "register cd et rt addr grant keep_alive em st =
     (let meta = \<lparr>nm_node_id = em_node_id em, nm_addr = addr, nm_status = Start\<rparr> in
      case grant of
        Inl e \<Rightarrow> (em\<lparr>em_lease := None\<rparr>, st, Some e)
      | Inr lease \<Rightarrow>
          (let em1 = em\<lparr>em_lease := Some lease\<rparr> in
           case keep_alive of
             Some e \<Rightarrow> (em1, st, Some e)
           | None \<Rightarrow>
               (let (st1, err) = et_put et (node_meta_path rt (em_node_id em)) (enc_meta cd meta) (Some lease) st
                in (em1, st1, err))))"

definition unregister :: "('e, 'v) etcd_ops \<Rightarrow> string \<Rightarrow> 'r etcd_manager \<Rightarrow> 'e \<Rightarrow> 'e" where
  "unregister et rt em st = fst (et_delete et (node_meta_path rt (em_node_id em)) st)"

definition get_node_meta :: "'r etcd_manager \<Rightarrow> string \<Rightarrow> error + node_meta" where
  "get_node_meta em node =
     (case sm_load (em_node_metas em) node of
       None \<Rightarrow> Inl (Cfg ErrNodeNotAvailable)
     | Some m \<Rightarrow> Inr m)"

text \<open>
  \<open>setNodeStatus\<close> writes the status into the entry of the map, which is shared by pointer, and then
  puts it under the lease of the node; a node without a lease is a nil dereference.
\<close>

definition set_node_status ::
    "'v codec \<Rightarrow> ('e, 'v) etcd_ops \<Rightarrow> string \<Rightarrow> node_status \<Rightarrow> 'r etcd_manager \<Rightarrow> 'e \<Rightarrow>
     ('r etcd_manager \<times> 'e) run" where
  "set_node_status cd et rt status em st =
     (case get_node_meta em (em_node_id em) of
       Inl e \<Rightarrow> Ret (em, st)
     | Inr m \<Rightarrow>
         (let m1 = m\<lparr>nm_status := status\<rparr>;
              em1 = em\<lparr>em_node_metas := sm_store (em_node_id em) m1 (em_node_metas em)\<rparr>
          in case em_lease em of
               None \<Rightarrow> Panic NilDereference
             | Some lease \<Rightarrow>
                 Ret (em1, fst (et_put et (node_meta_path rt (em_node_id em)) (enc_meta cd m1) (Some lease) st))))"

subsection \<open>Load reports\<close>

definition lb_standard :: "string \<Rightarrow> string" where
  "lb_standard l = to_lower l"

text \<open>\<open>ReportLoad\<close>: whether the reporting loop is started, and one turn of the loop on the two readings.\<close>

definition report_load :: "string \<Rightarrow> 'r etcd_manager \<Rightarrow> 'r etcd_manager \<times> bool" where
  "report_load policy em =
     (if em_attached_load em then (em, False)
      else if lb_standard policy = ''cpu'' then (em\<lparr>em_attached_load := True\<rparr>, True)
      else (em, False))"

definition report_load_turn ::
    "'v codec \<Rightarrow> ('e, 'v) etcd_ops \<Rightarrow> string \<Rightarrow> error + rat list \<Rightarrow> error + int \<Rightarrow> 'r etcd_manager \<Rightarrow> 'e \<Rightarrow> 'e run" where
  "report_load_turn cd et rt cpu mem em st =
     (case cpu of
       Inl e \<Rightarrow> Ret st
     | Inr [] \<Rightarrow> Ret st
     | Inr (c # cs) \<Rightarrow>
         (case mem of
           Inl e \<Rightarrow> Ret st
         | Inr free \<Rightarrow>
             (case em_lease em of
               None \<Rightarrow> Panic NilDereference
             | Some lease \<Rightarrow>
                 Ret (fst (et_put et (node_load_path rt (em_node_id em))
                   (enc_load cd \<lparr>nl_cpu = c, nl_mem_free = free\<rparr>) (Some lease) st)))))"

subsection \<open>Membership\<close>

text \<open>The loop of \<open>SyncCluster\<close> over the registered nodes: an undecodable value stops it with the nodes stored so far.\<close>

fun sync_nodes ::
    "'v codec \<Rightarrow> (string \<times> 'v) list \<Rightarrow> (string, node_meta) smap \<Rightarrow> string list \<Rightarrow>
     (string, node_meta) smap \<times> string list option" where
  "sync_nodes cd [] metas nodes = (metas, Some nodes)"
| "sync_nodes cd ((k, v) # kvs) metas nodes =
     (case dec_meta cd v of
       None \<Rightarrow> (metas, None)
     | Some m \<Rightarrow>
         (let metas1 = sm_store (nm_node_id m) m metas in
          if nm_status m = Inactive then sync_nodes cd kvs metas1 nodes
          else sync_nodes cd kvs metas1 (nodes @ [nm_node_id m])))"

definition sync_cluster ::
    "'r ring_ops \<Rightarrow> 'v codec \<Rightarrow> ('e, 'v) etcd_ops \<Rightarrow> string \<Rightarrow> 'r etcd_manager \<Rightarrow> 'e \<Rightarrow>
     'r etcd_manager \<times> error option" where
  "sync_cluster rg cd et rt em st =
     (case et_get_prefix et (node_meta_path_prefix rt) st of
       Inl e \<Rightarrow> (em, Some e)
     | Inr kvs \<Rightarrow>
         (case sync_nodes cd kvs (em_node_metas em) [] of
           (metas, None) \<Rightarrow> (em\<lparr>em_node_metas := metas\<rparr>, Some (ErrText ''invalid node meta''))
         | (metas, Some nodes) \<Rightarrow>
             (em\<lparr>em_node_metas := metas, em_ring := Some (rg_new rg nodes)\<rparr>, None)))"

text \<open>
  One event of the watch.  A value that cannot be decoded is logged and then used as the zero
  \<open>NodeMeta\<close>.  The answer tells whether the rebalance hook is called; the three tests of the event
  are independent \<open>if\<close>s in the code, and at most one of them holds.
\<close>

definition zero_node_meta :: node_meta where
  "zero_node_meta = \<lparr>nm_node_id = '''', nm_addr = '''', nm_status = OtherStatus ''''\<rparr>"

definition event_meta :: "'v codec \<Rightarrow> 'v event \<Rightarrow> node_meta" where
  "event_meta cd ev = (case dec_meta cd (ev_value ev) of Some m \<Rightarrow> m | None \<Rightarrow> zero_node_meta)"

definition on_ring :: "('r \<Rightarrow> 'r) \<Rightarrow> 'r etcd_manager \<Rightarrow> 'r etcd_manager run" where
  "on_ring f em =
     (case em_ring em of None \<Rightarrow> Panic NilDereference | Some r \<Rightarrow> Ret (em\<lparr>em_ring := Some (f r)\<rparr>))"

definition handle_node_event ::
    "'r ring_ops \<Rightarrow> 'v codec \<Rightarrow> 'v event \<Rightarrow> 'r etcd_manager \<Rightarrow> ('r etcd_manager \<times> bool) run" where
  "handle_node_event rg cd ev em =
     (let m = event_meta cd ev; n = nm_node_id m in
      if ev_is_create ev then
        run_map (\<lambda>em1. (em1\<lparr>em_node_metas := sm_store n m (em_node_metas em1)\<rparr>, em_hook em1))
          (on_ring (\<lambda>r. rg_add rg r n) em)
      else if ev_type ev = DeleteEvent then
        run_map (\<lambda>em1. (em1, em_hook em1))
          (on_ring (\<lambda>r. rg_remove rg r n) (em\<lparr>em_node_metas := sm_delete n (em_node_metas em)\<rparr>))
      else
        (let em1 = em\<lparr>em_node_metas := sm_store n m (em_node_metas em)\<rparr> in
         if nm_status m = Inactive
         then run_map (\<lambda>em2. (em2, em_hook em2)) (on_ring (\<lambda>r. rg_remove rg r n) em1)
         else Ret (em1, False)))"

subsection \<open>Ownership and routing\<close>

definition need_load :: "'r ring_ops \<Rightarrow> 'r etcd_manager \<Rightarrow> string \<Rightarrow> bool run" where
  "need_load rg em key =
     (case em_ring em of
       None \<Rightarrow> Panic NilDereference
     | Some r \<Rightarrow> Ret (rg_get rg r key = Some (em_node_id em)))"

definition get_owner_node :: "'r ring_ops \<Rightarrow> 'r etcd_manager \<Rightarrow> string \<Rightarrow> string" where
  "get_owner_node rg em key =
     (case em_ring em of
       None \<Rightarrow> ''''
     | Some r \<Rightarrow> (case rg_get rg r key of None \<Rightarrow> '''' | Some n \<Rightarrow> n))"

text \<open>\<open>getNode\<close> answers the node and the error, both: an unavailable node comes with an error.\<close>

definition get_node :: "'r ring_ops \<Rightarrow> 'r etcd_manager \<Rightarrow> string \<Rightarrow> node_meta option \<times> error option" where
  "get_node rg em key =
     (case em_ring em of
       None \<Rightarrow> (None, Some (Cfg ErrClusterNotInitialised))
     | Some r \<Rightarrow>
         (case rg_get rg r key of
           None \<Rightarrow> (None, Some (Cfg ErrNodeNotAvailable))
         | Some n \<Rightarrow>
             (case get_node_meta em n of
               Inl e \<Rightarrow> (None, Some (Cfg ErrNodeNotAvailable))
             | Inr m \<Rightarrow>
                 (case nm_status m of
                   Init \<Rightarrow> (Some m, Some (Cfg ErrNodeNotAvailable))
                 | Start \<Rightarrow> (Some m, Some (Cfg ErrNodeNotAvailable))
                 | Inactive \<Rightarrow> (Some m, Some (Cfg ErrNodeNotAvailable))
                 | Healthy \<Rightarrow> (Some m, None)
                 | Rebalancing \<Rightarrow> (Some m, None)
                 | Unhealthy \<Rightarrow> (Some m, None)
                 | OtherStatus s \<Rightarrow> (None, Some (Cfg ErrUnknownStatus))))))"

text \<open>\<open>getLoad\<close>: a node without a load entry has no load and no error.\<close>

definition get_load ::
    "'v codec \<Rightarrow> ('e, 'v) etcd_ops \<Rightarrow> string \<Rightarrow> string \<Rightarrow> 'e \<Rightarrow> node_load option \<times> error option" where
  "get_load cd et rt node st =
     (case et_get et (node_load_path rt node) st of
       Inl e \<Rightarrow> (None, Some e)
     | Inr [] \<Rightarrow> (None, None)
     | Inr ((k, v) # kvs) \<Rightarrow>
         (case dec_load cd v of
           None \<Rightarrow> (None, Some (ErrText ''invalid load''))
         | Some l \<Rightarrow> (Some l, None)))"

definition route ::
    "'r ring_ops \<Rightarrow> 'v codec \<Rightarrow> ('e, 'v) etcd_ops \<Rightarrow> string \<Rightarrow> 'r etcd_manager \<Rightarrow> 'e \<Rightarrow> string \<Rightarrow>
     routing option \<times> error option" where
  "route rg cd et rt em st key =
     (case get_node rg em key of
       (node, Some e) \<Rightarrow> (None, Some e)
     | (None, None) \<Rightarrow> (None, None)
     | (Some m, None) \<Rightarrow>
         if em_attached_load em then
           (case get_load cd et rt (nm_node_id m) st of
             (l, e) \<Rightarrow> (Some \<lparr>rt_node = Some m, rt_load = l\<rparr>, e))
         else (Some \<lparr>rt_node = Some m, rt_load = None\<rparr>, None))"

section \<open>The view of the shard manager\<close>

text \<open>What \<open>internal/engine/manager.go\<close> asks of the cluster manager, once its ring is there.\<close>

record cluster_view =
  cv_node_id :: string
  cv_lease :: "int option"
  cv_need_load :: "string \<Rightarrow> bool"
  cv_owner_node :: "string \<Rightarrow> string"
  cv_route :: "string \<Rightarrow> routing option \<times> error option"

definition cluster_view_of ::
    "'r ring_ops \<Rightarrow> 'v codec \<Rightarrow> ('e, 'v) etcd_ops \<Rightarrow> string \<Rightarrow> 'r etcd_manager \<Rightarrow> 'e \<Rightarrow> cluster_view" where
  "cluster_view_of rg cd et rt em st =
     \<lparr>cv_node_id = em_node_id em, cv_lease = em_lease em,
      cv_need_load = (\<lambda>k. need_load rg em k = Ret True),
      cv_owner_node = get_owner_node rg em, cv_route = route rg cd et rt em st\<rparr>"

text \<open>The contract: a node needs exactly the keys it owns.\<close>

locale cluster_members =
  fixes node_id :: string and needs :: "string \<Rightarrow> bool" and owner :: "string \<Rightarrow> string"
  assumes needs_owner: "needs k \<Longrightarrow> owner k = node_id"
    and owner_needs: "owner k = node_id \<Longrightarrow> node_id \<noteq> '''' \<Longrightarrow> needs k"
begin

lemma needs_iff: "node_id \<noteq> '''' \<Longrightarrow> needs k \<longleftrightarrow> owner k = node_id"
  using needs_owner owner_needs by blast

lemma owner_in_image:
  assumes "node_id \<noteq> ''''"
  shows "node_id \<in> owner ` ks \<longleftrightarrow> (\<exists>k \<in> ks. needs k)"
  using needs_iff [OF assms] by (auto simp: image_iff)

end

interpretation view_members: cluster_members
  "cv_node_id (cluster_view_of rg cd et rt em st)" "cv_need_load (cluster_view_of rg cd et rt em st)"
  "cv_owner_node (cluster_view_of rg cd et rt em st)"
  for rg cd et rt em st
  by unfold_locales
    (auto simp: cluster_view_of_def need_load_def get_owner_node_def split: option.splits)

section \<open>Events one after another\<close>

text \<open>The answer is the manager and how many times the rebalance hook was called.\<close>

fun handle_node_events ::
    "'r ring_ops \<Rightarrow> 'v codec \<Rightarrow> 'v event list \<Rightarrow> 'r etcd_manager \<Rightarrow> ('r etcd_manager \<times> nat) run" where
  "handle_node_events rg cd [] em = Ret (em, 0)"
| "handle_node_events rg cd (ev # evs) em =
     run_bind (handle_node_event rg cd ev em) (\<lambda>(em1, b).
       run_map (\<lambda>(em2, n). (em2, (if b then 1 else 0) + n)) (handle_node_events rg cd evs em1))"

text \<open>The specification of membership: what an event does to the set of nodes.\<close>

definition member_step :: "'v codec \<Rightarrow> string set \<Rightarrow> 'v event \<Rightarrow> string set" where
  "member_step cd ns ev =
     (let m = event_meta cd ev in
      if ev_is_create ev then insert (nm_node_id m) ns
      else if ev_type ev = DeleteEvent \<or> nm_status m = Inactive then ns - {nm_node_id m}
      else ns)"

lemma handle_node_event_ring:
  assumes "ring_ok rg nodes" "em_ring em = Some r"
  shows "\<exists>em' r' b. handle_node_event rg cd ev em = Ret (em', b) \<and> em_ring em' = Some r' \<and>
    nodes r' = member_step cd (nodes r) ev \<and> em_node_id em' = em_node_id em \<and>
    em_lease em' = em_lease em \<and> em_hook em' = em_hook em"
  using assms(2) ring_okD(2,3) [OF assms(1)]
  by (auto simp: handle_node_event_def on_ring_def member_step_def Let_def)

lemma handle_node_events_ring:
  assumes "ring_ok rg nodes"
  shows "em_ring em = Some r \<Longrightarrow>
    \<exists>em' r' n. handle_node_events rg cd evs em = Ret (em', n) \<and> em_ring em' = Some r' \<and>
      nodes r' = foldl (member_step cd) (nodes r) evs \<and> em_node_id em' = em_node_id em"
proof (induction evs arbitrary: em r)
  case Nil
  then show ?case by simp
next
  case (Cons ev evs)
  from handle_node_event_ring [OF assms Cons.prems, of cd ev] obtain em1 r1 b where
    1: "handle_node_event rg cd ev em = Ret (em1, b)" "em_ring em1 = Some r1"
      "nodes r1 = member_step cd (nodes r) ev" "em_node_id em1 = em_node_id em" by blast
  from Cons.IH [OF 1(2)] obtain em2 r2 n where
    2: "handle_node_events rg cd evs em1 = Ret (em2, n)" "em_ring em2 = Some r2"
      "nodes r2 = foldl (member_step cd) (nodes r1) evs" "em_node_id em2 = em_node_id em1" by blast
  from 1 2 show ?case by simp
qed

lemma sync_nodes_spec:
  "sync_nodes cd kvs metas ns = (metas', Some ns') \<Longrightarrow>
   (\<forall>kv \<in> set kvs. dec_meta cd (snd kv) \<noteq> None) \<and>
   ns' = ns @ map nm_node_id (filter (\<lambda>m. nm_status m \<noteq> Inactive) (map (\<lambda>kv. the (dec_meta cd (snd kv))) kvs)) \<and>
   sm_keys metas' = sm_keys metas \<union> nm_node_id ` (\<lambda>kv. the (dec_meta cd (snd kv))) ` set kvs"
  by (induction cd kvs metas ns rule: sync_nodes.induct)
     (auto simp: Let_def split: option.splits if_splits)

section \<open>Properties\<close>

text \<open>C26: The ring follows the members.  Over any sequence of watch events the handler never faults, and the nodes of the ring
  are those the events say: every created registration is in, every deletion takes out the node its value names, an
  update takes a node out exactly when it makes it inactive, and nothing else changes the ring.\<close>

theorem ring_follows_events:
  assumes "ring_ok rg nodes" "em_ring em = Some r"
  shows "\<exists>em' r' n. handle_node_events rg cd evs em = Ret (em', n) \<and> em_ring em' = Some r' \<and>
    nodes r' = foldl (member_step cd) (nodes r) evs"
  using handle_node_events_ring [OF assms] by blast

text \<open>A departed node stays.  A deletion event of etcd carries no value, so it decodes to the zero meta: the ring keeps
  the node that left, its registration stays in the map, and keys it owns are still routed to it; the hook
  is called although nothing has changed.\<close>

theorem deletion_without_value_keeps_node:
  assumes "ring_ok rg nodes" "em_ring em = Some r" "ev_type ev = DeleteEvent" "dec_meta cd (ev_value ev) = None"
    and "n \<noteq> ''''"
  shows "\<exists>em' r'. handle_node_event rg cd ev em = Ret (em', em_hook em) \<and> em_ring em' = Some r' \<and>
    (n \<in> nodes r' \<longleftrightarrow> n \<in> nodes r) \<and> get_node_meta em' n = get_node_meta em n"
  using assms ring_okD(3) [OF assms(1)]
  by (auto simp: handle_node_event_def on_ring_def event_meta_def zero_node_meta_def ev_is_create_def
      get_node_meta_def)

text \<open>The first synchronisation takes every registered node: the map knows all of them, and the ring has those that are
  not inactive; a value that does not decode makes it fail and leaves the ring as it was.\<close>

theorem sync_cluster_members:
  assumes "ring_ok rg nodes" "et_get_prefix et (node_meta_path_prefix rt) st = Inr kvs"
  shows "case sync_cluster rg cd et rt em st of
      (em', None) \<Rightarrow> (\<exists>r. em_ring em' = Some r \<and>
         nodes r = {nm_node_id m | m. nm_status m \<noteq> Inactive \<and> Some m \<in> dec_meta cd ` snd ` set kvs}) \<and>
         {nm_node_id m | m. Some m \<in> dec_meta cd ` snd ` set kvs} \<subseteq> sm_keys (em_node_metas em')
    | (em', Some e) \<Rightarrow> em_ring em' = em_ring em"
proof -
  obtain metas ns where s: "sync_nodes cd kvs (em_node_metas em) [] = (metas, ns)" by fastforce
  show ?thesis
  proof (cases ns)
    case None
    with s assms(2) show ?thesis by (simp add: sync_cluster_def)
  next
    case (Some nodes')
    note sp = sync_nodes_spec [OF s [unfolded Some]]
    have img: "Some m \<in> dec_meta cd ` snd ` set kvs \<longleftrightarrow>
        m \<in> (\<lambda>kv. the (dec_meta cd (snd kv))) ` set kvs" for m
    proof -
      have "Some m \<in> dec_meta cd ` snd ` set kvs \<longleftrightarrow> (\<exists>kv \<in> set kvs. dec_meta cd (snd kv) = Some m)"
        by (force simp: image_iff)
      also have "\<dots> \<longleftrightarrow> (\<exists>kv \<in> set kvs. m = the (dec_meta cd (snd kv)))"
        using sp by (metis option.collapse option.sel)
      finally show ?thesis by (simp add: image_iff)
    qed
    have "set nodes' = {nm_node_id m | m. nm_status m \<noteq> Inactive \<and> Some m \<in> dec_meta cd ` snd ` set kvs}"
      unfolding img using sp by auto
    moreover have "{nm_node_id m | m. Some m \<in> dec_meta cd ` snd ` set kvs} \<subseteq> sm_keys metas"
      unfolding img using sp by auto
    moreover have "sync_cluster rg cd et rt em st =
        (em\<lparr>em_node_metas := metas, em_ring := Some (rg_new rg nodes')\<rparr>, None)"
      using s Some assms(2) by (simp add: sync_cluster_def)
    ultimately show ?thesis using ring_okD(1) [OF assms(1), of nodes'] by simp
  qed
qed

text \<open>Every key has exactly one owner: among all nodes that share a non-empty ring, exactly one node is told to load the
  key, it is a member, and it is the node \<open>GetOwnerNode\<close> names on all of them.\<close>

theorem one_owner_per_key:
  assumes "ring_ok rg nodes" "nodes r \<noteq> {}" "em_ring em = Some r"
  shows "(\<exists>!n. need_load rg (em\<lparr>em_node_id := n\<rparr>) key = Ret True) \<and>
    (need_load rg em key = Ret True \<longrightarrow>
       em_node_id em \<in> nodes r \<and> get_owner_node rg em key = em_node_id em)"
proof (intro conjI impI)
  obtain n where "rg_get rg r key = Some n"
    using ring_okD(5) [OF assms(1)] assms(2) by (cases "rg_get rg r key") auto
  then show "\<exists>!n. need_load rg (em\<lparr>em_node_id := n\<rparr>) key = Ret True"
    using assms(3) by (intro ex1I [of _ n]) (simp_all add: need_load_def)
  assume "need_load rg em key = Ret True"
  then show "em_node_id em \<in> nodes r" "get_owner_node rg em key = em_node_id em"
    using assms(3) ring_okD(4) [OF assms(1)] by (auto simp: need_load_def get_owner_node_def)
qed

text \<open>A route leads to a serving node of the ring: when \<open>Route\<close> reports no error, its node is the registration of the
  owner of the key, the owner is a member, and its status is healthy, unhealthy or rebalancing; when the
  owner is starting, initialising or inactive, or has no registration, the key cannot be routed.\<close>

theorem route_serving_nodes:
  assumes "ring_ok rg nodes" "em_ring em = Some r" "rg_get rg r key = Some n"
  shows "case route rg cd et rt em st key of
      (Some rt', None) \<Rightarrow> \<exists>m. rt_node rt' = Some m \<and> n \<in> nodes r \<and> sm_load (em_node_metas em) n = Some m \<and>
        nm_status m \<in> {Healthy, Unhealthy, Rebalancing}
    | (x, Some e) \<Rightarrow>
        (x = None \<longleftrightarrow> (\<forall>m. sm_load (em_node_metas em) n = Some m \<longrightarrow> nm_status m \<notin> {Healthy, Unhealthy, Rebalancing}))
    | (None, None) \<Rightarrow> False"
  using assms ring_okD(4) [OF assms(1)]
  by (auto simp: route_def get_node_def get_node_meta_def split: option.splits node_status.splits prod.splits)

text \<open>
  What IEEE arithmetic promises: rounding is monotone and leaves integers up to \<open>2^24\<close> alone.
\<close>

definition float_ok :: "float_ops \<Rightarrow> bool" where
  "float_ok fl \<longleftrightarrow>
     mono (fl_round64 fl) \<and> mono (fl_round32 fl) \<and>
     (\<forall>i. \<bar>i\<bar> \<le> 2 ^ 24 \<longrightarrow> fl_round64 fl (of_int i) = of_int i \<and> fl_round32 fl (of_int i) = of_int i)"

lemma float_okD:
  assumes "float_ok fl"
  shows "x \<le> y \<Longrightarrow> fl_round64 fl x \<le> fl_round64 fl y" "x \<le> y \<Longrightarrow> fl_round32 fl x \<le> fl_round32 fl y"
    "fl_round64 fl 0 = 0" "fl_round32 fl 0 = 0" "fl_round64 fl 1 = 1" "fl_round32 fl 1 = 1"
    "fl_round64 fl 1000 = 1000" "fl_round64 fl (- 1) = - 1" "n \<le> 1000 \<Longrightarrow> fl_round32 fl (of_nat n) = of_nat n"
proof -
  note i = assms [unfolded float_ok_def, THEN conjunct2, THEN conjunct2, rule_format]
  show "x \<le> y \<Longrightarrow> fl_round64 fl x \<le> fl_round64 fl y" "x \<le> y \<Longrightarrow> fl_round32 fl x \<le> fl_round32 fl y"
    using assms by (auto simp: float_ok_def mono_def)
  show "fl_round64 fl 0 = 0" "fl_round32 fl 0 = 0" "fl_round64 fl 1 = 1" "fl_round32 fl 1 = 1"
    "fl_round64 fl 1000 = 1000" "fl_round64 fl (- 1) = - 1"
    using i [of 0] i [of 1] i [of 1000] i [of "- 1"] by simp_all
  show "n \<le> 1000 \<Longrightarrow> fl_round32 fl (of_nat n) = of_nat n"
    using i [of "int n"] by simp
qed

definition load_weight :: "float_ops \<Rightarrow> rat \<Rightarrow> rat" where
  "load_weight fl cpu = fl_round64 fl (fl_round64 fl (1 - cpu) * of_nat initial_weight)"

lemma load_weight_range:
  assumes "float_ok fl" "0 \<le> cpu" "cpu \<le> 1"
  shows "0 \<le> load_weight fl cpu" "load_weight fl cpu \<le> 1000"
proof -
  note f = float_okD [OF assms(1)]
  have "0 \<le> fl_round64 fl (1 - cpu)" "fl_round64 fl (1 - cpu) \<le> 1"
    using f(1) [of 0 "1 - cpu"] f(1) [of "1 - cpu" 1] f(3,5) assms(2,3) by simp_all
  then have "0 \<le> fl_round64 fl (1 - cpu) * 1000" "fl_round64 fl (1 - cpu) * 1000 \<le> 1000"
    by simp_all
  then show "0 \<le> load_weight fl cpu" "load_weight fl cpu \<le> 1000"
    using f(1) [of 0 "fl_round64 fl (1 - cpu) * 1000"] f(1) [of "fl_round64 fl (1 - cpu) * 1000" 1000] f(3,7)
    by (simp_all add: load_weight_def initial_weight_def)
qed

lemma load_weight_antimono:
  assumes "float_ok fl" "cpu \<le> cpu'"
  shows "load_weight fl cpu' \<le> load_weight fl cpu"
  using float_okD(1) [OF assms(1)] assms(2) by (simp add: load_weight_def initial_weight_def mult_right_mono)

lemma to_uint32_in_range: "0 \<le> x \<Longrightarrow> x \<le> 1000 \<Longrightarrow> to_uint32 fl x = nat (floor x) \<and> nat (floor x) \<le> 1000"
  by (auto simp: to_uint32_def nat_le_iff)


text \<open>Loads as they are reported break the weight: \<open>cpu.Percent\<close> answers between 0 and 100, and from two percent on
  the weight is a negative float converted to an unsigned integer, whatever the implementation makes of it.\<close>

theorem weight_of_percent:
  assumes "float_ok fl" "nm_addr m \<noteq> ''''" "nm_status m = Healthy" "2 \<le> nl_cpu l"
  shows "load_weight fl (nl_cpu l) \<le> - 1 \<and>
    weight fl \<lparr>rt_node = Some m, rt_load = Some l\<rparr> = fl_outside fl (load_weight fl (nl_cpu l))"
proof -
  note f = float_okD [OF assms(1)]
  have "fl_round64 fl (1 - nl_cpu l) \<le> - 1"
    using f(1) [of "1 - nl_cpu l" "- 1"] f(8) assms(4) by simp
  then have "fl_round64 fl (1 - nl_cpu l) * 1000 \<le> - 1" by simp
  then have lw: "load_weight fl (nl_cpu l) \<le> - 1"
    using f(1) [of "fl_round64 fl (1 - nl_cpu l) * 1000" "- 1"] f(8) by (simp add: load_weight_def initial_weight_def)
  moreover have "nl_cpu l \<noteq> 0" using assms(4) by auto
  ultimately show ?thesis
    using assms(2,3) by (simp add: weight_def to_uint32_def load_weight_def)
qed

section \<open>Witnesses\<close>

text \<open>A ring that gives every key to its first node, exact arithmetic, and values that are the metas themselves.\<close>

definition ex_ring :: "string list ring_ops" where
  "ex_ring = \<lparr>rg_new = (\<lambda>ns. ns), rg_add = (\<lambda>r n. n # r), rg_remove = (\<lambda>r n. removeAll n r),
     rg_get = (\<lambda>r k. case r of [] \<Rightarrow> None | n # ns \<Rightarrow> Some n)\<rparr>"

definition ex_codec :: "node_meta option codec" where
  "ex_codec = \<lparr>enc_meta = Some, dec_meta = (\<lambda>v. v), enc_load = (\<lambda>l. None), dec_load = (\<lambda>v. None),
     enc_revision = (\<lambda>r. None), dec_revision = (\<lambda>v. None), dec_manifest = (\<lambda>v. None)\<rparr>"

definition ex_node :: "string \<Rightarrow> node_status \<Rightarrow> node_meta" where
  "ex_node n s = \<lparr>nm_node_id = n, nm_addr = ''10.0.0.1:1'', nm_status = s\<rparr>"

definition ex_manager :: "string list etcd_manager" where
  "ex_manager = \<lparr>em_node_id = ''n1'', em_lease = Some 7, em_attached_load = False, em_ring = Some [''n1'', ''n2''],
     em_node_metas = [(''n1'', ex_node ''n1'' Healthy), (''n2'', ex_node ''n2'' Healthy)], em_hook = True\<rparr>"

definition ex_event :: "event_type \<Rightarrow> bool \<Rightarrow> node_meta option \<Rightarrow> node_meta option event" where
  "ex_event t c v = \<lparr>ev_type = t, ev_create = c, ev_key = '''', ev_value = v\<rparr>"

definition ex_float :: float_ops where
  "ex_float = \<lparr>fl_round64 = (\<lambda>x. x), fl_round32 = (\<lambda>x. x), fl_outside = (\<lambda>x. 0)\<rparr>"

lemma ex_ring_ok: "ring_ok ex_ring set"
  by (auto simp: ring_ok_def ex_ring_def split: list.splits)

lemma ex_float_ok: "float_ok ex_float"
  by (simp add: float_ok_def ex_float_def mono_def)

lemma ex_manager_ring: "em_ring ex_manager = Some [''n1'', ''n2'']"
  by (simp add: ex_manager_def)

theorem ring_follows_events_witness:
  "\<exists>em' r' n. handle_node_events ex_ring ex_codec
      [ex_event PutEvent True (Some (ex_node ''n3'' Start)), ex_event PutEvent False (Some (ex_node ''n2'' Inactive))]
      ex_manager = Ret (em', n) \<and> em_ring em' = Some r' \<and> set r' = {''n1'', ''n3''}"
proof -
  let ?evs = "[ex_event PutEvent True (Some (ex_node ''n3'' Start)), ex_event PutEvent False (Some (ex_node ''n2'' Inactive))]"
  have "foldl (member_step ex_codec) (set [''n1'', ''n2'']) ?evs = {''n1'', ''n3''}"
    by (auto simp: member_step_def event_meta_def ex_codec_def ex_event_def ex_node_def ev_is_create_def)
  with ring_follows_events [OF ex_ring_ok ex_manager_ring, of ex_codec ?evs] show ?thesis by metis
qed

theorem deletion_without_value_keeps_node_witness:
  "\<exists>em' r'. handle_node_event ex_ring ex_codec (ex_event DeleteEvent False None) ex_manager = Ret (em', True) \<and>
     em_ring em' = Some r' \<and> ''n2'' \<in> set r' \<and> get_node_meta em' ''n2'' = Inr (ex_node ''n2'' Healthy)"
proof -
  have "ev_type (ex_event DeleteEvent False None) = DeleteEvent"
    "dec_meta ex_codec (ev_value (ex_event DeleteEvent False None)) = None"
    by (simp_all add: ex_event_def ex_codec_def)
  from deletion_without_value_keeps_node [OF ex_ring_ok ex_manager_ring this, of "''n2''"] show ?thesis
    by (auto simp: ex_manager_def get_node_meta_def sm_load_def)
qed

theorem sync_cluster_members_witness:
  "let et = \<lparr>et_get = (\<lambda>k e. Inr []), et_get_prefix = (\<lambda>p e. Inr [(''a'', Some (ex_node ''n1'' Healthy)), (''b'', Some (ex_node ''n2'' Inactive))]),
      et_put = (\<lambda>k v l e. (e, None)), et_delete = (\<lambda>k e. (e, None))\<rparr>;
     out = sync_cluster ex_ring ex_codec et ''/v'' (init_etcd_manager ''n1'') ()
   in snd out = None \<and> (\<exists>r. em_ring (fst out) = Some r \<and> set r = {''n1''})"
proof -
  let ?kvs = "[(''a'', Some (ex_node ''n1'' Healthy)), (''b'', Some (ex_node ''n2'' Inactive))]"
  let ?et = "\<lparr>et_get = (\<lambda>k e. Inr []), et_get_prefix = (\<lambda>p e. Inr ?kvs),
      et_put = (\<lambda>k v l e. (e, None)), et_delete = (\<lambda>k e. (e, None))\<rparr> :: (unit, node_meta option) etcd_ops"
  have g: "et_get_prefix ?et (node_meta_path_prefix ''/v'') () = Inr ?kvs" by simp
  have "snd (sync_cluster ex_ring ex_codec ?et ''/v'' (init_etcd_manager ''n1'') ()) = None"
    by (simp add: sync_cluster_def ex_codec_def ex_node_def init_etcd_manager_def)
  moreover have "{nm_node_id m | m. nm_status m \<noteq> Inactive \<and> Some m \<in> dec_meta ex_codec ` snd ` set ?kvs} = {''n1''}"
    by (auto simp: ex_codec_def ex_node_def)
       (rule exI [of _ "\<lparr>nm_node_id = ''n1'', nm_addr = ''10.0.0.1:1'', nm_status = Healthy\<rparr>"], simp)
  ultimately show ?thesis
    using sync_cluster_members [OF ex_ring_ok g, of ex_codec "init_etcd_manager ''n1''"]
    by (auto simp: Let_def split: prod.splits)
qed

theorem one_owner_per_key_witness:
  "(\<exists>!n. need_load ex_ring (ex_manager\<lparr>em_node_id := n\<rparr>) ''docs:0:0'' = Ret True) \<and>
   get_owner_node ex_ring ex_manager ''docs:0:0'' = ''n1''"
proof -
  have "need_load ex_ring ex_manager ''docs:0:0'' = Ret True" "em_node_id ex_manager = ''n1''"
    by (simp_all add: need_load_def ex_ring_def ex_manager_def)
  with one_owner_per_key [OF ex_ring_ok _ ex_manager_ring, of "''docs:0:0''"] show ?thesis by auto
qed

theorem route_serving_nodes_witness:
  "\<forall>et e. \<exists>rt'. route ex_ring ex_codec et ''/v'' ex_manager e ''docs:0:0'' = (Some rt', None) \<and>
     (\<exists>m. rt_node rt' = Some m \<and> nm_status m \<in> {Healthy, Unhealthy, Rebalancing})"
proof (intro allI)
  fix et :: "('e, node_meta option) etcd_ops" and e
  have "rg_get ex_ring [''n1'', ''n2''] ''docs:0:0'' = Some ''n1''" by (simp add: ex_ring_def)
  moreover have "\<exists>rt'. route ex_ring ex_codec et ''/v'' ex_manager e ''docs:0:0'' = (Some rt', None)"
    by (simp add: route_def get_node_def ex_manager_def ex_ring_def get_node_meta_def sm_load_def ex_node_def)
  ultimately show "\<exists>rt'. route ex_ring ex_codec et ''/v'' ex_manager e ''docs:0:0'' = (Some rt', None) \<and>
     (\<exists>m. rt_node rt' = Some m \<and> nm_status m \<in> {Healthy, Unhealthy, Rebalancing})"
    using route_serving_nodes [OF ex_ring_ok ex_manager_ring, of "''docs:0:0''" "''n1''" ex_codec et "''/v''" e] by auto
qed


theorem weight_of_percent_witness:
  "load_weight ex_float 37 \<le> - 1 \<and>
   weight ex_float \<lparr>rt_node = Some (ex_node ''n1'' Healthy), rt_load = Some \<lparr>nl_cpu = 37, nl_mem_free = 1\<rparr>\<rparr> = 0"
  using weight_of_percent [OF ex_float_ok, of "ex_node ''n1'' Healthy" "\<lparr>nl_cpu = 37, nl_mem_free = 1\<rparr>"]
  by (simp add: ex_node_def ex_float_def)

end
