(* ===== verification/Manager.thy ===== *)
theory Manager
  imports Staged_Reload Cluster
begin

text \<open>
  \<open>internal/engine/manager.go\<close>, the local part: the shards a node has loaded, the manifests it
  knows, the shards it could not load, and the operations that change them: loading and
  deleting an index, searching, rebalancing, resolving a shard to nodes.  A state is the manager with the memory of the FAISS library
  and the status of the node; the operations run one after another.  \<open>ws\<close> gives, for every
  shard, the world its download sees.
\<close>

section \<open>The state\<close>

datatype mode = Single | ClusterMode

fun mode_string :: "mode \<Rightarrow> string" where
  "mode_string Single = ''Single''"
| "mode_string ClusterMode = ''Cluster''"

record index_manager =
  im_engine_store :: "(string, index) smap"
  im_manifests :: "(string, index_manifest) smap"
  im_pending :: "(shard, bool) smap"
  im_listeners :: "(string, nat) smap"
  im_mode :: mode

text \<open>\<open>sy_updates\<close> records the listeners that \<open>notifyListeners\<close> has called.\<close>

record sys =
  sy_mgr :: index_manager
  sy_heap :: c_heap
  sy_pkg :: pkg_state
  sy_updates :: "nat list"

definition new_index_manager :: "mode \<Rightarrow> index_manager" where
  "new_index_manager md =
     \<lparr>im_engine_store = [], im_manifests = [], im_pending = [], im_listeners = [], im_mode = md\<rparr>"

definition register_listener :: "string \<Rightarrow> nat \<Rightarrow> index_manager \<Rightarrow> index_manager" where
  "register_listener key l i = i\<lparr>im_listeners := sm_store key l (im_listeners i)\<rparr>"

definition unregister_listener :: "string \<Rightarrow> index_manager \<Rightarrow> index_manager" where
  "unregister_listener key i = i\<lparr>im_listeners := sm_delete key (im_listeners i)\<rparr>"

definition notify_listeners :: "sys \<Rightarrow> sys" where
  "notify_listeners s = s\<lparr>sy_updates := sy_updates s @ map snd (im_listeners (sy_mgr s))\<rparr>"

section \<open>Pending shards\<close>

definition put_status :: "node_status \<Rightarrow> sys \<Rightarrow> sys" where
  "put_status st s = s\<lparr>sy_pkg := set_status st (sy_pkg s)\<rparr>"

definition mark_shard_pending :: "shard \<Rightarrow> sys \<Rightarrow> sys" where
  "mark_shard_pending sh s =
     (let s1 = s\<lparr>sy_mgr := (sy_mgr s)\<lparr>im_pending := sm_store sh True (im_pending (sy_mgr s))\<rparr>\<rparr> in
      if get_status (sy_pkg s1) = Healthy then put_status Unhealthy s1 else s1)"

definition unmark_shard_pending :: "shard \<Rightarrow> sys \<Rightarrow> sys" where
  "unmark_shard_pending sh s =
     (case sm_load (im_pending (sy_mgr s)) sh of
       None \<Rightarrow> s
     | Some b \<Rightarrow>
         (let s1 = s\<lparr>sy_mgr := (sy_mgr s)\<lparr>im_pending := sm_delete sh (im_pending (sy_mgr s))\<rparr>\<rparr> in
          if im_pending (sy_mgr s1) = [] \<and> get_status (sy_pkg s1) = Unhealthy
          then put_status Healthy s1 else s1))"

section \<open>Loading an index\<close>

text \<open>In cluster mode a FAISS shard reloads by staging; other indexes keep what they have.\<close>

fun set_cluster_reload_callback :: "string \<Rightarrow> index \<Rightarrow> index" where
  "set_cluster_reload_callback name (FaissIx fx) = FaissIx (set_reload_callback (StageAndSignal name) fx)"
| "set_cluster_reload_callback name (MockIx m) = MockIx m"

definition cluster_callback :: "mode \<Rightarrow> string \<Rightarrow> index \<Rightarrow> index" where
  "cluster_callback md name ix = (if md = ClusterMode then set_cluster_reload_callback name ix else ix)"

definition store_index :: "string \<Rightarrow> index \<Rightarrow> c_heap \<Rightarrow> sys \<Rightarrow> sys" where
  "store_index key ix h s =
     s\<lparr>sy_heap := h, sy_mgr := (sy_mgr s)\<lparr>im_engine_store := sm_store key ix (im_engine_store (sy_mgr s))\<rparr>\<rparr>"

text \<open>The loop over the shards; the counters are those of the shards tried and of the shards loaded.\<close>

fun load_shards ::
    "(shard \<Rightarrow> world) \<Rightarrow> cluster_view option \<Rightarrow> index_manifest \<Rightarrow> shard list \<Rightarrow> sys \<Rightarrow> (sys \<times> nat \<times> nat) run" where
  "load_shards ws cv m [] s = Ret (s, 0, 0)"
| "load_shards ws cv m (sh # shs) s =
     (if sm_load (im_engine_store (sy_mgr s)) (unique_shard_key sh) \<noteq> None then load_shards ws cv m shs s
      else if (case cv of None \<Rightarrow> False | Some c \<Rightarrow> \<not> cv_need_load c (shard_key sh)) then load_shards ws cv m shs s
      else run_bind (new_index (ws sh) m sh (sy_heap s)) (\<lambda>(h, r).
        case r of
          Inl e \<Rightarrow> run_map (\<lambda>(s', t, n). (s', Suc t, n))
            (load_shards ws cv m shs (mark_shard_pending sh (s\<lparr>sy_heap := h\<rparr>)))
        | Inr ix \<Rightarrow> run_map (\<lambda>(s', t, n). (s', Suc t, Suc n))
            (load_shards ws cv m shs (store_index (unique_shard_key sh)
              (cluster_callback (im_mode (sy_mgr s)) (meta_name (mf_meta m)) ix) h s))))"

definition store_manifest :: "index_manifest \<Rightarrow> sys \<Rightarrow> sys" where
  "store_manifest m s =
     s\<lparr>sy_mgr := (sy_mgr s)\<lparr>im_manifests := sm_store (meta_name (mf_meta m)) m (im_manifests (sy_mgr s))\<rparr>\<rparr>"

text \<open>\<open>cv\<close> is the cluster manager of the process, \<open>None\<close> when it is nil; it is consulted in cluster mode only.\<close>

definition load_index ::
    "(shard \<Rightarrow> world) \<Rightarrow> cluster_view option \<Rightarrow> index_manifest \<Rightarrow> sys \<Rightarrow> (sys \<times> nat \<times> nat \<times> error option) run" where
  "load_index ws cv m s =
     (if im_mode (sy_mgr s) = ClusterMode \<and> cv = None then Ret (s, 0, 0, Some (Cfg ErrClusterNotInitialised))
      else (case manifest_validate m of
        Some e \<Rightarrow> Ret (s, 0, 0, Some e)
      | None \<Rightarrow>
          run_bind (generate_shards m) (\<lambda>shs.
            run_map (\<lambda>(s', t, n). (store_manifest m s', t, n, None))
              (load_shards ws (if im_mode (sy_mgr s) = ClusterMode then cv else None) m shs s))))"

section \<open>Deleting an index\<close>

definition remove_index :: "string \<Rightarrow> c_heap \<Rightarrow> sys \<Rightarrow> sys" where
  "remove_index key h s =
     s\<lparr>sy_heap := h, sy_mgr := (sy_mgr s)\<lparr>im_engine_store := sm_delete key (im_engine_store (sy_mgr s))\<rparr>\<rparr>"

fun delete_shards :: "shard list \<Rightarrow> sys \<Rightarrow> (sys \<times> nat) run" where
  "delete_shards [] s = Ret (s, 0)"
| "delete_shards (sh # shs) s =
     (case sm_load (im_engine_store (sy_mgr s)) (unique_shard_key sh) of
       None \<Rightarrow> delete_shards shs s
     | Some ix \<Rightarrow> run_bind (index_delete (sy_heap s) ix) (\<lambda>h.
         run_map (\<lambda>(s', n). (s', Suc n)) (delete_shards shs (remove_index (unique_shard_key sh) h s))))"

definition delete_index :: "string \<Rightarrow> sys \<Rightarrow> (sys \<times> nat) run" where
  "delete_index name s =
     (case sm_load (im_manifests (sy_mgr s)) name of
       None \<Rightarrow> Ret (s, 0)
     | Some m \<Rightarrow>
         (let s1 = s\<lparr>sy_mgr := (sy_mgr s)\<lparr>im_manifests := sm_delete name (im_manifests (sy_mgr s))\<rparr>\<rparr>
          in run_bind (generate_unique_shards m) (\<lambda>us. delete_shards us s1)))"

section \<open>Searching\<close>

record label =
  lb_distance :: f32
  lb_label :: string

record search_result =
  sr_shard :: shard
  sr_error :: "error option"
  sr_result :: "label list"
  sr_to_route :: bool

definition search_shard :: "sys \<Rightarrow> shard \<Rightarrow> f32 list \<Rightarrow> int \<Rightarrow> (search_result \<times> error option) run" where
  "search_shard s sh x k =
     (let res = \<lparr>sr_shard = sh, sr_error = None, sr_result = [], sr_to_route = False\<rparr>;
          failed = (\<lambda>e. Ret (res\<lparr>sr_error := Some e\<rparr>, Some e))
      in case sm_load (im_engine_store (sy_mgr s)) (unique_shard_key sh) of
        None \<Rightarrow> failed (Cfg ErrShardNotFound)
      | Some ix \<Rightarrow>
          run_bind (index_search (sy_heap s) ix x k) (\<lambda>out.
            case out of
              Inl e \<Rightarrow> failed e
            | Inr (distances, labels) \<Rightarrow>
                if length distances \<noteq> length labels then failed (Cfg ErrOutputDimension)
                else Ret (res\<lparr>sr_result := map (\<lambda>(d, l). \<lparr>lb_distance = d, lb_label = l\<rparr>) (zip distances labels)\<rparr>, None)))"

text \<open>One shard of \<open>Search\<close>: in cluster mode a shard that is not here is to be routed.\<close>

definition search_one :: "sys \<Rightarrow> f32 list \<Rightarrow> int \<Rightarrow> shard \<Rightarrow> search_result run" where
  "search_one s x k sh =
     run_map (\<lambda>(res, err).
       case err of
         Some e \<Rightarrow>
           if im_mode (sy_mgr s) = ClusterMode \<and> err_is e ErrShardNotFound
           then \<lparr>sr_shard = sh, sr_error = None, sr_result = [], sr_to_route = True\<rparr> else res
       | None \<Rightarrow> res) (search_shard s sh x k)"

fun run_mapM :: "('a \<Rightarrow> 'b run) \<Rightarrow> 'a list \<Rightarrow> 'b list run" where
  "run_mapM f [] = Ret []"
| "run_mapM f (x # xs) = run_bind (f x) (\<lambda>y. run_map (\<lambda>ys. y # ys) (run_mapM f xs))"

definition manager_search :: "sys \<Rightarrow> string \<Rightarrow> f32 list \<Rightarrow> int \<Rightarrow> (error + search_result list) run" where
  "manager_search s name x k =
     (case sm_load (im_manifests (sy_mgr s)) name of
       None \<Rightarrow> Ret (Inl (Cfg ErrIndexNotFound))
     | Some m \<Rightarrow>
         run_bind (generate_unique_shards m) (\<lambda>us. run_map Inr (run_mapM (search_one s x k) us)))"

section \<open>Rebalancing\<close>

text \<open>The first replica of a unique shard that this node is to load.\<close>

definition assigned_replica :: "cluster_view \<Rightarrow> index_manifest \<Rightarrow> shard \<Rightarrow> shard option" where
  "assigned_replica cv m u =
     find (\<lambda>c. cv_need_load cv (shard_key c))
       (map (\<lambda>r. \<lparr>sh_index_name = sh_index_name u, sh_shard_id = sh_shard_id u, sh_replica_id = r\<rparr>)
         [0..meta_replicas (mf_meta m) - 1])"

definition rebalance_shard :: "(shard \<Rightarrow> world) \<Rightarrow> cluster_view \<Rightarrow> index_manifest \<Rightarrow> shard \<Rightarrow> sys \<Rightarrow> sys run" where
  "rebalance_shard ws cv m u s =
     (case (assigned_replica cv m u, sm_load (im_engine_store (sy_mgr s)) (unique_shard_key u)) of
       (Some a, None) \<Rightarrow>
         run_map (\<lambda>(h, r).
           case r of
             Inl e \<Rightarrow> mark_shard_pending u (s\<lparr>sy_heap := h\<rparr>)
           | Inr ix \<Rightarrow> store_index (unique_shard_key u)
               (cluster_callback (im_mode (sy_mgr s)) (meta_name (mf_meta m)) ix) h s)
           (new_index (ws a) m a (sy_heap s))
     | (None, Some ix) \<Rightarrow>
         run_map (\<lambda>h. remove_index (unique_shard_key u) h s) (index_delete (sy_heap s) ix)
     | _ \<Rightarrow> Ret s)"

fun run_fold :: "('a \<Rightarrow> 's \<Rightarrow> 's run) \<Rightarrow> 'a list \<Rightarrow> 's \<Rightarrow> 's run" where
  "run_fold f [] s = Ret s"
| "run_fold f (x # xs) s = run_bind (f x s) (run_fold f xs)"

definition rebalance_manifest :: "(shard \<Rightarrow> world) \<Rightarrow> cluster_view \<Rightarrow> string \<times> index_manifest \<Rightarrow> sys \<Rightarrow> sys run" where
  "rebalance_manifest ws cv km s =
     run_bind (generate_unique_shards (snd km)) (\<lambda>us. run_fold (rebalance_shard ws cv (snd km)) us s)"

definition clear_pending :: "cluster_view \<Rightarrow> sys \<Rightarrow> sys" where
  "clear_pending cv s =
     foldl (\<lambda>s sh. if \<not> cv_need_load cv (shard_key sh) then unmark_shard_pending sh s else s)
       s (map fst (im_pending (sy_mgr s)))"

text \<open>
  The two deferred functions run at the end, the status first.  The returned error is always nil,
  so it does not show here.
\<close>

definition rebalance :: "(shard \<Rightarrow> world) \<Rightarrow> cluster_view \<Rightarrow> sys \<Rightarrow> sys run" where
  "rebalance ws cv s =
     (let s1 = clear_pending cv (put_status Rebalancing s) in
      run_map (\<lambda>s2. notify_listeners
          (put_status (if im_pending (sy_mgr s2) \<noteq> [] then Unhealthy else Healthy) s2))
        (run_fold (rebalance_manifest ws cv) (im_manifests (sy_mgr s1)) s1))"

section \<open>Resolving a shard\<close>

text \<open>\<open>ResolveUniqueShard\<close>: replicas whose route fails are left out; the error returned is nil.\<close>

definition resolve_unique_shard :: "cluster_view \<Rightarrow> index_manager \<Rightarrow> shard \<Rightarrow> (error + routing option list) run" where
  "resolve_unique_shard cv i u =
     (case sm_load (im_manifests i) (sh_index_name u) of
       None \<Rightarrow> Ret (Inl (Cfg ErrResolveIndexShard))
     | Some m \<Rightarrow>
         if sh_shard_id u \<ge> meta_shards (mf_meta m) then Ret (Inl (Cfg ErrResolveIndexShard))
         else run_map (\<lambda>keys. Inr (map fst (filter (\<lambda>(r, e). e = None) (map (cv_route cv) keys))))
           (generate_replica_keys u (meta_replicas (mf_meta m))))"

section \<open>Start and manifest events\<close>

text \<open>
  \<open>InitManager\<close> loads the manifests it could decode.  The loads run concurrently in the code; here one
  after another, in the order of the list.  The result is decided from three counters.
\<close>

fun load_manifests ::
    "(shard \<Rightarrow> world) \<Rightarrow> cluster_view option \<Rightarrow> index_manifest list \<Rightarrow> sys \<Rightarrow> (sys \<times> nat \<times> nat \<times> nat) run" where
  "load_manifests ws cv [] s = Ret (s, 0, 0, 0)"
| "load_manifests ws cv (m # ms) s =
     run_bind (load_index ws cv m s) (\<lambda>(s1, t, n, e).
       run_map (\<lambda>(s2, t', n', f').
         case e of Some e \<Rightarrow> (s2, t', n', Suc f') | None \<Rightarrow> (s2, t + t', n + n', f'))
         (load_manifests ws cv ms s1))"

definition init_result :: "nat \<Rightarrow> nat \<Rightarrow> nat \<Rightarrow> error option" where
  "init_result tot succ fails =
     (if 0 < tot \<and> succ = 0 then Some (Cfg ErrNoSuccess)
      else if 0 < tot \<and> succ < tot then Some (Cfg ErrPartlySuccess)
      else if 0 < fails then Some (Cfg ErrPartlySuccess)
      else None)"

text \<open>
  \<open>raw\<close> is what the configuration source answers: the values below the manifest path of etcd, or the contents of the
  files of the local directory, those that could be read.
\<close>

definition init_manager ::
    "(shard \<Rightarrow> world) \<Rightarrow> ('v \<Rightarrow> index_manifest option) \<Rightarrow> cluster_view option \<Rightarrow> mode \<Rightarrow> error + 'v list \<Rightarrow> sys \<Rightarrow>
     (sys \<times> error option) run" where
  "init_manager ws decode cv md raw s =
     (let s0 = s\<lparr>sy_mgr := new_index_manager md\<rparr> in
      case raw of
        Inl e \<Rightarrow> Ret (s0, Some (Cfg ErrGetManifestsFailed))
      | Inr vs \<Rightarrow>
          run_map (\<lambda>(s1, t, n, f). (s1, init_result t n f))
            (load_manifests ws cv (List.map_filter decode vs) s0))"

definition zero_manifest :: index_manifest where
  "zero_manifest = \<lparr>mf_meta = \<lparr>meta_name = '''', meta_type = '''', meta_input_dim = 0, meta_shards = 0,
     meta_replicas = 0, meta_c_time = 0, meta_m_time = 0, meta_version = ''''\<rparr>, mf_source = None, mf_reload = None\<rparr>"

text \<open>
  One event of the manifest watch.  A value that does not decode is logged and used as the zero manifest.
\<close>

definition handle_manifest_event ::
    "(shard \<Rightarrow> world) \<Rightarrow> 'v codec \<Rightarrow> cluster_view option \<Rightarrow> 'v event \<Rightarrow> sys \<Rightarrow> sys run" where
  "handle_manifest_event ws cd cv ev s =
     (let m = (case dec_manifest cd (ev_value ev) of Some m \<Rightarrow> m | None \<Rightarrow> zero_manifest) in
      case manifest_validate m of
        Some e \<Rightarrow> Ret s
      | None \<Rightarrow>
          if ev_is_create ev then run_map fst (load_index ws cv m s)
          else if ev_type ev = DeleteEvent then run_map fst (delete_index (meta_name (mf_meta m)) s)
          else Ret s)"

section \<open>The invariant of the loaded shards\<close>

text \<open>
  Every loaded index is stored under its own key, is well formed in the memory of the library,
  and shares no handle with another; every manifest is stored under its name, has a source and a
  sensible number of shards.
\<close>

definition store_ok :: "c_heap \<Rightarrow> (string, index) smap \<Rightarrow> bool" where
  "store_ok h es \<longleftrightarrow> ch_ok h \<and> sm_wf es \<and>
     (\<forall>k ix. sm_load es k = Some ix \<longrightarrow> index_ok h ix \<and> unique_shard_key (index_shard ix) = k) \<and>
     (\<forall>k k' ix ix'. sm_load es k = Some ix \<longrightarrow> sm_load es k' = Some ix' \<longrightarrow> k \<noteq> k' \<longrightarrow>
        index_owned ix \<inter> index_owned ix' = {})"

definition manifest_ok :: "index_manifest \<Rightarrow> bool" where
  "manifest_ok m \<longleftrightarrow> mf_source m \<noteq> None \<and> 0 \<le> wrap32 (meta_shards (mf_meta m) * meta_replicas (mf_meta m))"

definition manifests_ok :: "(string, index_manifest) smap \<Rightarrow> bool" where
  "manifests_ok ms \<longleftrightarrow> sm_wf ms \<and>
     (\<forall>k m. sm_load ms k = Some m \<longrightarrow> meta_name (mf_meta m) = k \<and> manifest_ok m)"

definition sys_ok :: "sys \<Rightarrow> bool" where
  "sys_ok s \<longleftrightarrow> store_ok (sy_heap s) (im_engine_store (sy_mgr s)) \<and> manifests_ok (im_manifests (sy_mgr s))"

abbreviation engine :: "sys \<Rightarrow> string \<Rightarrow> index option" where
  "engine s \<equiv> sm_load (im_engine_store (sy_mgr s))"

abbreviation pending :: "sys \<Rightarrow> shard set" where
  "pending s \<equiv> sm_keys (im_pending (sy_mgr s))"

lemma store_okD:
  assumes "store_ok h es"
  shows "ch_ok h" "sm_wf es" "sm_load es k = Some ix \<Longrightarrow> index_ok h ix"
    "sm_load es k = Some ix \<Longrightarrow> unique_shard_key (index_shard ix) = k"
    "sm_load es k = Some ix \<Longrightarrow> sm_load es k' = Some ix' \<Longrightarrow> k \<noteq> k' \<Longrightarrow> index_owned ix \<inter> index_owned ix' = {}"
  using assms by (auto simp: store_ok_def)

lemma owned_below: "index_ok h ix \<Longrightarrow> i \<in> index_owned ix \<Longrightarrow> i < ch_next h"
  using index_owned_live [of h ix] by (cases ix) (auto simp: fx_ok_def ch_ok_def)

text \<open>Replacing the index under a key, by one that owns handles of the old one or fresh ones.\<close>

lemma store_ok_replace:
  assumes ok: "store_ok h es" and fr: "ch_frame own h h'" and ix: "index_ok h' ix"
    and key: "unique_shard_key (index_shard ix) = k"
    and own: "index_owned ix \<subseteq> own \<union> {i. ch_next h \<le> i}"
    and old: "\<And>k' ix'. k' \<noteq> k \<Longrightarrow> sm_load es k' = Some ix' \<Longrightarrow> index_owned ix' \<inter> own = {}"
  shows "store_ok h' (sm_store k ix es)"
proof -
  have keep: "index_ok h' ix'" if "k' \<noteq> k" "sm_load es k' = Some ix'" for k' ix'
    using index_ok_frame [OF fr store_okD(3) [OF ok that(2)] old [OF that]] .
  have dis: "index_owned ix \<inter> index_owned ix' = {}" if "k' \<noteq> k" "sm_load es k' = Some ix'" for k' ix'
    using own old [OF that] owned_below [OF store_okD(3) [OF ok that(2)]] by (fastforce simp: not_le)
  have "ch_ok h'" using fr by (simp add: ch_frame_def)
  then show ?thesis
    unfolding store_ok_def
    using store_okD(2,4,5) [OF ok] keep dis ix key by (auto simp: Int_commute)
qed

lemma store_ok_remove:
  assumes ok: "store_ok h es" and ld: "sm_load es k = Some ix" and fr: "ch_frame (index_owned ix) h h'"
  shows "store_ok h' (sm_delete k es)"
proof -
  have keep: "index_ok h' ix'" if "k' \<noteq> k" "sm_load es k' = Some ix'" for k' ix'
    using index_ok_frame [OF fr store_okD(3) [OF ok that(2)]] store_okD(5) [OF ok that(2) ld that(1)] by simp
  have "ch_ok h'" using fr by (simp add: ch_frame_def)
  then show ?thesis
    unfolding store_ok_def using store_okD(2,4,5) [OF ok] keep by auto
qed

lemma index_owned_callback [simp]: "index_owned (cluster_callback md name ix) = index_owned ix"
  by (cases ix) (auto simp: cluster_callback_def set_reload_callback_def fx_owned_def)

lemma index_ok_callback [simp]: "index_ok h (cluster_callback md name ix) = index_ok h ix"
  by (cases ix) (auto simp: cluster_callback_def set_reload_callback_def fx_ok_def split: option.splits)

lemma index_shard_callback [simp]: "index_shard (cluster_callback md name ix) = index_shard ix"
  by (cases ix) (auto simp: cluster_callback_def set_reload_callback_def)

lemma store_ok_heap: "store_ok h es \<Longrightarrow> ch_frame {} h h' \<Longrightarrow> store_ok h' es"
  unfolding store_ok_def using index_ok_frame [of "{}" h h'] by (auto simp: ch_frame_def)

text \<open>Loading one shard: with an error the store is as it was, otherwise the new index is in it.\<close>

lemma store_ok_new_index:
  assumes "store_ok h es" "new_index w m sh h = Ret (h', r)"
  shows "store_ok h' es"
    and "r = Inr ix \<Longrightarrow> store_ok h' (sm_store (unique_shard_key sh) (cluster_callback md name ix) es)"
proof -
  note fr = new_index_heap [OF store_okD(1) [OF assms(1)] assms(2)]
  show "store_ok h' es" by (rule store_ok_heap [OF assms(1) fr])
  assume "r = Inr ix"
  with assms(2) have n: "new_index w m sh h = Ret (h', Inr ix)" by simp
  note ok = new_index_ok [OF store_okD(1) [OF assms(1)] n]
  show "store_ok h' (sm_store (unique_shard_key sh) (cluster_callback md name ix) es)"
    by (rule store_ok_replace [OF assms(1) fr]) (use ok in auto)
qed

lemma store_ok_delete:
  assumes "store_ok h es" "sm_load es k = Some ix"
  shows "\<exists>h'. index_delete h ix = Ret h' \<and> store_ok h' (sm_delete k es)"
  using index_delete_ok [OF store_okD(3) [OF assms]] store_ok_remove [OF assms] by blast

lemma generate_unique_Ret: "manifest_ok m \<Longrightarrow> \<exists>us. generate_unique_shards m = Ret us"
  by (auto simp: generate_unique_shards_def manifest_ok_def Let_def)

lemma generate_Ret: "manifest_ok m \<Longrightarrow> \<exists>ss. generate_shards m = Ret ss"
  by (auto simp: generate_shards_def manifest_ok_def Let_def)

lemma manifest_ok_index: "manifest_ok m \<Longrightarrow> \<exists>h' r. new_index w m sh h = Ret (h', r)"
  by (simp add: manifest_ok_def new_index_Ret)

text \<open>What marking and unmarking leave alone.\<close>

lemma mark_simps [simp]:
  "im_engine_store (sy_mgr (mark_shard_pending sh s)) = im_engine_store (sy_mgr s)"
  "im_manifests (sy_mgr (mark_shard_pending sh s)) = im_manifests (sy_mgr s)"
  "im_mode (sy_mgr (mark_shard_pending sh s)) = im_mode (sy_mgr s)"
  "im_listeners (sy_mgr (mark_shard_pending sh s)) = im_listeners (sy_mgr s)"
  "sy_heap (mark_shard_pending sh s) = sy_heap s"
  "sy_updates (mark_shard_pending sh s) = sy_updates s"
  "im_pending (sy_mgr (mark_shard_pending sh s)) = sm_store sh True (im_pending (sy_mgr s))"
  by (simp_all add: mark_shard_pending_def put_status_def Let_def)

lemma unmark_simps [simp]:
  "im_engine_store (sy_mgr (unmark_shard_pending sh s)) = im_engine_store (sy_mgr s)"
  "im_manifests (sy_mgr (unmark_shard_pending sh s)) = im_manifests (sy_mgr s)"
  "im_mode (sy_mgr (unmark_shard_pending sh s)) = im_mode (sy_mgr s)"
  "im_listeners (sy_mgr (unmark_shard_pending sh s)) = im_listeners (sy_mgr s)"
  "sy_heap (unmark_shard_pending sh s) = sy_heap s"
  "sy_updates (unmark_shard_pending sh s) = sy_updates s"
  "pending (unmark_shard_pending sh s) = pending s - {sh}"
proof -
  have "im_pending (sy_mgr (unmark_shard_pending sh s)) = sm_delete sh (im_pending (sy_mgr s))"
    by (cases "sm_load (im_pending (sy_mgr s)) sh")
       (simp_all add: unmark_shard_pending_def put_status_def Let_def sm_delete_absent sm_keys_load)
  then show "pending (unmark_shard_pending sh s) = pending s - {sh}" by simp
qed (simp_all add: unmark_shard_pending_def put_status_def Let_def split: option.splits)

lemma put_status_simps [simp]:
  "sy_mgr (put_status st s) = sy_mgr s" "sy_heap (put_status st s) = sy_heap s"
  "sy_updates (put_status st s) = sy_updates s" "get_status (sy_pkg (put_status st s)) = st"
  by (simp_all add: put_status_def get_status_def)

lemma store_index_simps [simp]:
  "im_engine_store (sy_mgr (store_index k ix h s)) = sm_store k ix (im_engine_store (sy_mgr s))"
  "im_manifests (sy_mgr (store_index k ix h s)) = im_manifests (sy_mgr s)"
  "im_pending (sy_mgr (store_index k ix h s)) = im_pending (sy_mgr s)"
  "im_mode (sy_mgr (store_index k ix h s)) = im_mode (sy_mgr s)"
  "im_listeners (sy_mgr (store_index k ix h s)) = im_listeners (sy_mgr s)"
  "sy_heap (store_index k ix h s) = h" "sy_updates (store_index k ix h s) = sy_updates s"
  "sy_pkg (store_index k ix h s) = sy_pkg s"
  by (simp_all add: store_index_def)

lemma remove_index_simps [simp]:
  "im_engine_store (sy_mgr (remove_index k h s)) = sm_delete k (im_engine_store (sy_mgr s))"
  "im_manifests (sy_mgr (remove_index k h s)) = im_manifests (sy_mgr s)"
  "im_pending (sy_mgr (remove_index k h s)) = im_pending (sy_mgr s)"
  "im_mode (sy_mgr (remove_index k h s)) = im_mode (sy_mgr s)"
  "im_listeners (sy_mgr (remove_index k h s)) = im_listeners (sy_mgr s)"
  "sy_heap (remove_index k h s) = h" "sy_updates (remove_index k h s) = sy_updates s"
  "sy_pkg (remove_index k h s) = sy_pkg s"
  by (simp_all add: remove_index_def)

section \<open>Loading\<close>

definition wanted :: "cluster_view option \<Rightarrow> shard \<Rightarrow> bool" where
  "wanted cv sh \<longleftrightarrow> (case cv of None \<Rightarrow> True | Some c \<Rightarrow> cv_need_load c (shard_key sh))"

text \<open>What a loading loop over \<open>shs\<close> has done when it comes from \<open>s\<close> to \<open>s'\<close> with \<open>n\<close> shards loaded out of \<open>t\<close>.\<close>

definition loaded_from :: "cluster_view option \<Rightarrow> shard list \<Rightarrow> sys \<Rightarrow> sys \<Rightarrow> nat \<Rightarrow> nat \<Rightarrow> bool" where
  "loaded_from cv shs s s' t n \<longleftrightarrow>
     store_ok (sy_heap s') (im_engine_store (sy_mgr s')) \<and>
     im_manifests (sy_mgr s') = im_manifests (sy_mgr s) \<and> im_mode (sy_mgr s') = im_mode (sy_mgr s) \<and>
     n \<le> t \<and> card (sm_keys (im_engine_store (sy_mgr s'))) = card (sm_keys (im_engine_store (sy_mgr s))) + n \<and>
     (\<forall>k. engine s k \<noteq> None \<longrightarrow> engine s' k = engine s k) \<and>
     (\<forall>k. engine s k = None \<longrightarrow> engine s' k \<noteq> None \<longrightarrow> (\<exists>sh \<in> set shs. wanted cv sh \<and> k = unique_shard_key sh)) \<and>
     (\<forall>sh \<in> set shs. wanted cv sh \<longrightarrow> engine s' (unique_shard_key sh) \<noteq> None \<or> sh \<in> pending s') \<and>
     pending s \<subseteq> pending s' \<and> pending s' \<subseteq> pending s \<union> {sh \<in> set shs. wanted cv sh} \<and>
     (n = t \<longrightarrow> pending s' = pending s) \<and> (n < t \<longrightarrow> pending s' \<noteq> {})"

lemma finite_sm_keys [simp]: "finite (sm_keys m)"
  by (simp add: sm_keys_def)

lemma loaded_from_skip:
  assumes "loaded_from cv shs s s' t n" "engine s (unique_shard_key sh) \<noteq> None \<or> \<not> wanted cv sh"
  shows "loaded_from cv (sh # shs) s s' t n"
proof -
  have "wanted cv sh \<longrightarrow> engine s' (unique_shard_key sh) \<noteq> None \<or> sh \<in> pending s'"
    using assms by (auto simp: loaded_from_def)
  with assms(1) show ?thesis unfolding loaded_from_def by auto
qed

lemma loaded_from_failed:
  assumes "loaded_from cv shs (mark_shard_pending sh (s\<lparr>sy_heap := h\<rparr>)) s' t n" "wanted cv sh"
  shows "loaded_from cv (sh # shs) s s' (Suc t) n"
  using assms unfolding loaded_from_def by auto

lemma loaded_from_stored:
  assumes "loaded_from cv shs (store_index (unique_shard_key sh) ix h s) s' t n" "wanted cv sh"
    and "engine s (unique_shard_key sh) = None"
  shows "loaded_from cv (sh # shs) s s' (Suc t) (Suc n)"
proof -
  have "unique_shard_key sh \<notin> sm_keys (im_engine_store (sy_mgr s))"
    using assms(3) by (simp add: sm_keys_load)
  with assms show ?thesis unfolding loaded_from_def by (auto split: if_splits)
qed

lemma load_shards_ok:
  assumes "manifest_ok m"
  shows "store_ok (sy_heap s) (im_engine_store (sy_mgr s)) \<Longrightarrow>
    \<exists>s' t n. load_shards ws cv m shs s = Ret (s', t, n) \<and> loaded_from cv shs s s' t n"
proof (induction shs arbitrary: s)
  case Nil
  then show ?case by (simp add: loaded_from_def)
next
  case (Cons sh shs)
  show ?case
  proof (cases "engine s (unique_shard_key sh) \<noteq> None \<or> \<not> wanted cv sh")
    case True
    then have "load_shards ws cv m (sh # shs) s = load_shards ws cv m shs s"
      by (auto simp: wanted_def split: option.splits)
    with Cons.IH [OF Cons.prems] loaded_from_skip [OF _ True] show ?thesis by metis
  next
    case False
    then have e: "engine s (unique_shard_key sh) = None" "wanted cv sh" by auto
    obtain h r where n: "new_index (ws sh) m sh (sy_heap s) = Ret (h, r)"
      using manifest_ok_index [OF assms] by blast
    note ok = store_ok_new_index [OF Cons.prems n]
    show ?thesis
    proof (cases r)
      case (Inl er)
      let ?s = "mark_shard_pending sh (s\<lparr>sy_heap := h\<rparr>)"
      from Cons.IH [of ?s] ok(1) obtain s' t n' where
        l: "load_shards ws cv m shs ?s = Ret (s', t, n')" "loaded_from cv shs ?s s' t n'" by auto
      have "load_shards ws cv m (sh # shs) s = Ret (s', Suc t, n')"
        using e n Inl l(1) by (auto simp: wanted_def split: option.splits)
      with loaded_from_failed [OF l(2) e(2)] show ?thesis by blast
    next
      case (Inr ix)
      let ?s = "store_index (unique_shard_key sh)
          (cluster_callback (im_mode (sy_mgr s)) (meta_name (mf_meta m)) ix) h s"
      from Cons.IH [of ?s] ok(2) [OF Inr] obtain s' t n' where
        l: "load_shards ws cv m shs ?s = Ret (s', t, n')" "loaded_from cv shs ?s s' t n'" by auto
      have "load_shards ws cv m (sh # shs) s = Ret (s', Suc t, Suc n')"
        using e n Inr l(1) by (auto simp: wanted_def split: option.splits)
      with loaded_from_stored [OF l(2) e(2,1)] show ?thesis by blast
    qed
  qed
qed

lemma store_manifest_simps [simp]:
  "im_engine_store (sy_mgr (store_manifest m s)) = im_engine_store (sy_mgr s)"
  "im_manifests (sy_mgr (store_manifest m s)) = sm_store (meta_name (mf_meta m)) m (im_manifests (sy_mgr s))"
  "im_pending (sy_mgr (store_manifest m s)) = im_pending (sy_mgr s)"
  "im_mode (sy_mgr (store_manifest m s)) = im_mode (sy_mgr s)"
  "sy_heap (store_manifest m s) = sy_heap s"
  by (simp_all add: store_manifest_def)

lemma manifests_ok_store: "manifests_ok ms \<Longrightarrow> manifest_ok m \<Longrightarrow> manifests_ok (sm_store (meta_name (mf_meta m)) m ms)"
  by (auto simp: manifests_ok_def)

lemma load_index_ok:
  assumes "sys_ok s" "manifest_ok m" "generate_shards m = Ret shs"
    and "cv \<noteq> None \<or> im_mode (sy_mgr s) = Single"
  shows "\<exists>s' t n. load_index ws cv m s = Ret (store_manifest m s', t, n, None) \<and>
    loaded_from (if im_mode (sy_mgr s) = ClusterMode then cv else None) shs s s' t n \<and> sys_ok (store_manifest m s')"
proof -
  let ?cv = "if im_mode (sy_mgr s) = ClusterMode then cv else None"
  from load_shards_ok [OF assms(2), of s ws ?cv shs] assms(1) obtain s' t n where
    l: "load_shards ws ?cv m shs s = Ret (s', t, n)" "loaded_from ?cv shs s s' t n"
    by (auto simp: sys_ok_def)
  then have "sys_ok (store_manifest m s')"
    using assms(1,2) by (auto simp: sys_ok_def loaded_from_def intro: manifests_ok_store)
  moreover have "load_index ws cv m s = Ret (store_manifest m s', t, n, None)"
    using assms(3,4) l(1) by (auto simp: load_index_def manifest_validate_def)
  ultimately show ?thesis using l(2) by blast
qed

section \<open>Deleting\<close>

lemma delete_shards_ok:
  "store_ok (sy_heap s) (im_engine_store (sy_mgr s)) \<Longrightarrow>
   \<exists>s' n. delete_shards shs s = Ret (s', n) \<and> store_ok (sy_heap s') (im_engine_store (sy_mgr s')) \<and>
     im_manifests (sy_mgr s') = im_manifests (sy_mgr s) \<and>
     (\<forall>k. engine s' k = (if k \<in> unique_shard_key ` set shs then None else engine s k)) \<and>
     n = card {k \<in> unique_shard_key ` set shs. engine s k \<noteq> None}"
proof (induction shs arbitrary: s)
  case Nil
  then show ?case by simp
next
  case (Cons sh shs)
  let ?k = "unique_shard_key sh"
  show ?case
  proof (cases "engine s ?k")
    case None
    have "{k \<in> unique_shard_key ` set (sh # shs). engine s k \<noteq> None} =
        {k \<in> unique_shard_key ` set shs. engine s k \<noteq> None}" using None by auto
    with Cons.IH [OF Cons.prems] None show ?thesis by auto
  next
    case (Some ix)
    from store_ok_delete [OF Cons.prems Some] obtain h where
      h: "index_delete (sy_heap s) ix = Ret h" "store_ok h (sm_delete ?k (im_engine_store (sy_mgr s)))" by blast
    let ?s = "remove_index ?k h s"
    from Cons.IH [of ?s] h(2) obtain s' n where
      d: "delete_shards shs ?s = Ret (s', n)" "store_ok (sy_heap s') (im_engine_store (sy_mgr s'))"
        "im_manifests (sy_mgr s') = im_manifests (sy_mgr s)"
        "\<forall>k. engine s' k = (if k \<in> unique_shard_key ` set shs then None else engine ?s k)"
        "n = card {k \<in> unique_shard_key ` set shs. engine ?s k \<noteq> None}" by auto
    have "{k \<in> unique_shard_key ` set (sh # shs). engine s k \<noteq> None} =
        insert ?k {k \<in> unique_shard_key ` set shs. engine ?s k \<noteq> None}"
      using Some by auto
    then have "Suc n = card {k \<in> unique_shard_key ` set (sh # shs). engine s k \<noteq> None}"
      using d(5) by simp
    moreover have "delete_shards (sh # shs) s = Ret (s', Suc n)"
      using Some h(1) d(1) by simp
    moreover have "\<forall>k. engine s' k = (if k \<in> unique_shard_key ` set (sh # shs) then None else engine s k)"
      using d(4) by auto
    ultimately show ?thesis using d(2,3) by blast
  qed
qed

section \<open>Rebalancing\<close>

definition needs_shard :: "cluster_view \<Rightarrow> index_manifest \<Rightarrow> shard \<Rightarrow> bool" where
  "needs_shard cv m u \<longleftrightarrow> (\<exists>r \<in> {0..<meta_replicas (mf_meta m)}.
     cv_need_load cv (shard_key \<lparr>sh_index_name = sh_index_name u, sh_shard_id = sh_shard_id u, sh_replica_id = r\<rparr>))"

lemma assigned_replica_None: "assigned_replica cv m u = None \<longleftrightarrow> \<not> needs_shard cv m u"
  by (auto simp: assigned_replica_def needs_shard_def find_None_iff)

lemma assigned_replica_Some:
  "assigned_replica cv m u = Some a \<Longrightarrow> cv_need_load cv (shard_key a) \<and> unique_shard_key a = unique_shard_key u"
  by (auto simp: assigned_replica_def find_Some_iff unique_shard_key_eq)

text \<open>The shard is where the ring wants it, or it is pending.\<close>

definition settled :: "cluster_view \<Rightarrow> index_manifest \<Rightarrow> shard \<Rightarrow> sys \<Rightarrow> bool" where
  "settled cv m u s \<longleftrightarrow>
     (engine s (unique_shard_key u) \<noteq> None \<longrightarrow> needs_shard cv m u) \<and>
     (needs_shard cv m u \<longrightarrow> engine s (unique_shard_key u) \<noteq> None \<or> u \<in> pending s)"

definition steady :: "sys \<Rightarrow> sys \<Rightarrow> bool" where
  "steady s s' \<longleftrightarrow> im_manifests (sy_mgr s') = im_manifests (sy_mgr s) \<and> im_mode (sy_mgr s') = im_mode (sy_mgr s) \<and>
     im_listeners (sy_mgr s') = im_listeners (sy_mgr s) \<and> sy_updates s' = sy_updates s \<and> pending s \<subseteq> pending s'"

lemma steady_refl [simp]: "steady s s"
  by (simp add: steady_def)

lemma steady_trans: "steady s s1 \<Longrightarrow> steady s1 s2 \<Longrightarrow> steady s s2"
  by (auto simp: steady_def)

lemma rebalance_shard_ok:
  assumes "store_ok (sy_heap s) (im_engine_store (sy_mgr s))" "manifest_ok m"
  shows "\<exists>s'. rebalance_shard ws cv m u s = Ret s' \<and> store_ok (sy_heap s') (im_engine_store (sy_mgr s')) \<and>
    settled cv m u s' \<and> steady s s' \<and> pending s' \<subseteq> insert u (pending s) \<and>
    (\<forall>k. k \<noteq> unique_shard_key u \<longrightarrow> engine s' k = engine s k)"
proof (cases "assigned_replica cv m u")
  case None
  note need = None [unfolded assigned_replica_None]
  show ?thesis
  proof (cases "engine s (unique_shard_key u)")
    case (Some ix)
    from store_ok_delete [OF assms(1) Some] None Some need show ?thesis
      by (auto simp: rebalance_shard_def settled_def steady_def)
  qed (use None need assms in \<open>auto simp: rebalance_shard_def settled_def\<close>)
next
  case (Some a)
  then have need: "needs_shard cv m u" using assigned_replica_None [of cv m u] by simp
  show ?thesis
  proof (cases "engine s (unique_shard_key u)")
    case None
    obtain h r where n: "new_index (ws a) m a (sy_heap s) = Ret (h, r)"
      using manifest_ok_index [OF assms(2)] by blast
    note ok = store_ok_new_index [OF assms(1) n]
    have k: "unique_shard_key a = unique_shard_key u" using assigned_replica_Some [OF Some] by simp
    show ?thesis
    proof (cases r)
      case (Inl e)
      with n Some None need ok(1) show ?thesis
        by (auto simp: rebalance_shard_def settled_def steady_def)
    next
      case (Inr ix)
      with n Some None need ok(2) [OF Inr] k show ?thesis
        by (auto simp: rebalance_shard_def settled_def steady_def)
    qed
  qed (use Some need assms in \<open>auto simp: rebalance_shard_def settled_def\<close>)
qed

lemma settled_keep:
  "settled cv m u s \<Longrightarrow> steady s s' \<Longrightarrow> engine s' (unique_shard_key u) = engine s (unique_shard_key u) \<Longrightarrow>
   settled cv m u s'"
  by (auto simp: settled_def steady_def)

lemma rebalance_shards_ok:
  assumes "manifest_ok m"
  shows "store_ok (sy_heap s) (im_engine_store (sy_mgr s)) \<Longrightarrow> distinct (map unique_shard_key us) \<Longrightarrow>
    \<exists>s'. run_fold (rebalance_shard ws cv m) us s = Ret s' \<and> store_ok (sy_heap s') (im_engine_store (sy_mgr s')) \<and>
      (\<forall>u \<in> set us. settled cv m u s') \<and> steady s s' \<and> pending s' \<subseteq> set us \<union> pending s \<and>
      (\<forall>k. k \<notin> unique_shard_key ` set us \<longrightarrow> engine s' k = engine s k)"
proof (induction us arbitrary: s)
  case Nil
  then show ?case by simp
next
  case (Cons u us)
  from rebalance_shard_ok [OF Cons.prems(1) assms, of ws cv u] obtain s1 where
    1: "rebalance_shard ws cv m u s = Ret s1" "store_ok (sy_heap s1) (im_engine_store (sy_mgr s1))"
      "settled cv m u s1" "steady s s1" "pending s1 \<subseteq> insert u (pending s)"
      "\<forall>k. k \<noteq> unique_shard_key u \<longrightarrow> engine s1 k = engine s k" by blast
  from Cons.IH [OF 1(2)] Cons.prems(2) obtain s2 where
    2: "run_fold (rebalance_shard ws cv m) us s1 = Ret s2" "store_ok (sy_heap s2) (im_engine_store (sy_mgr s2))"
      "\<forall>u \<in> set us. settled cv m u s2" "steady s1 s2" "pending s2 \<subseteq> set us \<union> pending s1"
      "\<forall>k. k \<notin> unique_shard_key ` set us \<longrightarrow> engine s2 k = engine s1 k" by auto
  have "settled cv m u s2"
    using settled_keep [OF 1(3) 2(4)] 2(6) Cons.prems(2) by simp
  with 1 2 steady_trans [OF 1(4) 2(4)] show ?case by auto
qed

text \<open>The unique shards of a manifest that \<open>manifest_ok\<close> accepts, without the outcome around them.\<close>

definition unique_shards :: "index_manifest \<Rightarrow> shard list" where
  "unique_shards m = (case generate_unique_shards m of Ret us \<Rightarrow> us | Panic p \<Rightarrow> [])"

lemma generate_unique_shards_eq: "manifest_ok m \<Longrightarrow> generate_unique_shards m = Ret (unique_shards m)"
  using generate_unique_Ret [of m] by (auto simp: unique_shards_def)

lemma unique_shards_name: "manifest_ok m \<Longrightarrow> u \<in> set (unique_shards m) \<Longrightarrow> sh_index_name u = meta_name (mf_meta m)"
  using generate_unique_shards_Ret [OF generate_unique_shards_eq] by auto

lemma unique_shards_distinct: "manifest_ok m \<Longrightarrow> distinct (map unique_shard_key (unique_shards m))"
  using generate_unique_keys_distinct [OF generate_unique_shards_eq] .

text \<open>Shards of different indexes have different keys.\<close>

lemma unique_shards_disjoint:
  assumes "manifest_ok m" "manifest_ok m'" "meta_name (mf_meta m) \<noteq> meta_name (mf_meta m')"
  shows "unique_shard_key ` set (unique_shards m) \<inter> unique_shard_key ` set (unique_shards m') = {}"
  using unique_shards_name [OF assms(1)] unique_shards_name [OF assms(2)] assms(3)
  by (auto simp: unique_shard_key_eq)

lemma rebalance_manifests_ok:
  "store_ok (sy_heap s) (im_engine_store (sy_mgr s)) \<Longrightarrow>
   distinct (map (\<lambda>km. meta_name (mf_meta (snd km))) kms) \<Longrightarrow> (\<And>km. km \<in> set kms \<Longrightarrow> manifest_ok (snd km)) \<Longrightarrow>
   \<exists>s'. run_fold (rebalance_manifest ws cv) kms s = Ret s' \<and> store_ok (sy_heap s') (im_engine_store (sy_mgr s')) \<and>
     (\<forall>km \<in> set kms. \<forall>u \<in> set (unique_shards (snd km)). settled cv (snd km) u s') \<and> steady s s' \<and>
     pending s' \<subseteq> pending s \<union> (\<Union>km \<in> set kms. set (unique_shards (snd km))) \<and>
     (\<forall>k. k \<notin> (\<Union>km \<in> set kms. unique_shard_key ` set (unique_shards (snd km))) \<longrightarrow> engine s' k = engine s k)"
proof (induction kms arbitrary: s)
  case Nil
  then show ?case by simp
next
  case (Cons km kms)
  have mok: "manifest_ok (snd km)" using Cons.prems(3) by simp
  from rebalance_shards_ok [OF mok Cons.prems(1) unique_shards_distinct [OF mok], of ws cv] obtain s1 where
    1: "run_fold (rebalance_shard ws cv (snd km)) (unique_shards (snd km)) s = Ret s1"
      "store_ok (sy_heap s1) (im_engine_store (sy_mgr s1))"
      "\<forall>u \<in> set (unique_shards (snd km)). settled cv (snd km) u s1" "steady s s1"
      "pending s1 \<subseteq> set (unique_shards (snd km)) \<union> pending s"
      "\<forall>k. k \<notin> unique_shard_key ` set (unique_shards (snd km)) \<longrightarrow> engine s1 k = engine s k" by blast
  from Cons.IH [OF 1(2)] Cons.prems(2,3) obtain s2 where
    2: "run_fold (rebalance_manifest ws cv) kms s1 = Ret s2" "store_ok (sy_heap s2) (im_engine_store (sy_mgr s2))"
      "\<forall>km \<in> set kms. \<forall>u \<in> set (unique_shards (snd km)). settled cv (snd km) u s2" "steady s1 s2"
      "pending s2 \<subseteq> pending s1 \<union> (\<Union>km \<in> set kms. set (unique_shards (snd km)))"
      "\<forall>k. k \<notin> (\<Union>km \<in> set kms. unique_shard_key ` set (unique_shards (snd km))) \<longrightarrow> engine s2 k = engine s1 k"
    by (metis (no_types, lifting) distinct.simps(2) list.set_intros(2) list.simps(9))
  have away: "unique_shard_key u \<notin> (\<Union>km \<in> set kms. unique_shard_key ` set (unique_shards (snd km)))"
    if "u \<in> set (unique_shards (snd km))" for u
  proof
    assume "unique_shard_key u \<in> (\<Union>km \<in> set kms. unique_shard_key ` set (unique_shards (snd km)))"
    then obtain km' where km': "km' \<in> set kms" "unique_shard_key u \<in> unique_shard_key ` set (unique_shards (snd km'))"
      by auto
    with unique_shards_disjoint [OF mok Cons.prems(3), of km'] that Cons.prems(2) show False by fastforce
  qed
  have "settled cv (snd km) u s2" if "u \<in> set (unique_shards (snd km))" for u
    by (rule settled_keep [OF bspec [OF 1(3) that] 2(4) 2(6) [rule_format, OF away [OF that]]])
  moreover have "run_fold (rebalance_manifest ws cv) (km # kms) s = Ret s2"
    using 1(1) 2(1) generate_unique_shards_eq [OF mok] by (simp add: rebalance_manifest_def)
  moreover have "pending s2 \<subseteq> pending s \<union> (\<Union>km' \<in> set (km # kms). set (unique_shards (snd km')))"
    using 1(5) 2(5) by auto
  moreover have "\<forall>k. k \<notin> (\<Union>km' \<in> set (km # kms). unique_shard_key ` set (unique_shards (snd km'))) \<longrightarrow> engine s2 k = engine s k"
    using 1(6) 2(6) by auto
  ultimately show ?case using 2(2,3) steady_trans [OF 1(4) 2(4)] by auto
qed

lemma clear_pending_fold:
  "let s' = foldl (\<lambda>s sh. if \<not> cv_need_load cv (shard_key sh) then unmark_shard_pending sh s else s) s shs in
   im_engine_store (sy_mgr s') = im_engine_store (sy_mgr s) \<and> im_manifests (sy_mgr s') = im_manifests (sy_mgr s) \<and>
   im_mode (sy_mgr s') = im_mode (sy_mgr s) \<and> im_listeners (sy_mgr s') = im_listeners (sy_mgr s) \<and>
   sy_heap s' = sy_heap s \<and> sy_updates s' = sy_updates s \<and>
   pending s' = pending s - {sh \<in> set shs. \<not> cv_need_load cv (shard_key sh)}"
  by (induction shs arbitrary: s) (auto simp: Let_def)

lemma clear_pending_simps [simp]:
  "im_engine_store (sy_mgr (clear_pending cv s)) = im_engine_store (sy_mgr s)"
  "im_manifests (sy_mgr (clear_pending cv s)) = im_manifests (sy_mgr s)"
  "im_mode (sy_mgr (clear_pending cv s)) = im_mode (sy_mgr s)"
  "im_listeners (sy_mgr (clear_pending cv s)) = im_listeners (sy_mgr s)"
  "sy_heap (clear_pending cv s) = sy_heap s" "sy_updates (clear_pending cv s) = sy_updates s"
  "pending (clear_pending cv s) = {sh \<in> pending s. cv_need_load cv (shard_key sh)}"
  using clear_pending_fold [of cv s "map fst (im_pending (sy_mgr s))"]
  by (auto simp: clear_pending_def Let_def sm_keys_def)

lemma sm_keys_empty: "sm_keys m = {} \<longleftrightarrow> m = []"
  by (simp add: sm_keys_def)

lemma manifests_ok_names:
  assumes "manifests_ok ms"
  shows "distinct (map (\<lambda>km. meta_name (mf_meta (snd km))) ms)" "km \<in> set ms \<Longrightarrow> manifest_ok (snd km)"
    "km \<in> set ms \<Longrightarrow> sm_load ms (fst km) = Some (snd km)"
proof -
  have ld: "sm_load ms (fst km) = Some (snd km)" if "km \<in> set ms" for km
    using assms that by (auto simp: manifests_ok_def sm_wf_def sm_load_def)
  then show "km \<in> set ms \<Longrightarrow> sm_load ms (fst km) = Some (snd km)" .
  show "km \<in> set ms \<Longrightarrow> manifest_ok (snd km)" using ld assms unfolding manifests_ok_def by blast
  have eq: "map (\<lambda>km. meta_name (mf_meta (snd km))) ms = map fst ms"
    using ld assms by (auto simp: manifests_ok_def)
  show "distinct (map (\<lambda>km. meta_name (mf_meta (snd km))) ms)"
    unfolding eq using assms by (simp add: manifests_ok_def sm_wf_def)
qed

text \<open>All that a rebalance achieves.\<close>

lemma rebalance_ok:
  assumes "sys_ok s"
  shows "\<exists>s'. rebalance ws cv s = Ret s' \<and> sys_ok s' \<and>
    im_manifests (sy_mgr s') = im_manifests (sy_mgr s) \<and> im_mode (sy_mgr s') = im_mode (sy_mgr s) \<and>
    (\<forall>name m u. sm_load (im_manifests (sy_mgr s)) name = Some m \<longrightarrow> u \<in> set (unique_shards m) \<longrightarrow> settled cv m u s') \<and>
    (\<forall>k. (\<forall>name m. sm_load (im_manifests (sy_mgr s)) name = Some m \<longrightarrow>
             k \<notin> unique_shard_key ` set (unique_shards m)) \<longrightarrow> engine s' k = engine s k) \<and>
    {sh \<in> pending s. cv_need_load cv (shard_key sh)} \<subseteq> pending s' \<and>
    get_status (sy_pkg s') = (if pending s' = {} then Healthy else Unhealthy) \<and>
    sy_updates s' = sy_updates s @ map snd (im_listeners (sy_mgr s))"
proof -
  let ?s1 = "clear_pending cv (put_status Rebalancing s)"
  let ?ms = "im_manifests (sy_mgr s)"
  have ok: "store_ok (sy_heap ?s1) (im_engine_store (sy_mgr ?s1))" "manifests_ok ?ms"
    using assms by (simp_all add: sys_ok_def)
  from rebalance_manifests_ok [OF ok(1) manifests_ok_names(1) [OF ok(2)] manifests_ok_names(2) [OF ok(2)], of ws cv]
  obtain s2 where 2: "run_fold (rebalance_manifest ws cv) ?ms ?s1 = Ret s2"
    "store_ok (sy_heap s2) (im_engine_store (sy_mgr s2))"
    "\<forall>km \<in> set ?ms. \<forall>u \<in> set (unique_shards (snd km)). settled cv (snd km) u s2" "steady ?s1 s2"
    "\<forall>k. k \<notin> (\<Union>km \<in> set ?ms. unique_shard_key ` set (unique_shards (snd km))) \<longrightarrow> engine s2 k = engine ?s1 k"
    by blast
  define s' where "s' = notify_listeners (put_status (if im_pending (sy_mgr s2) \<noteq> [] then Unhealthy else Healthy) s2)"
  have r: "rebalance ws cv s = Ret s'"
    using 2(1) by (simp add: rebalance_def Let_def s'_def)
  have mem: "(name, m) \<in> set ?ms" if "sm_load ?ms name = Some m" for name m
    using that by (simp add: sm_load_def map_of_SomeD)
  have s': "sy_mgr s' = sy_mgr s2" "sy_heap s' = sy_heap s2"
    by (simp_all add: s'_def notify_listeners_def)
  have "sys_ok s'" using 2(2,4) ok(2) by (simp add: sys_ok_def s' steady_def)
  moreover have "settled cv m u s'" if "sm_load ?ms name = Some m" "u \<in> set (unique_shards m)" for name m u
    using 2(3) mem [OF that(1)] that(2) by (auto simp: settled_def s')
  moreover have "engine s' k = engine s k"
    if "\<forall>name m. sm_load ?ms name = Some m \<longrightarrow> k \<notin> unique_shard_key ` set (unique_shards m)" for k
  proof -
    have "k \<notin> (\<Union>km \<in> set ?ms. unique_shard_key ` set (unique_shards (snd km)))"
      using that manifests_ok_names(3) [OF ok(2)] by blast
    with 2(5) show ?thesis by (simp add: s')
  qed
  moreover have "{sh \<in> pending s. cv_need_load cv (shard_key sh)} \<subseteq> pending s'"
    using 2(4) by (auto simp: steady_def s')
  moreover have "get_status (sy_pkg s') = (if pending s' = {} then Healthy else Unhealthy)"
    by (simp add: s'_def notify_listeners_def put_status_def get_status_def sm_keys_empty)
  moreover have "sy_updates s' = sy_updates s @ map snd (im_listeners (sy_mgr s))"
    using 2(4) by (simp add: s'_def notify_listeners_def steady_def)
  moreover have "im_manifests (sy_mgr s') = ?ms" "im_mode (sy_mgr s') = im_mode (sy_mgr s)"
    using 2(4) by (simp_all add: s' steady_def)
  ultimately show ?thesis using r by blast
qed

section \<open>Searching\<close>

lemma search_shard_Ret:
  assumes "store_ok (sy_heap s) (im_engine_store (sy_mgr s))"
  shows "\<exists>res err. search_shard s sh x k = Ret (res, err) \<and> sr_shard res = sh \<and> \<not> sr_to_route res \<and> sr_error res = err \<and>
    (engine s (unique_shard_key sh) = None \<longrightarrow> err = Some (Cfg ErrShardNotFound))"
proof (cases "engine s (unique_shard_key sh)")
  case None
  then show ?thesis by (simp add: search_shard_def)
next
  case (Some ix)
  obtain out where "index_search (sy_heap s) ix x k = Ret out"
    using index_search_Ret [OF store_okD(3) [OF assms Some]] by blast
  with Some show ?thesis
    by (auto simp: search_shard_def Let_def split: sum.splits prod.splits)
qed

lemma run_mapM_Ret:
  "(\<And>x. x \<in> set xs \<Longrightarrow> \<exists>y. f x = Ret y \<and> P x y) \<Longrightarrow> \<exists>ys. run_mapM f xs = Ret ys \<and> list_all2 P xs ys"
proof (induction xs)
  case Nil
  then show ?case by simp
next
  case (Cons x xs)
  from Cons.prems [of x] obtain y where "f x = Ret y" "P x y" by auto
  moreover from Cons.IH Cons.prems obtain ys where "run_mapM f xs = Ret ys" "list_all2 P xs ys" by auto
  ultimately show ?case by simp
qed

section \<open>Properties\<close>

text \<open>C18: A rebalance brings the node in line with the ring.  It always returns, without a fault of the FAISS memory, and afterwards
  every shard of a known index is loaded only if the ring gives one of its replicas to this node, and a shard given to
  this node is loaded or pending; indexes without a manifest keep what they had, the manifests are as
  they were, the node is healthy exactly when nothing is pending, and every registered listener was told.\<close>

theorem rebalance_settles:
  assumes "sys_ok s"
  shows "\<exists>s'. rebalance ws cv s = Ret s' \<and> sys_ok s' \<and>
    (\<forall>name m u. sm_load (im_manifests (sy_mgr s)) name = Some m \<and> u \<in> set (unique_shards m) \<longrightarrow>
       (engine s' (unique_shard_key u) \<noteq> None \<longrightarrow> needs_shard cv m u) \<and>
       (needs_shard cv m u \<longrightarrow> engine s' (unique_shard_key u) \<noteq> None \<or> u \<in> pending s')) \<and>
    (\<forall>k. (\<forall>name m. sm_load (im_manifests (sy_mgr s)) name = Some m \<longrightarrow> k \<notin> unique_shard_key ` set (unique_shards m)) \<longrightarrow>
       engine s' k = engine s k) \<and>
    get_status (sy_pkg s') = (if pending s' = {} then Healthy else Unhealthy) \<and>
    sy_updates s' = sy_updates s @ map snd (im_listeners (sy_mgr s))"
  using rebalance_ok [OF assms, of ws cv] unfolding settled_def by blast

text \<open>A pending shard that the ring still gives to this node stays pending through every rebalance, also when the rebalance loads
  it: the node is left unhealthy although nothing is missing.\<close>

theorem rebalance_keeps_pending:
  assumes "sys_ok s" "sh \<in> pending s" "cv_need_load cv (shard_key sh)"
  shows "\<exists>s'. rebalance ws cv s = Ret s' \<and> sh \<in> pending s' \<and> get_status (sy_pkg s') = Unhealthy"
  using rebalance_ok [OF assms(1), of ws cv] assms(2,3) by auto


lemma delete_index_ok:
  assumes "sys_ok s" "sm_load (im_manifests (sy_mgr s)) name = Some m"
  shows "\<exists>s' n. delete_index name s = Ret (s', n) \<and> sys_ok s' \<and>
    sm_load (im_manifests (sy_mgr s')) name = None \<and>
    (\<forall>k. engine s' k = (if k \<in> unique_shard_key ` set (unique_shards m) then None else engine s k)) \<and>
    n = card {k \<in> unique_shard_key ` set (unique_shards m). engine s k \<noteq> None}"
proof -
  let ?s1 = "s\<lparr>sy_mgr := (sy_mgr s)\<lparr>im_manifests := sm_delete name (im_manifests (sy_mgr s))\<rparr>\<rparr>"
  have mok: "manifest_ok m" and ms: "manifests_ok (sm_delete name (im_manifests (sy_mgr s)))"
    using assms by (auto simp: sys_ok_def manifests_ok_def)
  have "store_ok (sy_heap ?s1) (im_engine_store (sy_mgr ?s1))" using assms(1) by (simp add: sys_ok_def)
  from delete_shards_ok [OF this, of "unique_shards m"] obtain s' n where
    d: "delete_shards (unique_shards m) ?s1 = Ret (s', n)" "store_ok (sy_heap s') (im_engine_store (sy_mgr s'))"
      "im_manifests (sy_mgr s') = sm_delete name (im_manifests (sy_mgr s))"
      "\<forall>k. engine s' k = (if k \<in> unique_shard_key ` set (unique_shards m) then None else engine s k)"
      "n = card {k \<in> unique_shard_key ` set (unique_shards m). engine s k \<noteq> None}" by auto
  moreover have "delete_index name s = Ret (s', n)"
    using d(1) assms(2) generate_unique_shards_eq [OF mok] by (simp add: delete_index_def Let_def)
  moreover have "sys_ok s'" using d(2,3) ms by (simp add: sys_ok_def)
  ultimately show ?thesis by auto
qed

text \<open>Deleting an index releases exactly its shards: the call returns, every shard of the manifest is gone and its memory freed, all
  other shards are untouched, the manifest is forgotten, and the number reported is the number of shards that were loaded.\<close>

theorem delete_index_releases:
  assumes "sys_ok s" "sm_load (im_manifests (sy_mgr s)) name = Some m"
  shows "\<exists>s' n. delete_index name s = Ret (s', n) \<and> sys_ok s' \<and>
    sm_load (im_manifests (sy_mgr s')) name = None \<and>
    (\<forall>k. engine s' k = (if k \<in> unique_shard_key ` set (unique_shards m) then None else engine s k)) \<and>
    n = card {k \<in> unique_shard_key ` set (unique_shards m). engine s k \<noteq> None}"
  using delete_index_ok [OF assms] .


lemma load_manifests_ok:
  assumes "cv \<noteq> None \<or> im_mode (sy_mgr s) = Single"
  shows "sys_ok s \<Longrightarrow> (\<And>m. m \<in> set ms \<Longrightarrow> manifest_ok m) \<Longrightarrow>
    \<exists>s' t n. load_manifests ws cv ms s = Ret (s', t, n, 0) \<and> sys_ok s' \<and> n \<le> t \<and>
      (n = t \<longrightarrow> pending s' = pending s) \<and> (n < t \<longrightarrow> pending s' \<noteq> {}) \<and>
      (\<forall>m \<in> set ms. sm_load (im_manifests (sy_mgr s')) (meta_name (mf_meta m)) \<noteq> None) \<and>
      (\<forall>k. sm_load (im_manifests (sy_mgr s)) k \<noteq> None \<longrightarrow> sm_load (im_manifests (sy_mgr s')) k \<noteq> None) \<and>
      card (sm_keys (im_engine_store (sy_mgr s'))) = card (sm_keys (im_engine_store (sy_mgr s))) + n \<and>
      pending s \<subseteq> pending s'"
  using assms
proof (induction ms arbitrary: s)
  case Nil
  then show ?case by simp
next
  case (Cons m ms)
  have mok: "manifest_ok m" using Cons.prems(2) by simp
  obtain shs where shs: "generate_shards m = Ret shs" using generate_Ret [OF mok] by blast
  from load_index_ok [OF Cons.prems(1) mok shs Cons.prems(3), of ws] obtain s1 t n where
    1: "load_index ws cv m s = Ret (store_manifest m s1, t, n, None)" "sys_ok (store_manifest m s1)"
      "loaded_from (if im_mode (sy_mgr s) = ClusterMode then cv else None) shs s s1 t n" by blast
  let ?s1 = "store_manifest m s1"
  have keep: "n \<le> t" "n = t \<longrightarrow> pending ?s1 = pending s" "n < t \<longrightarrow> pending ?s1 \<noteq> {}" "pending s \<subseteq> pending ?s1"
    "im_mode (sy_mgr ?s1) = im_mode (sy_mgr s)" "im_manifests (sy_mgr s1) = im_manifests (sy_mgr s)"
    "card (sm_keys (im_engine_store (sy_mgr ?s1))) = card (sm_keys (im_engine_store (sy_mgr s))) + n"
    using 1(3) by (simp_all add: loaded_from_def)
  from Cons.IH [OF 1(2)] Cons.prems(2,3) keep(5) obtain s2 t' n' where
    2: "load_manifests ws cv ms ?s1 = Ret (s2, t', n', 0)" "sys_ok s2" "n' \<le> t'"
      "n' = t' \<longrightarrow> pending s2 = pending ?s1" "n' < t' \<longrightarrow> pending s2 \<noteq> {}"
      "\<forall>m \<in> set ms. sm_load (im_manifests (sy_mgr s2)) (meta_name (mf_meta m)) \<noteq> None"
      "\<forall>k. sm_load (im_manifests (sy_mgr ?s1)) k \<noteq> None \<longrightarrow> sm_load (im_manifests (sy_mgr s2)) k \<noteq> None"
      "card (sm_keys (im_engine_store (sy_mgr s2))) = card (sm_keys (im_engine_store (sy_mgr ?s1))) + n'"
      "pending ?s1 \<subseteq> pending s2"
    by (metis list.set_intros(2))
  have "load_manifests ws cv (m # ms) s = Ret (s2, t + t', n + n', 0)"
    using 1(1) 2(1) by simp
  moreover have "sm_load (im_manifests (sy_mgr s2)) (meta_name (mf_meta m)) \<noteq> None"
    using 2(7) by simp
  moreover have "\<forall>k. sm_load (im_manifests (sy_mgr s)) k \<noteq> None \<longrightarrow> sm_load (im_manifests (sy_mgr s2)) k \<noteq> None"
    using 2(7) keep(6) by simp
  moreover have "n + n' = t + t' \<longrightarrow> pending s2 = pending s"
  proof
    assume "n + n' = t + t'"
    then have "n = t" "n' = t'" using keep(1) 2(3) by linarith+
    then show "pending s2 = pending s" using keep(2) 2(4) by simp
  qed
  moreover have "n + n' < t + t' \<longrightarrow> pending s2 \<noteq> {}"
    using keep(1,3) 2(3,5,9) by (cases "n < t") auto
  moreover have "card (sm_keys (im_engine_store (sy_mgr s2))) = card (sm_keys (im_engine_store (sy_mgr s))) + (n + n')"
    using keep(7) 2(8) by simp
  moreover have "pending s \<subseteq> pending s2" "n + n' \<le> t + t'" using keep(1,4) 2(3,9) by auto
  ultimately show ?case using 2(2,6) by (metis set_ConsD)
qed

lemma init_manager_ok:
  assumes "ch_ok (sy_heap s)" "cv \<noteq> None \<or> md = Single"
    and "\<And>v m. v \<in> set vs \<Longrightarrow> decode v = Some m \<Longrightarrow> manifest_ok m"
  shows "\<exists>s' e. init_manager ws decode cv md (Inr vs) s = Ret (s', e) \<and> sys_ok s' \<and>
    (\<forall>v \<in> set vs. \<forall>m. decode v = Some m \<longrightarrow> sm_load (im_manifests (sy_mgr s')) (meta_name (mf_meta m)) \<noteq> None) \<and>
    (e = (if pending s' = {} then None
          else if im_engine_store (sy_mgr s') = [] then Some (Cfg ErrNoSuccess) else Some (Cfg ErrPartlySuccess)))"
proof -
  let ?s0 = "s\<lparr>sy_mgr := new_index_manager md\<rparr>" and ?ms = "List.map_filter decode vs"
  have mem: "m \<in> set ?ms \<longleftrightarrow> (\<exists>v \<in> set vs. decode v = Some m)" for m
    by (induction vs) (auto simp: map_filter_simps split: option.splits)
  have ok: "sys_ok ?s0" using assms(1)
    by (simp add: sys_ok_def store_ok_def manifests_ok_def new_index_manager_def)
  have md: "cv \<noteq> None \<or> im_mode (sy_mgr ?s0) = Single" using assms(2) by (simp add: new_index_manager_def)
  have mok: "manifest_ok m" if "m \<in> set ?ms" for m using that assms(3) mem by blast
  from load_manifests_ok [OF md ok mok, of ?ms ws] obtain s' t n where
    l: "load_manifests ws cv ?ms ?s0 = Ret (s', t, n, 0)" "sys_ok s'" "n \<le> t"
      "n = t \<longrightarrow> pending s' = pending ?s0" "n < t \<longrightarrow> pending s' \<noteq> {}"
      "\<forall>m \<in> set ?ms. sm_load (im_manifests (sy_mgr s')) (meta_name (mf_meta m)) \<noteq> None"
      "card (sm_keys (im_engine_store (sy_mgr s'))) = card (sm_keys (im_engine_store (sy_mgr ?s0))) + n" by blast
  have 0: "pending ?s0 = {}" "card (sm_keys (im_engine_store (sy_mgr ?s0))) = 0"
    by (simp_all add: new_index_manager_def)
  have "im_engine_store (sy_mgr s') = [] \<longleftrightarrow> n = 0"
    using l(7) 0(2) sm_keys_empty [of "im_engine_store (sy_mgr s')"] by auto
  then have "init_result t n 0 = (if pending s' = {} then None
      else if im_engine_store (sy_mgr s') = [] then Some (Cfg ErrNoSuccess) else Some (Cfg ErrPartlySuccess))"
    using l(3,4,5) 0(1) by (cases "n = t") (auto simp: init_result_def)
  moreover have "init_manager ws decode cv md (Inr vs) s = Ret (s', init_result t n 0)"
    using l(1) by (simp add: init_manager_def Let_def)
  moreover have "\<forall>v \<in> set vs. \<forall>m. decode v = Some m \<longrightarrow> sm_load (im_manifests (sy_mgr s')) (meta_name (mf_meta m)) \<noteq> None"
    using l(6) mem by blast
  ultimately show ?thesis using l(2) by (simp add: init_manager_def Let_def)
qed

text \<open>The start reports what it achieved: with sound manifests the call returns, every decoded manifest is known, and
  the result is no error exactly when nothing is pending, \<open>ErrNoSuccess\<close> exactly when something is pending and no
  shard is loaded, and \<open>ErrPartlySuccess\<close> in between; without the manifests it is \<open>ErrGetManifestsFailed\<close>.\<close>

theorem init_manager_reports:
  assumes "ch_ok (sy_heap s)" "cv \<noteq> None \<or> md = Single"
    and "\<And>v m. v \<in> set vs \<Longrightarrow> decode v = Some m \<Longrightarrow> manifest_ok m"
  shows "\<exists>s' e. init_manager ws decode cv md (Inr vs) s = Ret (s', e) \<and> sys_ok s' \<and>
    (\<forall>v \<in> set vs. \<forall>m. decode v = Some m \<longrightarrow> sm_load (im_manifests (sy_mgr s')) (meta_name (mf_meta m)) \<noteq> None) \<and>
    (e = (if pending s' = {} then None
          else if im_engine_store (sy_mgr s') = [] then Some (Cfg ErrNoSuccess) else Some (Cfg ErrPartlySuccess))) \<and>
    (\<exists>s0. init_manager ws decode cv md (Inl err) s = Ret (s0, Some (Cfg ErrGetManifestsFailed)))"
proof -
  have "init_manager ws decode cv md (Inl err) s = Ret (s\<lparr>sy_mgr := new_index_manager md\<rparr>, Some (Cfg ErrGetManifestsFailed))"
    by (simp add: init_manager_def)
  with init_manager_ok [OF assms(1,2), where vs = vs and decode = decode and ws = ws] assms(3) show ?thesis by blast
qed

section \<open>Witnesses\<close>

text \<open>An index of two mock shards in two replicas; a node that has nothing, one shard or a pending shard; rings that give it everything or nothing.\<close>

definition ex_mock_manifest :: index_manifest where
  "ex_mock_manifest = \<lparr>mf_meta = \<lparr>meta_name = ''docs'', meta_type = ''mock'', meta_input_dim = 1, meta_shards = 2,
       meta_replicas = 2, meta_c_time = 0, meta_m_time = 0, meta_version = ''1''\<rparr>,
     mf_source = Some ex_source, mf_reload = None\<rparr>"

definition ex_mock_index :: index where
  "ex_mock_index = MockIx \<lparr>mx_shard = ex_shard, mx_revision = 123, mx_manifest = ex_mock_manifest\<rparr>"

definition ex_sys :: "mode \<Rightarrow> (string, index) smap \<Rightarrow> (shard, bool) smap \<Rightarrow> sys" where
  "ex_sys md es ps = \<lparr>sy_mgr = \<lparr>im_engine_store = es, im_manifests = [(''docs'', ex_mock_manifest)],
       im_pending = ps, im_listeners = [], im_mode = md\<rparr>,
     sy_heap = empty_heap, sy_pkg = init_pkg, sy_updates = []\<rparr>"

definition ex_view :: "bool \<Rightarrow> cluster_view" where
  "ex_view b = \<lparr>cv_node_id = ''n1'', cv_lease = Some 1, cv_need_load = (\<lambda>k. b),
     cv_owner_node = (\<lambda>k. if b then ''n1'' else ''n2''), cv_route = (\<lambda>k. (None, None))\<rparr>"

lemma ex_mock_manifest_ok: "manifest_ok ex_mock_manifest"
  by (simp add: manifest_ok_def ex_mock_manifest_def wrap32_def)

lemma ex_unique_shards:
  "unique_shards ex_mock_manifest = [ex_shard, ex_shard\<lparr>sh_shard_id := 1\<rparr>]"
  by (simp add: unique_shards_def generate_unique_shards_def ex_mock_manifest_def wrap32_def ex_shard_def upto.simps)

lemma ex_shard_key: "unique_shard_key ex_shard = ''docs:0''"
  by code_simp

lemma ex_sys_ok: "sys_ok (ex_sys md [] ps)" "sys_ok (ex_sys md [(''docs:0'', ex_mock_index)] ps)"
  using ex_mock_manifest_ok ex_shard_key
  by (auto simp: sys_ok_def ex_sys_def store_ok_def manifests_ok_def empty_heap_def ch_ok_def ch_handles_def
      sm_wf_def ex_mock_manifest_def ex_mock_index_def sm_load_Cons split: if_splits)

lemma ex_sys_manifest: "sm_load (im_manifests (sy_mgr (ex_sys md es ps))) ''docs'' = Some ex_mock_manifest"
  by (simp add: ex_sys_def sm_load_def)

lemma ex_needs: "needs_shard (ex_view b) ex_mock_manifest u \<longleftrightarrow> b"
  by (auto simp: needs_shard_def ex_view_def ex_mock_manifest_def)

theorem rebalance_settles_witness:
  "\<exists>s'. rebalance (\<lambda>sh. ex_world ''5'') (ex_view False) (ex_sys ClusterMode [(''docs:0'', ex_mock_index)] []) = Ret s' \<and>
     engine s' ''docs:0'' = None"
proof -
  have "ex_shard \<in> set (unique_shards ex_mock_manifest)" by (simp add: ex_unique_shards)
  moreover obtain s' where s': "rebalance (\<lambda>sh. ex_world ''5'') (ex_view False) (ex_sys ClusterMode [(''docs:0'', ex_mock_index)] []) = Ret s'"
    "\<forall>name m u. sm_load (im_manifests (sy_mgr (ex_sys ClusterMode [(''docs:0'', ex_mock_index)] []))) name = Some m \<and>
       u \<in> set (unique_shards m) \<longrightarrow> (engine s' (unique_shard_key u) \<noteq> None \<longrightarrow> needs_shard (ex_view False) m u)"
    using rebalance_settles [OF ex_sys_ok(2) [of ClusterMode "[]"], of "\<lambda>sh. ex_world ''5''" "ex_view False"] by blast
  ultimately have "engine s' (unique_shard_key ex_shard) = None"
    using ex_sys_manifest ex_needs [of False] by blast
  with s'(1) show ?thesis unfolding ex_shard_key by blast
qed

theorem rebalance_keeps_pending_witness:
  "\<exists>s'. rebalance (\<lambda>sh. ex_world ''5'') (ex_view True) (ex_sys ClusterMode [] [(ex_shard, True)]) = Ret s' \<and>
     get_status (sy_pkg s') = Unhealthy"
  using rebalance_keeps_pending [OF ex_sys_ok(1) [of ClusterMode "[(ex_shard, True)]"], of ex_shard "ex_view True" "\<lambda>sh. ex_world ''5''"]
  by (auto simp: ex_sys_def sm_keys_def ex_view_def)


theorem delete_index_releases_witness:
  "\<exists>s' n. delete_index ''docs'' (ex_sys Single [(''docs:0'', ex_mock_index)] []) = Ret (s', n) \<and> engine s' ''docs:0'' = None"
proof -
  have "''docs:0'' \<in> unique_shard_key ` set (unique_shards ex_mock_manifest)"
    by (simp add: ex_unique_shards ex_shard_key)
  moreover obtain s' n where "delete_index ''docs'' (ex_sys Single [(''docs:0'', ex_mock_index)] []) = Ret (s', n)"
    "\<forall>k. engine s' k = (if k \<in> unique_shard_key ` set (unique_shards ex_mock_manifest) then None
       else engine (ex_sys Single [(''docs:0'', ex_mock_index)] []) k)"
    using delete_index_releases [OF ex_sys_ok(2) [of Single "[]"] ex_sys_manifest] by blast
  ultimately show ?thesis by simp
qed


theorem init_manager_reports_witness:
  "\<exists>s' e. init_manager (\<lambda>sh. ex_world ''5'') (\<lambda>v. v) None Single (Inr [Some ex_mock_manifest, None]) (ex_sys Single [] []) = Ret (s', e) \<and>
     sm_load (im_manifests (sy_mgr s')) ''docs'' \<noteq> None"
proof -
  have "ch_ok (sy_heap (ex_sys Single [] []))" by (simp add: ex_sys_def ch_ok_def empty_heap_def ch_handles_def)
  moreover have "meta_name (mf_meta ex_mock_manifest) = ''docs''" by (simp add: ex_mock_manifest_def)
  ultimately show ?thesis
    using init_manager_reports [of "ex_sys Single [] []" None Single "[Some ex_mock_manifest, None]" "\<lambda>v. v" "\<lambda>sh. ex_world ''5''"]
      ex_mock_manifest_ok by force
qed

end
