(* ===== verification/Commit.thy ===== *)
theory Commit
  imports Manager
begin

text \<open>
  \<open>internal/engine/manager.go\<close>, the cluster part: how a new revision of an index is activated on
  all nodes together.  A shard's reload stages the new revision and signals; when all the shards of
  the index on a node are staged, the node writes its ready key; when all the owners of the index are
  ready, the commit key is written, and every node commits what it has staged.
\<close>

section \<open>Owners and readiness\<close>

text \<open>\<open>nodesOwningIndex\<close>: a set of node names, as a list without repetition; empty without a manifest or a cluster manager.\<close>

definition nodes_owning_index :: "cluster_view option \<Rightarrow> sys \<Rightarrow> string \<Rightarrow> string list run" where
  "nodes_owning_index cv s name =
     (case sm_load (im_manifests (sy_mgr s)) name of
       None \<Rightarrow> Ret []
     | Some m \<Rightarrow>
         (case cv of
           None \<Rightarrow> Ret []
         | Some c \<Rightarrow> run_map (\<lambda>shs. remdups (filter (\<lambda>n. n \<noteq> '''') (map (\<lambda>sh. cv_owner_node c (shard_key sh)) shs)))
             (generate_shards m)))"

text \<open>The node of a ready key is its last path segment; a value that does not decode is passed over.\<close>

definition ready_nodes :: "'v codec \<Rightarrow> (string \<times> 'v) list \<Rightarrow> (string, int) smap" where
  "ready_nodes cd kvs =
     foldl (\<lambda>m (k, v). case dec_revision cd v of
         None \<Rightarrow> m | Some r \<Rightarrow> sm_store (last (split_on CHR ''/'' k)) r m) [] kvs"

definition check_and_commit ::
    "'v codec \<Rightarrow> ('e, 'v) etcd_ops \<Rightarrow> string \<Rightarrow> cluster_view option \<Rightarrow> sys \<Rightarrow> string \<Rightarrow> int \<Rightarrow> 'e \<Rightarrow>
     ('e \<times> error option) run" where
  "check_and_commit cd et rt cv s name rv st =
     run_bind (nodes_owning_index cv s name) (\<lambda>owners.
       if owners = [] then Ret (st, None)
       else (case et_get_prefix et (revision_ready_path_prefix rt name) st of
         Inl e \<Rightarrow> Ret (st, Some (ErrWrap ''read ready keys'' e))
       | Inr kvs \<Rightarrow>
           if list_all (\<lambda>n. sm_load (ready_nodes cd kvs) n = Some rv) owners then
             (case et_put et (revision_commit_path rt name) (enc_revision cd rv) None st of
               (st', Some e) \<Rightarrow> Ret (st', Some (ErrWrap ''write commit key'' e))
             | (st', None) \<Rightarrow> Ret (st', None))
           else Ret (st, None)))"

text \<open>A loaded FAISS shard has staged something else than \<open>rv\<close>; mock shards do not take part.\<close>

definition not_staged_at :: "sys \<Rightarrow> int \<Rightarrow> shard \<Rightarrow> bool" where
  "not_staged_at s rv u =
     (case sm_load (im_engine_store (sy_mgr s)) (unique_shard_key u) of
       Some (FaissIx fx) \<Rightarrow> staged_revision fx \<noteq> rv
     | _ \<Rightarrow> False)"

definition signal_ready ::
    "'v codec \<Rightarrow> ('e, 'v) etcd_ops \<Rightarrow> string \<Rightarrow> cluster_view option \<Rightarrow> sys \<Rightarrow> string \<Rightarrow> int \<Rightarrow> 'e \<Rightarrow>
     ('e \<times> error option) run" where
  "signal_ready cd et rt cv s name rv st =
     (case sm_load (im_manifests (sy_mgr s)) name of
       None \<Rightarrow> Ret (st, Some (ErrText (''index '' @ name @ '' not found in manifests'')))
     | Some m \<Rightarrow>
         run_bind (generate_unique_shards m) (\<lambda>us.
           if list_ex (not_staged_at s rv) us then Ret (st, None)
           else (case cv of
             None \<Rightarrow> Panic NilDereference
           | Some c \<Rightarrow>
               (case cv_lease c of
                 None \<Rightarrow> Panic NilDereference
               | Some lease \<Rightarrow>
                   (case et_put et (revision_ready_path rt name (cv_node_id c)) (enc_revision cd rv) (Some lease) st of
                     (st', Some e) \<Rightarrow> Ret (st', Some (ErrWrap ''write ready key'' e))
                   | (st', None) \<Rightarrow> check_and_commit cd et rt cv s name rv st')))))"

section \<open>Committing\<close>

text \<open>One shard: what cannot be committed is logged and left as it is.\<close>

definition commit_shard :: "int \<Rightarrow> shard \<Rightarrow> sys \<Rightarrow> sys run" where
  "commit_shard rv u s =
     (case sm_load (im_engine_store (sy_mgr s)) (unique_shard_key u) of
       Some (FaissIx fx) \<Rightarrow>
         run_map (\<lambda>(h, fx', e). case e of
             Some e \<Rightarrow> s\<lparr>sy_heap := h\<rparr> | None \<Rightarrow> store_index (unique_shard_key u) (FaissIx fx') h s)
           (commit_staged rv (sy_heap s) fx)
     | _ \<Rightarrow> Ret s)"

definition commit_index ::
    "('e, 'v) etcd_ops \<Rightarrow> string \<Rightarrow> cluster_view option \<Rightarrow> string \<Rightarrow> int \<Rightarrow> sys \<Rightarrow> 'e \<Rightarrow> (sys \<times> 'e) run" where
  "commit_index et rt cv name rv s st =
     (case sm_load (im_manifests (sy_mgr s)) name of
       None \<Rightarrow> Ret (s, st)
     | Some m \<Rightarrow>
         run_bind (generate_unique_shards m) (\<lambda>us.
           run_map (\<lambda>s'. (s', case cv of
               None \<Rightarrow> st
             | Some c \<Rightarrow> fst (et_delete et (revision_ready_path rt name (cv_node_id c)) st)))
             (run_fold (commit_shard rv) us s)))"

definition parse_index_name_from_commit_key :: "string \<Rightarrow> string \<Rightarrow> string" where
  "parse_index_name_from_commit_key rt key =
     (let pre = revision_commit_path_prefix rt in
      if \<not> prefix pre key then ''''
      else (let parts = splitn2 CHR ''/'' (trim_prefix key (pre @ ''/'')) in
        if length parts < 2 \<or> parts ! 1 \<noteq> ''commit'' then '''' else parts ! 0))"

text \<open>One event of the watch on the commit keys.\<close>

definition handle_commit_event ::
    "'v codec \<Rightarrow> ('e, 'v) etcd_ops \<Rightarrow> string \<Rightarrow> cluster_view option \<Rightarrow> 'v event \<Rightarrow> sys \<Rightarrow> 'e \<Rightarrow> (sys \<times> 'e) run" where
  "handle_commit_event cd et rt cv ev s st =
     (if ev_type ev = DeleteEvent then Ret (s, st)
      else (let name = parse_index_name_from_commit_key rt (ev_key ev) in
        if name = '''' then Ret (s, st)
        else (case dec_revision cd (ev_value ev) of
          None \<Rightarrow> Ret (s, st)
        | Some rv \<Rightarrow> commit_index et rt cv name rv s st)))"

section \<open>The scheduled reload\<close>

text \<open>
  What the cron entry of a loaded shard does: its callback, either the immediate \<open>Reload\<close> or the closure
  of \<open>setClusterReloadCallback\<close>, which stages and, if that succeeds, signals.
\<close>

definition store_shard :: "string \<Rightarrow> c_heap \<times> faiss_index \<Rightarrow> sys \<Rightarrow> sys" where
  "store_shard key hf s = store_index key (FaissIx (snd hf)) (fst hf) s"

definition fire_reload ::
    "'v codec \<Rightarrow> ('e, 'v) etcd_ops \<Rightarrow> string \<Rightarrow> cluster_view option \<Rightarrow> world \<Rightarrow> world \<Rightarrow> string \<Rightarrow> sys \<Rightarrow> 'e \<Rightarrow>
     (sys \<times> 'e \<times> error option) run" where
  "fire_reload cd et rt cv w w' key s st =
     (case sm_load (im_engine_store (sy_mgr s)) key of
       Some (FaissIx fx) \<Rightarrow>
         (case fx_reload_callback fx of
           ReloadSelf \<Rightarrow>
             run_map (\<lambda>(h, fx', e). (store_shard key (h, fx') s, st, e)) (faiss_reload w w' (sy_heap s) fx)
         | StageAndSignal name \<Rightarrow>
             run_bind (stage_reload w w' (sy_heap s) fx) (\<lambda>(h, fx', r).
               let s' = store_shard key (h, fx') s in
               case r of
                 Inl e \<Rightarrow> Ret (s', st, Some e)
               | Inr rv \<Rightarrow> run_map (\<lambda>(st', e). (s', st', e)) (signal_ready cd et rt cv s' name rv st)))
     | _ \<Rightarrow> Ret (s, st, None))"

section \<open>Lemmas\<close>

lemma prefix_append_self [simp]: "prefix xs (xs @ ys)"
  by (simp add: prefix_def)

lemma parse_commit_path:
  "parse_index_name_from_commit_key rt (revision_commit_path rt name) = (if CHR ''/'' \<in> set name then '''' else name)"
proof -
  have p: "revision_commit_path rt name = (revision_commit_path_prefix rt @ ''/'') @ name @ ''/commit''"
    by (simp add: revision_commit_path_def revision_commit_path_prefix_def)
  have t: "trim_prefix (revision_commit_path rt name) (revision_commit_path_prefix rt @ ''/'') = name @ ''/commit''"
    unfolding p by (rule trim_prefix_append)
  have pre: "prefix (revision_commit_path_prefix rt) (revision_commit_path rt name)"
    unfolding p append_assoc by (rule prefix_append_self)
  show ?thesis
  proof (cases "CHR ''/'' \<in> set name")
    case False
    then have "splitn2 CHR ''/'' (name @ CHR ''/'' # ''commit'') = [name, ''commit'']" by simp
    with t pre False show ?thesis by (simp add: parse_index_name_from_commit_key_def Let_def)
  next
    case True
    then obtain a b where ab: "name = a @ CHR ''/'' # b" "CHR ''/'' \<notin> set a" by (metis split_list_first)
    then have "splitn2 CHR ''/'' (name @ ''/commit'') = [a, b @ ''/commit'']" by simp
    moreover have "b @ ''/commit'' \<noteq> ''commit''"
    proof
      assume "b @ ''/commit'' = ''commit''"
      then have "length (b @ ''/commit'') = length ''commit''" by (simp only:)
      then show False by simp
    qed
    ultimately show ?thesis using t pre True by (simp add: parse_index_name_from_commit_key_def Let_def)
  qed
qed

text \<open>What the ready keys say, when each is the key of one node.\<close>

lemma ready_nodes_load:
  assumes "\<And>k v. (k, v) \<in> set kvs \<Longrightarrow> \<exists>n. k = revision_ready_path rt name n \<and> CHR ''/'' \<notin> set n"
    and "distinct (map fst kvs)"
  shows "sm_load (ready_nodes cd kvs) n = Some r \<longleftrightarrow>
    CHR ''/'' \<notin> set n \<and> (\<exists>v. (revision_ready_path rt name n, v) \<in> set kvs \<and> dec_revision cd v = Some r)"
proof -
  have last_seg: "last (split_on CHR ''/'' (revision_ready_path rt name n)) = n" if "CHR ''/'' \<notin> set n" for n
    using that last_split_on [of "CHR ''/''" n "revision_ready_path_prefix rt name"]
    by (simp add: revision_ready_path_def)
  have inj: "n = n'" if "revision_ready_path rt name n = revision_ready_path rt name n'" for n n'
    using that by (simp add: revision_ready_path_def)
  show ?thesis
    using assms
  proof (induction kvs arbitrary: r rule: rev_induct)
    case Nil
    then show ?case by (simp add: ready_nodes_def)
  next
    case (snoc kv kvs)
    obtain k v where kv: "kv = (k, v)" by fastforce
    obtain n' where n': "k = revision_ready_path rt name n'" "CHR ''/'' \<notin> set n'"
      using snoc.prems(1) [of k v] kv by auto
    have IH: "sm_load (ready_nodes cd kvs) n = Some r \<longleftrightarrow>
        CHR ''/'' \<notin> set n \<and> (\<exists>v. (revision_ready_path rt name n, v) \<in> set kvs \<and> dec_revision cd v = Some r)" for r
    proof (rule snoc.IH)
      show "\<exists>n. k = revision_ready_path rt name n \<and> CHR ''/'' \<notin> set n" if "(k, v) \<in> set kvs" for k v
        using snoc.prems(1) [of k v] that by simp
      show "distinct (map fst kvs)" using snoc.prems(2) by simp
    qed
    have step: "ready_nodes cd (kvs @ [kv]) = (case dec_revision cd v of None \<Rightarrow> ready_nodes cd kvs
        | Some r \<Rightarrow> sm_store n' r (ready_nodes cd kvs))"
      using n' last_seg by (cases "dec_revision cd v") (simp_all add: ready_nodes_def kv)
    have new: "(revision_ready_path rt name n', v') \<notin> set kvs" for v'
      using snoc.prems(2) kv n'(1) by (force simp: image_iff)
    show ?case
    proof (cases "n = n'")
      case True
      then show ?thesis
        using step IH new n' kv by (cases "dec_revision cd v") auto
    next
      case False
      then have "revision_ready_path rt name n \<noteq> k" using inj n'(1) by blast
      with False show ?thesis using step IH kv by (cases "dec_revision cd v") auto
    qed
  qed
qed

section \<open>What is served and what is staged\<close>

definition served :: "sys \<Rightarrow> string \<Rightarrow> (int \<times> faiss_data option) option" where
  "served s k = (case sm_load (im_engine_store (sy_mgr s)) k of
     Some (FaissIx fx) \<Rightarrow> Some (fx_serving (sy_heap s, fx)) | _ \<Rightarrow> None)"

definition staged_of :: "sys \<Rightarrow> string \<Rightarrow> (int \<times> faiss_data option) option" where
  "staged_of s k = (case sm_load (im_engine_store (sy_mgr s)) k of
     Some (FaissIx fx) \<Rightarrow> fx_staged (sy_heap s, fx) | _ \<Rightarrow> None)"

definition staged_at :: "sys \<Rightarrow> int \<Rightarrow> string \<Rightarrow> bool" where
  "staged_at s rv k \<longleftrightarrow> (\<exists>d. staged_of s k = Some (rv, d))"

lemma fx_views_frame:
  assumes "ch_frame own h h'" "fx_ok h fx" "fx_owned fx \<inter> own = {}"
  shows "fx_serving (h', fx) = fx_serving (h, fx)" "fx_staged (h', fx) = fx_staged (h, fx)"
proof -
  have "sm_load (ch_live h') i = sm_load (ch_live h) i" if "i \<in> fx_owned fx" for i
    using that assms owned_below [of h "FaissIx fx" i] by (auto simp: ch_frame_def)
  then show "fx_serving (h', fx) = fx_serving (h, fx)" "fx_staged (h', fx) = fx_staged (h, fx)"
    by (auto simp: fx_serving_def fx_staged_def fx_data_def fx_owned_def split: option.splits)
qed

text \<open>Replacing one FAISS shard leaves what the others serve and stage.\<close>

lemma views_replace:
  assumes ok: "store_ok (sy_heap s) (im_engine_store (sy_mgr s))" and ld: "engine s k = Some (FaissIx fx)"
    and fr: "ch_frame (fx_owned fx) (sy_heap s) h'"
  shows "served (store_index k (FaissIx fx') h' s) k' = (if k' = k then Some (fx_serving (h', fx')) else served s k')"
    and "staged_of (store_index k (FaissIx fx') h' s) k' = (if k' = k then fx_staged (h', fx') else staged_of s k')"
proof -
  have keep: "fx_serving (h', gx) = fx_serving (sy_heap s, gx)" "fx_staged (h', gx) = fx_staged (sy_heap s, gx)"
    if "k' \<noteq> k" "engine s k' = Some (FaissIx gx)" for gx
    using fx_views_frame [OF fr] store_okD(3) [OF ok that(2)] store_okD(5) [OF ok that(2) ld that(1)] by simp_all
  show "served (store_index k (FaissIx fx') h' s) k' = (if k' = k then Some (fx_serving (h', fx')) else served s k')"
    "staged_of (store_index k (FaissIx fx') h' s) k' = (if k' = k then fx_staged (h', fx') else staged_of s k')"
    using keep by (auto simp: served_def staged_of_def split: option.splits index.splits)
qed

lemma store_ok_own:
  assumes "store_ok (sy_heap s) (im_engine_store (sy_mgr s))" "engine s k = Some (FaissIx fx)"
    and "ch_frame (fx_owned fx) (sy_heap s) h'" "fx_ok h' fx'" "fx_shard fx' = fx_shard fx"
    and "fx_owned fx' \<subseteq> fx_owned fx \<union> {i. ch_next (sy_heap s) \<le> i}"
  shows "store_ok h' (sm_store k (FaissIx fx') (im_engine_store (sy_mgr s)))"
proof (rule store_ok_replace [OF assms(1,3)])
  show "unique_shard_key (index_shard (FaissIx fx')) = k"
    using store_okD(4) [OF assms(1,2)] assms(5) by simp
  show "index_owned ix' \<inter> fx_owned fx = {}" if "k' \<noteq> k" "engine s k' = Some ix'" for k' ix'
    using store_okD(5) [OF assms(1) that(2) assms(2) that(1)] by simp
qed (use assms in auto)

lemma commit_staged_shard: "commit_staged r h fx = Ret (h', fx', e) \<Longrightarrow> fx_shard fx' = fx_shard fx"
  by (auto simp: commit_staged_def run_bind_eq_Ret split: option.splits if_splits)

definition committed :: "int \<Rightarrow> sys \<Rightarrow> sys \<Rightarrow> string set \<Rightarrow> bool" where
  "committed rv s s' ks \<longleftrightarrow>
     sys_ok s' \<and> im_manifests (sy_mgr s') = im_manifests (sy_mgr s) \<and> im_pending (sy_mgr s') = im_pending (sy_mgr s) \<and>
     sy_pkg s' = sy_pkg s \<and> (\<forall>k. engine s' k = None \<longleftrightarrow> engine s k = None) \<and>
     (\<forall>k. served s' k = (if k \<in> ks \<and> staged_at s rv k then staged_of s k else served s k)) \<and>
     (\<forall>k. staged_of s' k = (if k \<in> ks \<and> staged_at s rv k then None else staged_of s k))"

lemma committed_refl: "sys_ok s \<Longrightarrow> (\<And>k. k \<in> ks \<Longrightarrow> \<not> staged_at s rv k) \<Longrightarrow> committed rv s s ks"
  by (auto simp: committed_def)

lemma commit_shard_ok:
  assumes "sys_ok s"
  shows "\<exists>s'. commit_shard rv u s = Ret s' \<and> committed rv s s' {unique_shard_key u}"
proof (cases "\<exists>fx. engine s (unique_shard_key u) = Some (FaissIx fx)")
  case False
  then have "commit_shard rv u s = Ret s"
    by (auto simp: commit_shard_def split: option.splits index.splits)
  moreover have "\<not> staged_at s rv (unique_shard_key u)"
    using False by (auto simp: staged_at_def staged_of_def split: option.splits index.splits)
  ultimately show ?thesis using committed_refl [OF assms] by blast
next
  case True
  let ?k = "unique_shard_key u"
  from True obtain fx where fx: "engine s ?k = Some (FaissIx fx)" by blast
  have ok: "store_ok (sy_heap s) (im_engine_store (sy_mgr s))" using assms by (simp add: sys_ok_def)
  have fok: "fx_ok (sy_heap s) fx" using store_okD(3) [OF ok fx] by simp
  have sg: "staged_of s ?k = fx_staged (sy_heap s, fx)" by (simp add: staged_of_def fx)
  show ?thesis
  proof (cases rule: commit_staged_cases [OF fok, of rv])
    case (1 h' j)
    define fx' where "fx' = fx\<lparr>fx_index := Some j, fx_revision := rv, fx_staged_index := None, fx_staged_revision := 0\<rparr>"
    have c: "commit_staged rv (sy_heap s) fx = Ret (h', fx', None)" using 1(3) by (simp add: fx'_def)
    note f = commit_staged_frame [OF fok c]
    let ?s' = "store_index ?k (FaissIx fx') h' s"
    have "staged_at s rv ?k" unfolding staged_at_def sg using f(4,6) by (simp add: fx_serving_def)
    moreover have "sys_ok ?s'"
      using assms store_ok_own [OF ok fx f(2,1) commit_staged_shard [OF c]] f(3) by (auto simp: sys_ok_def)
    moreover have "\<forall>k. engine ?s' k = None \<longleftrightarrow> engine s k = None" using fx by auto
    ultimately have "committed rv s ?s' {?k}"
      using views_replace [OF ok fx f(2)] sg f(4,5) by (simp add: committed_def)
    moreover have "commit_shard rv u s = Ret ?s'" using fx c by (simp add: commit_shard_def)
    ultimately show ?thesis by blast
  next
    case (2 e)
    have "commit_shard rv u s = Ret s" using fx 2(1) by (simp add: commit_shard_def)
    moreover have "\<not> staged_at s rv ?k"
      unfolding staged_at_def sg using 2(2) by (auto simp: fx_staged_def split: option.splits)
    ultimately show ?thesis using committed_refl [OF assms] by blast
  qed
qed

lemma committed_trans:
  assumes "committed rv s s1 ks" "committed rv s1 s2 ks'" "ks \<inter> ks' = {}"
  shows "committed rv s s2 (ks \<union> ks')"
  using assms unfolding committed_def staged_at_def by (auto split: if_splits)

lemma commit_shards_ok:
  "sys_ok s \<Longrightarrow> distinct (map unique_shard_key us) \<Longrightarrow>
   \<exists>s'. run_fold (commit_shard rv) us s = Ret s' \<and> committed rv s s' (unique_shard_key ` set us)"
proof (induction us arbitrary: s)
  case Nil
  then show ?case using committed_refl [of s "{}"] by simp
next
  case (Cons u us)
  from commit_shard_ok [OF Cons.prems(1)] obtain s1 where
    1: "commit_shard rv u s = Ret s1" "committed rv s s1 {unique_shard_key u}" by blast
  from Cons.IH [of s1] 1(2) Cons.prems(2) obtain s2 where
    2: "run_fold (commit_shard rv) us s1 = Ret s2" "committed rv s1 s2 (unique_shard_key ` set us)"
    by (auto simp: committed_def)
  have "committed rv s s2 ({unique_shard_key u} \<union> unique_shard_key ` set us)"
    using committed_trans [OF 1(2) 2(2)] Cons.prems(2) by auto
  with 1(1) 2(1) show ?case by simp
qed

lemma commit_index_ok:
  assumes "sys_ok s" "sm_load (im_manifests (sy_mgr s)) name = Some m"
  shows "\<exists>s'. commit_index et rt cv name rv s st = Ret (s', case cv of None \<Rightarrow> st
      | Some c \<Rightarrow> fst (et_delete et (revision_ready_path rt name (cv_node_id c)) st)) \<and>
    committed rv s s' (unique_shard_key ` set (unique_shards m))"
proof -
  have mok: "manifest_ok m" using assms by (auto simp: sys_ok_def manifests_ok_def)
  from commit_shards_ok [OF assms(1) unique_shards_distinct [OF mok]] obtain s' where
    "run_fold (commit_shard rv) (unique_shards m) s = Ret s'"
    "committed rv s s' (unique_shard_key ` set (unique_shards m))" by blast
  then show ?thesis
    using assms(2) generate_unique_shards_eq [OF mok] by (simp add: commit_index_def)
qed

text \<open>A commit event for a known index commits its shards and deletes the node's ready key.\<close>

lemma commit_event_committed:
  assumes "sys_ok s" "sm_load (im_manifests (sy_mgr s)) name = Some m" "name \<noteq> ''''" "CHR ''/'' \<notin> set name"
    and "ev_type ev = PutEvent" "ev_key ev = revision_commit_path rt name" "dec_revision cd (ev_value ev) = Some rv"
  shows "\<exists>s'. handle_commit_event cd et rt (Some c) ev s st =
      Ret (s', fst (et_delete et (revision_ready_path rt name (cv_node_id c)) st)) \<and>
    committed rv s s' (unique_shard_key ` set (unique_shards m))"
proof -
  have "parse_index_name_from_commit_key rt (ev_key ev) = name"
    using assms(4,6) parse_commit_path [of rt name] by simp
  then have "handle_commit_event cd et rt (Some c) ev s st = commit_index et rt (Some c) name rv s st"
    using assms(3,5,7) by (simp add: handle_commit_event_def Let_def)
  with commit_index_ok [OF assms(1,2), of et rt "Some c" rv st] show ?thesis by auto
qed

section \<open>Signalling\<close>

lemma nodes_owning_Ret:
  assumes "sys_ok s"
  shows "\<exists>owners. nodes_owning_index cv s name = Ret owners"
proof (cases "sm_load (im_manifests (sy_mgr s)) name")
  case None
  then show ?thesis by (simp add: nodes_owning_index_def)
next
  case (Some m)
  then obtain shs where "generate_shards m = Ret shs"
    using assms generate_Ret [of m] by (auto simp: sys_ok_def manifests_ok_def)
  with Some show ?thesis by (auto simp: nodes_owning_index_def split: option.splits)
qed

lemma check_and_commit_Ret: "sys_ok s \<Longrightarrow> \<exists>st' e. check_and_commit cd et rt cv s name rv st = Ret (st', e)"
  using nodes_owning_Ret [of s cv name]
  by (auto simp: check_and_commit_def split: sum.splits prod.splits option.splits)

lemma signal_ready_Ret:
  assumes "sys_ok s" "cv_lease c = Some lease"
  shows "\<exists>st' e. signal_ready cd et rt (Some c) s name rv st = Ret (st', e)"
proof (cases "sm_load (im_manifests (sy_mgr s)) name")
  case None
  then show ?thesis by (simp add: signal_ready_def)
next
  case (Some m)
  then have "generate_unique_shards m = Ret (unique_shards m)"
    using assms(1) generate_unique_shards_eq [of m] by (auto simp: sys_ok_def manifests_ok_def)
  with Some assms(2) show ?thesis
    using check_and_commit_Ret [OF assms(1)]
    by (auto simp: signal_ready_def split: prod.splits option.splits)
qed

text \<open>A stored staging: the other shards and everything served stay.\<close>

lemma staged_store:
  assumes "sys_ok s" "engine s k = Some (FaissIx fx)" "staged_state d r (sy_heap s) fx = (h', fx')"
  shows "sys_ok (store_shard k (h', fx') s)" "served (store_shard k (h', fx') s) = served s"
    "staged_of (store_shard k (h', fx') s) k' = (if k' = k then Some (r, Some d) else staged_of s k')"
proof -
  have ok: "store_ok (sy_heap s) (im_engine_store (sy_mgr s))" using assms(1) by (simp add: sys_ok_def)
  have fok: "fx_ok (sy_heap s) fx" using store_okD(3) [OF ok assms(2)] by simp
  note f = staged_state_frame [OF fok assms(3)]
  have sh: "fx_shard fx' = fx_shard fx" using assms(3) by (auto simp: staged_state_def Let_def)
  show "sys_ok (store_shard k (h', fx') s)"
    using assms(1) store_ok_own [OF ok assms(2) f(2,1) sh] f(3) by (auto simp: sys_ok_def store_shard_def)
  show "served (store_shard k (h', fx') s) = served s"
  proof
    fix k'
    show "served (store_shard k (h', fx') s) k' = served s k'"
      using views_replace(1) [OF ok assms(2) f(2), of fx' k'] f(4) assms(2)
      by (simp add: store_shard_def served_def)
  qed
  show "staged_of (store_shard k (h', fx') s) k' = (if k' = k then Some (r, Some d) else staged_of s k')"
    using views_replace(2) [OF ok assms(2) f(2), of fx' k'] f(5) by (simp add: store_shard_def)
qed

lemma store_same:
  assumes "sys_ok s" "engine s k = Some (FaissIx fx)"
  shows "sys_ok (store_shard k (sy_heap s, fx) s)" "served (store_shard k (sy_heap s, fx) s) = served s"
    "staged_of (store_shard k (sy_heap s, fx) s) = staged_of s"
proof -
  have e: "engine (store_shard k (sy_heap s, fx) s) k' = engine s k'" for k'
    using assms(2) by (simp add: store_shard_def)
  have h: "sy_heap (store_shard k (sy_heap s, fx) s) = sy_heap s" by (simp add: store_shard_def)
  have ok: "store_ok (sy_heap s) (im_engine_store (sy_mgr s))" using assms(1) by (simp add: sys_ok_def)
  have "store_ok (sy_heap s) (sm_store k (FaissIx fx) (im_engine_store (sy_mgr s)))"
    using store_ok_own [OF ok assms(2) ch_frame_refl [OF store_okD(1) [OF ok]]] store_okD(3) [OF ok assms(2)] by simp
  then show "sys_ok (store_shard k (sy_heap s, fx) s)"
    using assms(1) by (simp add: sys_ok_def store_shard_def)
  show "served (store_shard k (sy_heap s, fx) s) = served s" "staged_of (store_shard k (sy_heap s, fx) s) = staged_of s"
    unfolding served_def staged_of_def e h by (rule refl)+
qed

lemma fire_reload_staging:
  assumes "sys_ok s" "engine s key = Some (FaissIx fx)" "fx_reload_callback fx = StageAndSignal name"
    and "cv_lease c = Some lease"
  shows "\<exists>s' st' e. fire_reload cd et rt (Some c) w w' key s st = Ret (s', st', e) \<and> sys_ok s' \<and>
    served s' = served s \<and> (\<forall>k. k \<noteq> key \<longrightarrow> staged_of s' k = staged_of s k) \<and>
    im_manifests (sy_mgr s') = im_manifests (sy_mgr s) \<and>
    (st' = st \<or> (\<exists>r e'. signal_ready cd et rt (Some c) s' name r st = Ret (st', e')))"
proof -
  have man: "im_manifests (sy_mgr (store_shard key hf s)) = im_manifests (sy_mgr s)" for hf
    by (simp add: store_shard_def)
  have fok: "fx_ok (sy_heap s) fx" using store_okD(3) [of "sy_heap s"] assms(1,2) by (fastforce simp: sys_ok_def)
  show ?thesis
  proof (cases rule: stage_reload_cases [OF fok, of w w'])
    case (1 e)
    then show ?thesis
      using assms(2,3) store_same [OF assms(1,2)] man by (simp add: fire_reload_def)
  next
    case (2 dl p r d)
    obtain h' fx' where s: "staged_state d r (sy_heap s) fx = (h', fx')" by fastforce
    note st = staged_store [OF assms(1,2) s]
    obtain st1 e where sg: "signal_ready cd et rt (Some c) (store_shard key (h', fx') s) name r st = Ret (st1, e)"
      using signal_ready_Ret [OF st(1) assms(4), of cd et rt name r] by blast
    then have "fire_reload cd et rt (Some c) w w' key s st = Ret (store_shard key (h', fx') s, st1, e)"
      using assms(2,3) 2(4) s by (simp add: fire_reload_def Let_def)
    with st sg man show ?thesis by auto
  qed
qed

lemma not_staged_at_iff:
  assumes "sys_ok s" "rv \<noteq> 0"
  shows "not_staged_at s rv u \<longleftrightarrow> served s (unique_shard_key u) \<noteq> None \<and> \<not> staged_at s rv (unique_shard_key u)"
proof (cases "\<exists>fx. engine s (unique_shard_key u) = Some (FaissIx fx)")
  case True
  then obtain fx where fx: "engine s (unique_shard_key u) = Some (FaissIx fx)" by blast
  have "fx_ok (sy_heap s) fx" using store_okD(3) [OF _ fx] assms(1) by (auto simp: sys_ok_def)
  then have "fx_staged_revision fx = rv \<longleftrightarrow> (\<exists>d. fx_staged (sy_heap s, fx) = Some (rv, d))"
    using assms(2) by (auto simp: fx_ok_def fx_staged_def split: option.splits)
  with fx show ?thesis by (simp add: not_staged_at_def served_def staged_at_def staged_of_def staged_revision_def)
next
  case False
  then show ?thesis by (auto simp: not_staged_at_def served_def split: option.splits index.splits)
qed

lemma parse_ready_path: "parse_index_name_from_commit_key rt (revision_ready_path rt name node) = ''''"
proof -
  let ?key = "revision_ready_path rt name node"
  have p: "?key = (revision_commit_path_prefix rt @ ''/'') @ name @ ''/ready/'' @ node"
    by (simp add: revision_ready_path_def revision_ready_path_prefix_def revision_commit_path_prefix_def)
  have t: "trim_prefix ?key (revision_commit_path_prefix rt @ ''/'') = name @ ''/ready/'' @ node"
    unfolding p by (rule trim_prefix_append)
  have "\<exists>a b. splitn2 CHR ''/'' (name @ ''/ready/'' @ node) = [a, b] \<and> b \<noteq> ''commit''"
  proof (cases "CHR ''/'' \<in> set name")
    case False
    then have "splitn2 CHR ''/'' (name @ CHR ''/'' # ''ready/'' @ node) = [name, ''ready/'' @ node]" by simp
    then show ?thesis by simp
  next
    case True
    then obtain a b where ab: "name = a @ CHR ''/'' # b" "CHR ''/'' \<notin> set a" by (metis split_list_first)
    have "b @ ''/ready/'' @ node \<noteq> ''commit''"
    proof
      assume "b @ ''/ready/'' @ node = ''commit''"
      then have "set (b @ ''/ready/'' @ node) = set ''commit''" by (simp only:)
      moreover have "CHR ''/'' \<in> set (b @ ''/ready/'' @ node)" by simp
      ultimately show False by (simp del: set_append)
    qed
    moreover have "splitn2 CHR ''/'' (name @ ''/ready/'' @ node) = [a, b @ ''/ready/'' @ node]"
      using ab by simp
    ultimately show ?thesis by blast
  qed
  then obtain a b where "splitn2 CHR ''/'' (name @ ''/ready/'' @ node) = [a, b]" "b \<noteq> ''commit''" by blast
  then show "parse_index_name_from_commit_key rt ?key = ''''"
    unfolding parse_index_name_from_commit_key_def Let_def t by simp
qed

section \<open>Properties\<close>

text \<open>C14: A scheduled reload in cluster mode never changes what the node serves.  Whatever the source answers and whatever happens
  in etcd, the call returns without a fault, every shard serves exactly what it served, revision and data, and
  only the reloaded shard's staging may change.\<close>

theorem staging_keeps_serving:
  assumes "sys_ok s" "engine s key = Some (FaissIx fx)" "fx_reload_callback fx = StageAndSignal name"
    and "cv_lease c = Some lease"
  shows "\<exists>s' st' e. fire_reload cd et rt (Some c) w w' key s st = Ret (s', st', e) \<and> sys_ok s' \<and>
    served s' = served s \<and> (\<forall>k. k \<noteq> key \<longrightarrow> staged_of s' k = staged_of s k)"
  using fire_reload_staging [OF assms, where cd = cd and et = et and rt = rt and w = w and w' = w' and st = st]
  by (elim exE conjE) (intro exI conjI)

text \<open>C15: A commit event activates exactly what is staged at its revision.  For the commit key of a known index, every FAISS shard of the
  index staged at the revision of the event serves its staged data from then on, every other shard, of
  this index or another, serves and stages what it did, and the node's ready key is deleted.\<close>

theorem commit_event_activates:
  assumes "sys_ok s" "sm_load (im_manifests (sy_mgr s)) name = Some m" "name \<noteq> ''''" "CHR ''/'' \<notin> set name"
    and "ev_type ev = PutEvent" "ev_key ev = revision_commit_path rt name" "dec_revision cd (ev_value ev) = Some rv"
  shows "\<exists>s'. handle_commit_event cd et rt (Some c) ev s st =
      Ret (s', fst (et_delete et (revision_ready_path rt name (cv_node_id c)) st)) \<and> sys_ok s' \<and>
    (\<forall>k. let active = (k \<in> unique_shard_key ` set (unique_shards m) \<and> staged_at s rv k) in
       served s' k = (if active then staged_of s k else served s k) \<and>
       staged_of s' k = (if active then None else staged_of s k))"
proof -
  obtain s' where c: "handle_commit_event cd et rt (Some c) ev s st =
      Ret (s', fst (et_delete et (revision_ready_path rt name (cv_node_id c)) st))"
    "committed rv s s' (unique_shard_key ` set (unique_shards m))"
    using commit_event_committed [OF assms, where et = et and c = c and st = st] by blast
  from c(2) show ?thesis unfolding committed_def Let_def using c(1) by auto
qed

text \<open>C16: The commit key is written exactly when every owner is ready: among the owning nodes that the ring names, each must have a ready key at
  the revision; then the key is put once, with that revision and no lease, and in every other case etcd is left as it
  was.  The ready keys are those that the nodes write, one path segment per node.\<close>

theorem commit_key_iff_all_ready:
  assumes "nodes_owning_index cv s name = Ret owners" "owners \<noteq> []"
    and "et_get_prefix et (revision_ready_path_prefix rt name) st = Inr kvs" "distinct (map fst kvs)"
    and "\<And>k v. (k, v) \<in> set kvs \<Longrightarrow> \<exists>n. k = revision_ready_path rt name n \<and> CHR ''/'' \<notin> set n"
  shows "if \<forall>n \<in> set owners. CHR ''/'' \<notin> set n \<and>
        (\<exists>v. (revision_ready_path rt name n, v) \<in> set kvs \<and> dec_revision cd v = Some rv)
    then \<exists>e. check_and_commit cd et rt cv s name rv st =
      Ret (fst (et_put et (revision_commit_path rt name) (enc_revision cd rv) None st), e)
    else check_and_commit cd et rt cv s name rv st = Ret (st, None)"
proof -
  have "list_all (\<lambda>n. sm_load (ready_nodes cd kvs) n = Some rv) owners \<longleftrightarrow>
      (\<forall>n \<in> set owners. CHR ''/'' \<notin> set n \<and>
        (\<exists>v. (revision_ready_path rt name n, v) \<in> set kvs \<and> dec_revision cd v = Some rv))"
    by (simp add: list_all_iff ready_nodes_load [OF assms(5,4)])
  with assms(1-3) show ?thesis
    by (auto simp: check_and_commit_def split: prod.splits option.splits)
qed

text \<open>C17: A node signals only when all it serves of the index is staged: with a FAISS shard of the index loaded and not staged at the revision, nothing is
  written; with all of them staged, the ready key of the node is put under the node's lease before anything else is read.\<close>

theorem signal_only_when_staged:
  assumes "sys_ok s" "sm_load (im_manifests (sy_mgr s)) name = Some m" "cv_lease c = Some lease" "rv \<noteq> 0"
  shows "if \<exists>u \<in> set (unique_shards m). served s (unique_shard_key u) \<noteq> None \<and> \<not> staged_at s rv (unique_shard_key u)
    then signal_ready cd et rt (Some c) s name rv st = Ret (st, None)
    else \<exists>err. signal_ready cd et rt (Some c) s name rv st =
      (case et_put et (revision_ready_path rt name (cv_node_id c)) (enc_revision cd rv) (Some lease) st of
         (st', Some e) \<Rightarrow> Ret (st', Some (err e))
       | (st', None) \<Rightarrow> check_and_commit cd et rt (Some c) s name rv st')"
proof -
  have us: "generate_unique_shards m = Ret (unique_shards m)"
    using assms(1,2) generate_unique_shards_eq [of m] by (auto simp: sys_ok_def manifests_ok_def)
  have "list_ex (not_staged_at s rv) (unique_shards m) \<longleftrightarrow>
    (\<exists>u \<in> set (unique_shards m). served s (unique_shard_key u) \<noteq> None \<and> \<not> staged_at s rv (unique_shard_key u))"
    using not_staged_at_iff [OF assms(1,4)] by (auto simp: list_ex_iff)
  with assms(2,3) us show ?thesis
    by (auto simp: signal_ready_def intro!: exI [of _ "ErrWrap ''write ready key''"])
qed

text \<open>Commit keys round trip: the index name is read back from its own commit key, unless it contains a slash, and
  no ready key is ever taken for a commit key.\<close>

theorem commit_key_roundtrip:
  "parse_index_name_from_commit_key rt (revision_commit_path rt name) = (if CHR ''/'' \<in> set name then '''' else name) \<and>
   parse_index_name_from_commit_key rt (revision_ready_path rt name node) = ''''"
  by (simp add: parse_commit_path parse_ready_path)

text \<open>A shard that is already at the new revision blocks the commit.  Loaded by a node that joins while the others stage, it is up to date: its scheduled
  reload stages nothing and signals nothing, and as long as it is like that no signal of that revision leaves the
  node, whatever its other shards have staged.\<close>

theorem fresh_shard_blocks_signal:
  assumes "sys_ok s" "sm_load (im_manifests (sy_mgr s)) name = Some m" "u \<in> set (unique_shards m)"
    and "engine s (unique_shard_key u) = Some (FaissIx fx)" "fx_reload_callback fx = StageAndSignal name"
    and "fx_revision fx = rv" "rv \<noteq> 0" "fx_staged_index fx = None"
    and "new_downloader w (mf_source (fx_manifest fx)) (fx_shard fx) = Ret (Inr dl)" "read_revision w dl = Inr rv"
  shows "(\<exists>s'. fire_reload cd et rt (Some c) w w' (unique_shard_key u) s st = Ret (s', st, Some (Cfg ErrIndexRevisionUpToDate)) \<and>
      served s' = served s \<and> staged_of s' = staged_of s) \<and>
    signal_ready cd et rt (Some c) s name rv st = Ret (st, None)"
proof
  have fok: "fx_ok (sy_heap s) fx" using store_okD(3) [OF _ assms(4)] assms(1) by (auto simp: sys_ok_def)
  have "download_update w w' dl rv = ('''', rv, Some (Cfg ErrIndexRevisionUpToDate))"
    using any_source.update_current [OF assms(10)] by simp
  then have "stage_reload w w' (sy_heap s) fx = Ret (sy_heap s, fx, Inl (Cfg ErrIndexRevisionUpToDate))"
    using fok assms(6,9) by (simp add: stage_reload_def fx_ok_def)
  then have "fire_reload cd et rt (Some c) w w' (unique_shard_key u) s st =
      Ret (store_shard (unique_shard_key u) (sy_heap s, fx) s, st, Some (Cfg ErrIndexRevisionUpToDate))"
    using assms(4,5) by (simp add: fire_reload_def Let_def)
  with store_same [OF assms(1,4)]
  show "\<exists>s'. fire_reload cd et rt (Some c) w w' (unique_shard_key u) s st = Ret (s', st, Some (Cfg ErrIndexRevisionUpToDate)) \<and>
      served s' = served s \<and> staged_of s' = staged_of s" by blast
  have "not_staged_at s rv u"
    using assms(4,7,8) fok by (simp add: not_staged_at_def staged_revision_def fx_ok_def)
  moreover have "generate_unique_shards m = Ret (unique_shards m)"
    using assms(1,2) generate_unique_shards_eq [of m] by (auto simp: sys_ok_def manifests_ok_def)
  ultimately show "signal_ready cd et rt (Some c) s name rv st = Ret (st, None)"
    using assms(2,3) by (auto simp: signal_ready_def list_ex_iff)
qed

section \<open>Witnesses\<close>

text \<open>A node with one FAISS shard of an index, serving revision 3 with 4 staged or nothing; a store that logs the keys written.\<close>

definition ex_gx :: "bool \<Rightarrow> faiss_index" where
  "ex_gx b = set_reload_callback (StageAndSignal ''docs'') (ex_fx b)"

definition ex_csys :: "bool \<Rightarrow> sys" where
  "ex_csys b = \<lparr>sy_mgr = \<lparr>im_engine_store = [(''docs:0'', FaissIx (ex_gx b))], im_manifests = [(''docs'', ex_manifest)],
       im_pending = [], im_listeners = [], im_mode = ClusterMode\<rparr>,
     sy_heap = ex_heap, sy_pkg = init_pkg, sy_updates = []\<rparr>"

definition ex_rev_codec :: "int option codec" where
  "ex_rev_codec = \<lparr>enc_meta = (\<lambda>m. None), dec_meta = (\<lambda>v. None), enc_load = (\<lambda>l. None), dec_load = (\<lambda>v. None),
     enc_revision = Some, dec_revision = (\<lambda>v. v), dec_manifest = (\<lambda>v. None)\<rparr>"

definition ex_log :: "(string \<times> int option) list \<Rightarrow> (string list, int option) etcd_ops" where
  "ex_log kvs = \<lparr>et_get = (\<lambda>k e. Inr []), et_get_prefix = (\<lambda>p e. Inr kvs),
     et_put = (\<lambda>k v l e. (e @ [k], None)), et_delete = (\<lambda>k e. (e, None))\<rparr>"

lemma ex_gx_simps:
  "fx_ok ex_heap (ex_gx b)" "fx_reload_callback (ex_gx b) = StageAndSignal ''docs''" "fx_revision (ex_gx b) = 3"
  "fx_shard (ex_gx b) = ex_shard" "fx_staged_index (ex_gx b) = fx_staged_index (ex_fx b)"
  "fx_staged_revision (ex_gx b) = fx_staged_revision (ex_fx b)" "fx_manifest (ex_gx b) = ex_manifest"
  using ex_fx_ok [of b]
  by (auto simp: ex_gx_def set_reload_callback_def fx_ok_def ex_fx_def split: option.splits)

lemma ex_manifest_ok: "manifest_ok ex_manifest"
  by (simp add: manifest_ok_def ex_manifest_def wrap32_def)

lemma ex_csys_ok: "sys_ok (ex_csys b)"
  using ex_manifest_ok ex_shard_key ex_gx_simps
  by (auto simp: sys_ok_def ex_csys_def store_ok_def manifests_ok_def sm_wf_def sm_load_Cons ex_manifest_def
      fx_ok_def split: if_splits)

lemma ex_csys_engine: "engine (ex_csys b) ''docs:0'' = Some (FaissIx (ex_gx b))"
  by (simp add: ex_csys_def sm_load_def)

lemma ex_csys_manifest: "sm_load (im_manifests (sy_mgr (ex_csys b))) ''docs'' = Some ex_manifest"
  by (simp add: ex_csys_def sm_load_def)

lemma ex_faiss_shards: "unique_shards ex_manifest = [ex_shard, ex_shard\<lparr>sh_shard_id := 1\<rparr>]"
  by (simp add: unique_shards_def generate_unique_shards_def ex_manifest_def wrap32_def ex_shard_def upto.simps)

lemma ex_view_lease: "cv_lease (ex_view b) = Some 1"
  by (simp add: ex_view_def)

lemma ex_csys_views: "served (ex_csys b) ''docs:0'' = Some (3, Some ex_faiss)"
  "staged_of (ex_csys b) ''docs:0'' = (if b then Some (4, Some ex_faiss) else None)"
  using ex_csys_engine [of b]
  by (simp_all add: served_def staged_of_def fx_serving_def fx_staged_def fx_data_def ex_csys_def ex_heap_def
      ex_gx_def ex_fx_def set_reload_callback_def sm_load_def)

theorem staging_keeps_serving_witness:
  "\<exists>s' st' e. fire_reload ex_rev_codec (ex_log []) ''/v'' (Some (ex_view True)) (ex_world ''5'') (ex_world ''5'')
      ''docs:0'' (ex_csys True) [] = Ret (s', st', e) \<and> served s' ''docs:0'' = Some (3, Some ex_faiss)"
  using staging_keeps_serving [OF ex_csys_ok ex_csys_engine ex_gx_simps(2) ex_view_lease,
      where cd = ex_rev_codec and et = "ex_log []" and rt = "''/v''" and w = "ex_world ''5''" and w' = "ex_world ''5''"
        and st = "[]"]
    ex_csys_views(1) [of True] by fastforce

theorem commit_event_activates_witness:
  "\<exists>s'. handle_commit_event ex_rev_codec (ex_log []) ''/v'' (Some (ex_view True))
      \<lparr>ev_type = PutEvent, ev_create = True, ev_key = revision_commit_path ''/v'' ''docs'', ev_value = Some 4\<rparr>
      (ex_csys True) [] = Ret (s', []) \<and> served s' ''docs:0'' = Some (4, Some ex_faiss)"
proof -
  let ?ev = "\<lparr>ev_type = PutEvent, ev_create = True, ev_key = revision_commit_path ''/v'' ''docs'', ev_value = Some 4\<rparr> :: int option event"
  have e: "CHR ''/'' \<notin> set ''docs''" "ev_type ?ev = PutEvent" "ev_key ?ev = revision_commit_path ''/v'' ''docs''"
    "dec_revision ex_rev_codec (ev_value ?ev) = Some 4"
    by (simp_all add: ex_rev_codec_def)
  have "staged_at (ex_csys True) 4 ''docs:0''" "''docs:0'' \<in> unique_shard_key ` set (unique_shards ex_manifest)"
    by (simp_all add: staged_at_def ex_csys_views ex_faiss_shards ex_shard_key)
  moreover obtain s' where "handle_commit_event ex_rev_codec (ex_log []) ''/v'' (Some (ex_view True)) ?ev (ex_csys True) [] =
      Ret (s', fst (et_delete (ex_log []) (revision_ready_path ''/v'' ''docs'' (cv_node_id (ex_view True))) []))"
    "\<forall>k. let active = (k \<in> unique_shard_key ` set (unique_shards ex_manifest) \<and> staged_at (ex_csys True) 4 k) in
       served s' k = (if active then staged_of (ex_csys True) k else served (ex_csys True) k) \<and>
       staged_of s' k = (if active then None else staged_of (ex_csys True) k)"
    using commit_event_activates [OF ex_csys_ok ex_csys_manifest _ e, where et = "ex_log []" and c = "ex_view True" and st = "[]"] by auto
  ultimately show ?thesis
    by (auto simp: ex_csys_views Let_def ex_log_def)
qed

theorem commit_key_iff_all_ready_witness:
  "\<exists>e. check_and_commit ex_rev_codec (ex_log [(revision_ready_path ''/v'' ''docs'' ''n1'', Some 4)]) ''/v''
      (Some (ex_view True)) (ex_csys True) ''docs'' 4 [] = Ret ([revision_commit_path ''/v'' ''docs''], e)"
proof -
  let ?kvs = "[(revision_ready_path ''/v'' ''docs'' ''n1'', Some 4)]"
  have o: "nodes_owning_index (Some (ex_view True)) (ex_csys True) ''docs'' = Ret [''n1'']"
    by (simp add: nodes_owning_index_def ex_csys_manifest generate_shards_def ex_manifest_def wrap32_def ex_view_def upto.simps)
  have g: "et_get_prefix (ex_log ?kvs) (revision_ready_path_prefix ''/v'' ''docs'') [] = Inr ?kvs"
    by (simp add: ex_log_def)
  have k: "\<exists>n. k = revision_ready_path ''/v'' ''docs'' n \<and> CHR ''/'' \<notin> set n" if "(k, v) \<in> set ?kvs" for k v
    using that by (intro exI [of _ "''n1''"]) simp
  have "if \<forall>n \<in> set [''n1'']. CHR ''/'' \<notin> set n \<and>
        (\<exists>v. (revision_ready_path ''/v'' ''docs'' n, v) \<in> set ?kvs \<and> dec_revision ex_rev_codec v = Some 4)
    then \<exists>e. check_and_commit ex_rev_codec (ex_log ?kvs) ''/v'' (Some (ex_view True)) (ex_csys True) ''docs'' 4 [] =
      Ret (fst (et_put (ex_log ?kvs) (revision_commit_path ''/v'' ''docs'') (enc_revision ex_rev_codec 4) None []), e)
    else check_and_commit ex_rev_codec (ex_log ?kvs) ''/v'' (Some (ex_view True)) (ex_csys True) ''docs'' 4 [] = Ret ([], None)"
    by (rule commit_key_iff_all_ready [OF o _ g _ k]) simp_all
  then show ?thesis by (simp add: ex_rev_codec_def ex_log_def)
qed

theorem signal_only_when_staged_witness:
  "signal_ready ex_rev_codec (ex_log []) ''/v'' (Some (ex_view True)) (ex_csys False) ''docs'' 4 [] = Ret ([], None)"
proof -
  have "\<exists>u \<in> set (unique_shards ex_manifest). served (ex_csys False) (unique_shard_key u) \<noteq> None \<and>
      \<not> staged_at (ex_csys False) 4 (unique_shard_key u)"
    by (intro bexI [of _ ex_shard]) (simp_all add: ex_shard_key ex_csys_views staged_at_def ex_faiss_shards)
  then show ?thesis
    using signal_only_when_staged [OF ex_csys_ok ex_csys_manifest ex_view_lease, where rv = 4 and cd = ex_rev_codec
        and et = "ex_log []" and rt = "''/v''" and st = "[]"]
    by simp
qed

theorem fresh_shard_blocks_signal_witness:
  "signal_ready ex_rev_codec (ex_log []) ''/v'' (Some (ex_view True)) (ex_csys False) ''docs'' 3 [] = Ret ([], None)"
proof -
  have e: "engine (ex_csys False) (unique_shard_key ex_shard) = Some (FaissIx (ex_gx False))"
    using ex_csys_engine [of False] by (simp add: ex_shard_key)
  have n: "fx_staged_index (ex_gx False) = None" by (simp add: ex_gx_simps ex_fx_def)
  have d: "new_downloader (ex_world ''3'') (mf_source (fx_manifest (ex_gx False))) (fx_shard (ex_gx False)) =
      Ret (Inr (LocalDl (new_local_dl ex_source ex_shard)))"
    using ex_new_downloader [of "''3''" False] by (simp add: ex_gx_simps ex_fx_def)
  have r: "read_revision (ex_world ''3'') (LocalDl (new_local_dl ex_source ex_shard)) = Inr 3"
    by code_simp
  have u: "ex_shard \<in> set (unique_shards ex_manifest)" by (simp add: ex_faiss_shards)
  show ?thesis
    by (rule conjunct2 [OF fresh_shard_blocks_signal [OF ex_csys_ok ex_csys_manifest u e ex_gx_simps(2,3) _ n d r]]) simp
qed

end
