(* ===== verification/Heap_Queue.thy ===== *)
theory Heap_Queue
  imports Prelude
begin

text \<open>
  The priority queue of \<open>internal/utils/utils.go\<close> and the functions of Go's
  \<open>container/heap\<close> that drive it: \<open>Init\<close>, \<open>Push\<close>, \<open>Pop\<close> with their sift-up and
  sift-down loops.  The queue is the slice of its items; the order is the function
  \<open>less\<close> it was built with, here \<open>lt\<close>.  The locale \<open>min_queue\<close> is the contract a client relies on,
  and its interpretation on the heap is the correctness proof of the heap.
\<close>

section \<open>Orders given by a less function\<close>

text \<open>What \<open>sort\<close> and \<open>heap\<close> ask of a \<open>less\<close> function: a strict weak order.\<close>

definition weak_order :: "('a \<Rightarrow> 'a \<Rightarrow> bool) \<Rightarrow> bool" where
  "weak_order lt \<longleftrightarrow>
     (\<forall>x y. lt x y \<longrightarrow> \<not> lt y x) \<and>
     (\<forall>x y z. \<not> lt x y \<longrightarrow> \<not> lt y z \<longrightarrow> \<not> lt x z)"

lemma weak_order_asym:
  assumes "weak_order lt" "lt x y"
  shows "\<not> lt y x"
  by (rule assms(1) [unfolded weak_order_def, THEN conjunct1, rule_format, OF assms(2)])

lemma weak_order_cotrans:
  assumes "weak_order lt" "\<not> lt x y" "\<not> lt y z"
  shows "\<not> lt x z"
  by (rule assms(1) [unfolded weak_order_def, THEN conjunct2, rule_format, OF assms(2,3)])

lemma weak_order_irrefl: "weak_order lt \<Longrightarrow> \<not> lt x x"
  using weak_order_asym by fastforce

lemma weak_order_key: "weak_order (\<lambda>x y. key x < (key y :: 'b :: linorder))"
  by (auto simp: weak_order_def)

section \<open>The contract of a priority queue\<close>

locale min_queue =
  fixes lt :: "'a \<Rightarrow> 'a \<Rightarrow> bool"
    and qlen :: "'q \<Rightarrow> nat"
    and push :: "'a \<Rightarrow> 'q \<Rightarrow> 'q"
    and pop :: "'q \<Rightarrow> ('a \<times> 'q) run"
    and elems :: "'q \<Rightarrow> 'a multiset"
    and inv :: "'q \<Rightarrow> bool"
  assumes qlen_elems: "qlen q = size (elems q)"
    and elems_push: "weak_order lt \<Longrightarrow> inv q \<Longrightarrow> elems (push x q) = add_mset x (elems q)"
    and inv_push: "weak_order lt \<Longrightarrow> inv q \<Longrightarrow> inv (push x q)"
    and pop_min: "weak_order lt \<Longrightarrow> inv q \<Longrightarrow> elems q \<noteq> {#} \<Longrightarrow>
      \<exists>x q'. pop q = Ret (x, q') \<and> inv q' \<and> elems q = add_mset x (elems q') \<and>
             (\<forall>y \<in># elems q. \<not> lt y x)"
begin

lemma inv_push_all: "weak_order lt \<Longrightarrow> inv q \<Longrightarrow> inv (foldl (\<lambda>q x. push x q) q xs)"
  by (induction xs arbitrary: q) (auto simp: inv_push)

lemma elems_push_all:
  "weak_order lt \<Longrightarrow> inv q \<Longrightarrow> elems (foldl (\<lambda>q x. push x q) q xs) = mset xs + elems q"
  by (induction xs arbitrary: q) (auto simp: inv_push elems_push)

end

text \<open>
  The part of the contract that needs no order: the queue is a bag.
\<close>

locale bag_queue =
  fixes qlen :: "'q \<Rightarrow> nat"
    and push :: "'a \<Rightarrow> 'q \<Rightarrow> 'q"
    and pop :: "'q \<Rightarrow> ('a \<times> 'q) run"
    and elems :: "'q \<Rightarrow> 'a multiset"
  assumes qlen_elems: "qlen q = size (elems q)"
    and elems_push: "elems (push x q) = add_mset x (elems q)"
    and pop_some: "elems q \<noteq> {#} \<Longrightarrow>
      \<exists>x q'. pop q = Ret (x, q') \<and> elems q = add_mset x (elems q')"
begin

lemma elems_push_all: "elems (foldl (\<lambda>q x. push x q) q xs) = mset xs + elems q"
  by (induction xs arbitrary: q) (auto simp: elems_push)

end

section \<open>container/heap\<close>

definition pq_swap :: "'a list \<Rightarrow> nat \<Rightarrow> nat \<Rightarrow> 'a list" where
  "pq_swap xs i j = xs[i := xs ! j, j := xs ! i]"

definition pq_less :: "('a \<Rightarrow> 'a \<Rightarrow> bool) \<Rightarrow> 'a list \<Rightarrow> nat \<Rightarrow> nat \<Rightarrow> bool" where
  "pq_less lt xs i j = lt (xs ! i) (xs ! j)"

definition pq_push :: "'a list \<Rightarrow> 'a \<Rightarrow> 'a list" where
  "pq_push xs x = xs @ [x]"

definition pq_pop :: "'a list \<Rightarrow> ('a \<times> 'a list) run" where
  "pq_pop xs = (if xs = [] then Panic IndexOutOfRange else Ret (last xs, butlast xs))"

function heap_up :: "('a \<Rightarrow> 'a \<Rightarrow> bool) \<Rightarrow> nat \<Rightarrow> 'a list \<Rightarrow> 'a list" where
  "heap_up lt j xs =
     (let i = (j - 1) div 2 in
      if i = j \<or> \<not> pq_less lt xs j i then xs else heap_up lt i (pq_swap xs i j))"
  by pat_completeness auto
termination
  by (relation "measure (\<lambda>(lt, j, xs). j)") auto

function heap_down :: "('a \<Rightarrow> 'a \<Rightarrow> bool) \<Rightarrow> nat \<Rightarrow> nat \<Rightarrow> 'a list \<Rightarrow> 'a list" where
  "heap_down lt i n xs =
     (let j1 = 2 * i + 1 in
      if n \<le> j1 then xs
      else let j = (if j1 + 1 < n \<and> pq_less lt xs (j1 + 1) j1 then j1 + 1 else j1) in
        if \<not> pq_less lt xs j i then xs else heap_down lt j n (pq_swap xs i j))"
  by pat_completeness auto
termination
  by (relation "measure (\<lambda>(lt, i, n, xs). n - i)") (auto split: if_splits)

declare heap_up.simps [simp del] heap_down.simps [simp del]

definition heap_init :: "('a \<Rightarrow> 'a \<Rightarrow> bool) \<Rightarrow> 'a list \<Rightarrow> 'a list" where
  "heap_init lt xs =
     foldl (\<lambda>ys i. heap_down lt i (length xs) ys) xs (rev [0..<length xs div 2])"

definition heap_push :: "('a \<Rightarrow> 'a \<Rightarrow> bool) \<Rightarrow> 'a \<Rightarrow> 'a list \<Rightarrow> 'a list" where
  "heap_push lt x xs = (let ys = pq_push xs x in heap_up lt (length ys - 1) ys)"

text \<open>\<open>Pop\<close> on an empty queue panics in its \<open>Swap(0, -1)\<close>.\<close>

definition heap_pop :: "('a \<Rightarrow> 'a \<Rightarrow> bool) \<Rightarrow> 'a list \<Rightarrow> ('a \<times> 'a list) run" where
  "heap_pop lt xs =
     (if xs = [] then Panic IndexOutOfRange
      else let n = length xs - 1 in pq_pop (heap_down lt 0 n (pq_swap xs 0 n)))"

section \<open>The heap invariant\<close>

text \<open>
  \<open>heap_from k\<close>: every element of the first \<open>n\<close> whose parent is at or after \<open>k\<close> is not
  less than its parent.  The whole heap is \<open>heap_from 0\<close>.
\<close>

definition par :: "nat \<Rightarrow> nat" where
  "par c = (c - 1) div 2"

definition heap_from :: "('a \<Rightarrow> 'a \<Rightarrow> bool) \<Rightarrow> nat \<Rightarrow> nat \<Rightarrow> 'a list \<Rightarrow> bool" where
  "heap_from lt k n xs \<longleftrightarrow>
     (\<forall>c. 0 < c \<longrightarrow> c < n \<longrightarrow> k \<le> par c \<longrightarrow> \<not> lt (xs ! c) (xs ! par c))"

definition is_heap :: "('a \<Rightarrow> 'a \<Rightarrow> bool) \<Rightarrow> 'a list \<Rightarrow> bool" where
  "is_heap lt xs \<longleftrightarrow> heap_from lt 0 (length xs) xs"

definition hole_down :: "('a \<Rightarrow> 'a \<Rightarrow> bool) \<Rightarrow> nat \<Rightarrow> nat \<Rightarrow> nat \<Rightarrow> 'a list \<Rightarrow> bool" where
  "hole_down lt k i n xs \<longleftrightarrow>
     (\<forall>c. 0 < c \<longrightarrow> c < n \<longrightarrow> k \<le> par c \<longrightarrow> par c \<noteq> i \<longrightarrow> \<not> lt (xs ! c) (xs ! par c)) \<and>
     (\<forall>c. 0 < c \<longrightarrow> c < n \<longrightarrow> par c = i \<longrightarrow> 0 < i \<longrightarrow> k \<le> par i \<longrightarrow> \<not> lt (xs ! c) (xs ! par i))"

definition hole_up :: "('a \<Rightarrow> 'a \<Rightarrow> bool) \<Rightarrow> nat \<Rightarrow> 'a list \<Rightarrow> bool" where
  "hole_up lt j xs \<longleftrightarrow>
     (\<forall>c. 0 < c \<longrightarrow> c < length xs \<longrightarrow> c \<noteq> j \<longrightarrow> \<not> lt (xs ! c) (xs ! par c)) \<and>
     (\<forall>c. 0 < c \<longrightarrow> c < length xs \<longrightarrow> par c = j \<longrightarrow> 0 < j \<longrightarrow> \<not> lt (xs ! c) (xs ! par j))"

lemma par_less: "0 < c \<Longrightarrow> par c < c"
  by (auto simp: par_def)

lemma par_eq: "0 < c \<Longrightarrow> par c = i \<longleftrightarrow> c = 2 * i + 1 \<or> c = 2 * i + 2"
  unfolding par_def by (cases c) (simp_all, arith)

lemma length_pq_swap [simp]: "length (pq_swap xs i j) = length xs"
  by (simp add: pq_swap_def)

lemma nth_pq_swap:
  "i < length xs \<Longrightarrow> j < length xs \<Longrightarrow> k < length xs \<Longrightarrow>
   pq_swap xs i j ! k = (if k = j then xs ! i else if k = i then xs ! j else xs ! k)"
  by (simp add: pq_swap_def nth_list_update)

lemma mset_pq_swap [simp]:
  "i < length xs \<Longrightarrow> j < length xs \<Longrightarrow> mset (pq_swap xs i j) = mset xs"
  unfolding pq_swap_def by (rule mset_swap)

section \<open>Sift-up\<close>

lemma hole_up_done:
  assumes "hole_up lt j xs" "j < length xs" "0 < j \<Longrightarrow> \<not> lt (xs ! j) (xs ! par j)"
  shows "is_heap lt xs"
  using assms unfolding hole_up_def is_heap_def heap_from_def by metis

lemma hole_up_swap:
  assumes w: "weak_order lt" and h: "hole_up lt j xs" and j: "0 < j" "j < length xs"
    and l: "lt (xs ! j) (xs ! par j)"
  shows "hole_up lt (par j) (pq_swap xs (par j) j)"
proof -
  let ?i = "par j" and ?ys = "pq_swap xs (par j) j"
  have i: "?i < length xs" "?i \<noteq> j" using j par_less [of j] by simp_all
  have nth: "?ys ! k = (if k = j then xs ! ?i else if k = ?i then xs ! j else xs ! k)"
    if "k < length xs" for k
    using nth_pq_swap [OF i(1) j(2) that] by simp
  have h1: "\<not> lt (xs ! c) (xs ! par c)" if "0 < c" "c < length xs" "c \<noteq> j" for c
    using h that unfolding hole_up_def by blast
  have h2: "\<not> lt (xs ! c) (xs ! ?i)" if "0 < c" "c < length xs" "par c = j" for c
    using h that j(1) unfolding hole_up_def by blast
  have ji: "\<not> lt (xs ! ?i) (xs ! j)" using weak_order_asym [OF w l] .
  have below: "\<not> lt (?ys ! c) (?ys ! par c)" if c: "0 < c" "c < length xs" "c \<noteq> ?i" for c
  proof -
    have pc: "par c < length xs" "par c \<noteq> c" using par_less [OF c(1)] c(2) by simp_all
    consider "c = j" | "c \<noteq> j" "par c = ?i" | "c \<noteq> j" "par c = j" | "c \<noteq> j" "par c \<noteq> ?i" "par c \<noteq> j"
      by blast
    then show ?thesis
    proof cases
      case 1
      then show ?thesis using ji i by (simp add: nth c j)
    next
      case 2
      with h1 [of c] c weak_order_cotrans [OF w _ ji, of "xs ! c"] show ?thesis
        by (simp add: nth pc i)
    next
      case 3
      with h2 [of c] c show ?thesis by (simp add: nth pc j)
    next
      case 4
      with h1 [of c] c show ?thesis by (simp add: nth pc)
    qed
  qed
  moreover have "\<not> lt (?ys ! c) (?ys ! par ?i)"
    if c: "0 < c" "c < length xs" "par c = ?i" and i0: "0 < ?i" for c
  proof -
    have pi: "par ?i < length xs" "par ?i \<noteq> ?i" "par ?i \<noteq> j"
      using par_less [OF i0] i par_less [OF j(1)] by auto
    have up: "\<not> lt (xs ! ?i) (xs ! par ?i)" using h1 [of ?i] i i0 by simp
    have ci: "c \<noteq> ?i" using par_less [OF c(1)] c(3) by auto
    show ?thesis
    proof (cases "c = j")
      case True
      then show ?thesis using up j i by (simp add: nth pi)
    next
      case False
      with h1 [of c] c have "\<not> lt (xs ! c) (xs ! ?i)" by simp
      then have "\<not> lt (xs ! c) (xs ! par ?i)" by (rule weak_order_cotrans [OF w _ up])
      moreover have "?ys ! c = xs ! c" using nth [OF c(2)] False ci by simp
      moreover have "?ys ! par ?i = xs ! par ?i" using nth [OF pi(1)] pi(2,3) by simp
      ultimately show ?thesis by simp
    qed
  qed
  ultimately show ?thesis unfolding hole_up_def by simp
qed

lemma heap_up_eq:
  "heap_up lt j xs =
     (if par j = j \<or> \<not> lt (xs ! j) (xs ! par j) then xs
      else heap_up lt (par j) (pq_swap xs (par j) j))"
  by (subst heap_up.simps) (simp add: Let_def par_def pq_less_def)

lemma heap_up_heap:
  assumes "weak_order lt" "j < length xs" "hole_up lt j xs"
  shows "is_heap lt (heap_up lt j xs) \<and> mset (heap_up lt j xs) = mset xs"
  using assms(2,3)
proof (induction j arbitrary: xs rule: less_induct)
  case (less j)
  show ?case
  proof (cases "par j = j \<or> \<not> lt (xs ! j) (xs ! par j)")
    case True
    then have "0 < j \<Longrightarrow> \<not> lt (xs ! j) (xs ! par j)"
      using par_less [of j] by auto
    then have "is_heap lt xs" using less.prems by (intro hole_up_done)
    with True show ?thesis by (simp add: heap_up_eq [of lt j xs])
  next
    case False
    then have j0: "0 < j" by (cases j) (auto simp: par_def)
    then have pl: "par j < j" by (rule par_less)
    from False have "hole_up lt (par j) (pq_swap xs (par j) j)"
      using less.prems j0 assms(1) by (intro hole_up_swap) auto
    with less.IH [OF pl, of "pq_swap xs (par j) j"] False less.prems pl show ?thesis
      by (simp add: heap_up_eq [of lt j xs])
  qed
qed

section \<open>Sift-down\<close>

text \<open>The child the loop compares with: the smaller of the two, or the only one.\<close>

definition best_child :: "('a \<Rightarrow> 'a \<Rightarrow> bool) \<Rightarrow> nat \<Rightarrow> nat \<Rightarrow> 'a list \<Rightarrow> nat" where
  "best_child lt i n xs =
     (if 2 * i + 2 < n \<and> lt (xs ! (2 * i + 2)) (xs ! (2 * i + 1)) then 2 * i + 2 else 2 * i + 1)"

lemma heap_down_eq:
  "heap_down lt i n xs =
     (if n \<le> 2 * i + 1 \<or> \<not> lt (xs ! best_child lt i n xs) (xs ! i) then xs
      else heap_down lt (best_child lt i n xs) n (pq_swap xs i (best_child lt i n xs)))"
  by (subst heap_down.simps) (simp add: Let_def pq_less_def best_child_def)

lemma best_child:
  assumes "2 * i + 1 < n"
  shows "par (best_child lt i n xs) = i" "i < best_child lt i n xs" "best_child lt i n xs < n"
  using assms by (auto simp: best_child_def par_eq)

lemma best_child_least:
  assumes w: "weak_order lt" and c: "0 < c" "c < n" "par c = i"
  shows "\<not> lt (xs ! c) (xs ! best_child lt i n xs)"
proof -
  let ?l = "2 * i + 1" and ?r = "2 * i + 2"
  have lr: "c = ?l \<or> c = ?r" using c by (simp add: par_eq)
  note irr = weak_order_irrefl [OF w]
  show ?thesis
  proof (cases "?r < n \<and> lt (xs ! ?r) (xs ! ?l)")
    case True
    then have b: "best_child lt i n xs = ?r" by (simp add: best_child_def)
    have "\<not> lt (xs ! ?l) (xs ! ?r)" using True weak_order_asym [OF w] by simp
    with lr irr [of "xs ! ?r"] show ?thesis unfolding b by metis
  next
    case False
    then have b: "best_child lt i n xs = ?l" by (simp add: best_child_def)
    with lr irr [of "xs ! ?l"] False c(2) show ?thesis unfolding b by metis
  qed
qed

lemma hole_down_done:
  assumes "hole_down lt k i n xs"
    "\<And>c. 0 < c \<Longrightarrow> c < n \<Longrightarrow> par c = i \<Longrightarrow> \<not> lt (xs ! c) (xs ! i)"
  shows "heap_from lt k n xs"
  using assms unfolding hole_down_def heap_from_def by metis

lemma hole_down_swap:
  assumes w: "weak_order lt" and h: "hole_down lt k i n xs" and n: "n \<le> length xs" and ki: "k \<le> i"
    and j: "par j = i" "0 < j" "j < n" and l: "lt (xs ! j) (xs ! i)"
    and best: "\<And>c. 0 < c \<Longrightarrow> c < n \<Longrightarrow> par c = i \<Longrightarrow> \<not> lt (xs ! c) (xs ! j)"
  shows "hole_down lt k j n (pq_swap xs i j)"
proof -
  let ?ys = "pq_swap xs i j"
  have i: "i < j" using par_less [OF j(2)] j(1) by simp
  have nth: "?ys ! c = (if c = j then xs ! i else if c = i then xs ! j else xs ! c)"
    if "c < n" for c
    using nth_pq_swap [of i xs j c] that n i j(3) by simp
  have h1: "\<not> lt (xs ! c) (xs ! par c)" if "0 < c" "c < n" "k \<le> par c" "par c \<noteq> i" for c
    using h that unfolding hole_down_def by blast
  have h2: "\<not> lt (xs ! j) (xs ! par i)" if "0 < i" "k \<le> par i"
    using h that j unfolding hole_down_def by blast
  have "\<not> lt (?ys ! c) (?ys ! par c)" if c: "0 < c" "c < n" "k \<le> par c" "par c \<noteq> j" for c
  proof -
    have pc: "par c < n" "par c \<noteq> c" using par_less [OF c(1)] c(2) by simp_all
    consider "c = j" | "c \<noteq> j" "par c = i" | "c = i" | "c \<noteq> j" "par c \<noteq> i" "c \<noteq> i"
      by blast
    then show ?thesis
    proof cases
      case 1
      then show ?thesis using weak_order_asym [OF w l] i j by (simp add: nth pc c)
    next
      case 2
      then show ?thesis using best [OF c(1,2)] i pc c by (auto simp: nth)
    next
      case 3
      then show ?thesis using h2 i pc c by (simp add: nth)
    next
      case 4
      then show ?thesis using h1 [OF c(1-3)] pc c by (simp add: nth)
    qed
  qed
  moreover have "\<not> lt (?ys ! c) (?ys ! par j)"
    if c: "0 < c" "c < n" "par c = j" for c
    using h1 [of c] c par_less [OF c(1)] i j ki by (simp add: nth)
  ultimately show ?thesis unfolding hole_down_def by blast
qed

lemma heap_down_heap:
  assumes "weak_order lt" "n \<le> length xs" "k \<le> i" "hole_down lt k i n xs"
  shows "heap_from lt k n (heap_down lt i n xs) \<and> mset (heap_down lt i n xs) = mset xs \<and>
         length (heap_down lt i n xs) = length xs \<and>
         (\<forall>c. n \<le> c \<longrightarrow> c < length xs \<longrightarrow> heap_down lt i n xs ! c = xs ! c)"
  using assms(2-4)
proof (induction "n - i" arbitrary: i xs rule: less_induct)
  case less
  let ?j = "best_child lt i n xs"
  show ?case
  proof (cases "n \<le> 2 * i + 1")
    case True
    then have "heap_from lt k n xs"
      using less.prems(3) by (intro hole_down_done [where i = i]) (auto simp: par_eq)
    with True show ?thesis by (simp add: heap_down_eq [of lt i n xs])
  next
    case False
    note b = best_child [where i = i and n = n and xs = xs and lt = lt]
    have j: "par ?j = i" "i < ?j" "?j < n" using b False by auto
    show ?thesis
    proof (cases "lt (xs ! ?j) (xs ! i)")
      case True
      have "hole_down lt k ?j n (pq_swap xs i ?j)"
        using less.prems j True best_child_least [OF assms(1)] assms(1) by (intro hole_down_swap) auto
      with less.hyps [of ?j "pq_swap xs i ?j"] j less.prems True False show ?thesis
        by (simp add: heap_down_eq [of lt i n xs] nth_pq_swap)
    next
      case nl: False
      have "heap_from lt k n xs"
        using less.prems(3)
        by (rule hole_down_done) (rule weak_order_cotrans [OF assms(1) best_child_least [OF assms(1)] nl])
      with nl show ?thesis by (simp add: heap_down_eq [of lt i n xs])
    qed
  qed
qed

section \<open>The heap implements the contract\<close>

lemma heap_push_heap:
  assumes "weak_order lt" "is_heap lt xs"
  shows "is_heap lt (heap_push lt x xs) \<and> mset (heap_push lt x xs) = add_mset x (mset xs)"
proof -
  have "\<not> lt ((xs @ [x]) ! c) ((xs @ [x]) ! par c)" if "0 < c" "c < length xs" for c
    using assms(2) that par_less [OF that(1)] by (simp add: is_heap_def heap_from_def nth_append)
  moreover have "par c \<noteq> length xs" if "0 < c" "c < Suc (length xs)" for c
    using that par_less [OF that(1)] by simp
  ultimately have "hole_up lt (length xs) (xs @ [x])"
    unfolding hole_up_def by (metis length_append_singleton less_SucE)
  from heap_up_heap [OF assms(1) _ this] show ?thesis
    by (simp add: heap_push_def pq_push_def Let_def)
qed

lemma heap_root_min:
  assumes w: "weak_order lt" and h: "heap_from lt 0 n xs" and c: "c < n"
  shows "\<not> lt (xs ! c) (xs ! 0)"
  using c
proof (induction c rule: less_induct)
  case (less c)
  show ?case
  proof (cases "c = 0")
    case True
    then show ?thesis using weak_order_irrefl [OF w] by simp
  next
    case False
    then have "\<not> lt (xs ! c) (xs ! par c)" using h less.prems by (simp add: heap_from_def)
    moreover have "\<not> lt (xs ! par c) (xs ! 0)"
      using less.IH [of "par c"] par_less [of c] False less.prems by simp
    ultimately show ?thesis by (rule weak_order_cotrans [OF w])
  qed
qed

lemma heap_from_butlast:
  "heap_from lt 0 (length xs - 1) xs \<Longrightarrow> is_heap lt (butlast xs)"
  unfolding is_heap_def heap_from_def
proof (intro allI impI)
  fix c
  assume h: "\<forall>c. 0 < c \<longrightarrow> c < length xs - 1 \<longrightarrow> 0 \<le> par c \<longrightarrow> \<not> lt (xs ! c) (xs ! par c)"
    and c: "0 < c" "c < length (butlast xs)"
  have "par c < length (butlast xs)" using par_less [OF c(1)] c(2) by simp
  with h c show "\<not> lt (butlast xs ! c) (butlast xs ! par c)"
    by (simp add: nth_butlast)
qed

lemma heap_pop_spec:
  assumes w: "weak_order lt" and h: "is_heap lt xs" and ne: "xs \<noteq> []"
  shows "\<exists>x ys. heap_pop lt xs = Ret (x, ys) \<and> is_heap lt ys \<and> mset xs = add_mset x (mset ys) \<and>
                (\<forall>y \<in> set xs. \<not> lt y x)"
proof -
  let ?n = "length xs - 1"
  let ?sw = "pq_swap xs 0 ?n"
  let ?zs = "heap_down lt 0 ?n ?sw"
  have n: "?n < length xs" "0 < length xs" using ne by auto
  have "\<not> lt (?sw ! c) (?sw ! par c)" if "0 < c" "c < ?n" "par c \<noteq> 0" for c
    using h that par_less [OF that(1)] n
    by (simp add: is_heap_def heap_from_def nth_pq_swap)
  then have "hole_down lt 0 0 ?n ?sw"
    unfolding hole_down_def by blast
  from heap_down_heap [OF w _ _ this]
  have z: "heap_from lt 0 ?n ?zs" "mset ?zs = mset xs" "length ?zs = length xs"
    "?zs ! ?n = xs ! 0"
    using n by (auto simp: nth_pq_swap)
  have zne: "?zs \<noteq> []" using z(3) ne by auto
  have lz: "last ?zs = xs ! 0" using z(3,4) zne by (simp add: last_conv_nth)
  have "is_heap lt (butlast ?zs)" using z by (intro heap_from_butlast) simp
  moreover have "mset xs = add_mset (last ?zs) (mset (butlast ?zs))"
    using z(2) append_butlast_last_id [OF zne]
    by (metis add.commute add_mset_add_single mset.simps mset_append)
  moreover have "\<not> lt y (xs ! 0)" if "y \<in> set xs" for y
    using that heap_root_min [OF w h [unfolded is_heap_def]] by (auto simp: in_set_conv_nth)
  ultimately show ?thesis
    using ne zne lz by (simp add: heap_pop_def pq_pop_def Let_def)
qed

interpretation container_heap: min_queue lt length "heap_push lt" "heap_pop lt" mset "is_heap lt"
  for lt :: "'a \<Rightarrow> 'a \<Rightarrow> bool"
  using heap_pop_spec [of lt] by unfold_locales (auto simp: heap_push_heap)

section \<open>What holds without any law on the order\<close>

text \<open>
  A \<open>less\<close> function that is not an order (the comparison of float32 scores among which there is a
  NaN) breaks the heap order, but never loses or repeats an item and never makes an operation panic
  or run on.
\<close>

lemma mset_heap_up:
  "j < length xs \<Longrightarrow> mset (heap_up lt j xs) = mset xs"
proof (induction j arbitrary: xs rule: less_induct)
  case (less j)
  have "par j < j" if "par j \<noteq> j"
    using that par_less [of j] by (cases j) (auto simp: par_def)
  with less show ?case by (subst heap_up_eq) auto
qed

lemma mset_heap_down:
  "n \<le> length xs \<Longrightarrow> mset (heap_down lt i n xs) = mset xs"
proof (induction "n - i" arbitrary: i xs rule: less_induct)
  case less
  show ?case
  proof (cases "n \<le> 2 * i + 1 \<or> \<not> lt (xs ! best_child lt i n xs) (xs ! i)")
    case True
    then show ?thesis by (simp add: heap_down_eq [of lt i n xs])
  next
    case False
    then have b: "i < best_child lt i n xs" "best_child lt i n xs < n"
      using best_child(2,3) [of i n lt xs] by simp_all
    then have "n - best_child lt i n xs < n - i" by simp
    from less.hyps [OF this, of "pq_swap xs i (best_child lt i n xs)"] False b less.prems
    show ?thesis by (simp add: heap_down_eq [of lt i n xs])
  qed
qed

lemma length_heap_down [simp]: "n \<le> length xs \<Longrightarrow> length (heap_down lt i n xs) = length xs"
  using mset_heap_down [of n xs lt i] by (metis size_mset)

lemma mset_heap_push: "mset (heap_push lt x xs) = add_mset x (mset xs)"
  by (simp add: heap_push_def pq_push_def mset_heap_up)

lemma heap_pop_Ret:
  assumes "xs \<noteq> []"
  shows "\<exists>x ys. heap_pop lt xs = Ret (x, ys) \<and> mset xs = add_mset x (mset ys)"
proof -
  define zs where "zs = heap_down lt 0 (length xs - 1) (pq_swap xs 0 (length xs - 1))"
  have m: "mset zs = mset xs" using assms by (simp add: zs_def mset_heap_down)
  then have ne: "zs \<noteq> []" using assms by auto
  have "heap_pop lt xs = Ret (last zs, butlast zs)"
    using assms ne by (simp add: heap_pop_def pq_pop_def zs_def Let_def)
  moreover have "mset xs = add_mset (last zs) (mset (butlast zs))"
    using append_butlast_last_id [OF ne] m
    by (metis add.commute add_mset_add_single mset.simps mset_append)
  ultimately show ?thesis by blast
qed

interpretation container_bag: bag_queue length "heap_push lt" "heap_pop lt" mset
  for lt :: "'a \<Rightarrow> 'a \<Rightarrow> bool"
  using heap_pop_Ret [of _ lt] by unfold_locales (auto simp: mset_heap_push)

section \<open>heap.Init\<close>

lemma heap_from_leaves: "length xs div 2 \<le> k \<Longrightarrow> heap_from lt k (length xs) xs"
  by (auto simp: heap_from_def par_def)

lemma heap_init_heap:
  assumes "weak_order lt"
  shows "is_heap lt (heap_init lt xs) \<and> mset (heap_init lt xs) = mset xs"
proof -
  let ?f = "\<lambda>ys i. heap_down lt i (length xs) ys"
  have "heap_from lt 0 (length xs) (foldl ?f ys (rev [0..<k])) \<and>
        mset (foldl ?f ys (rev [0..<k])) = mset ys \<and> length (foldl ?f ys (rev [0..<k])) = length ys"
    if "length ys = length xs" "heap_from lt k (length xs) ys" for k ys
    using that
  proof (induction k arbitrary: ys)
    case 0
    then show ?case by simp
  next
    case (Suc k)
    have "\<not> lt (ys ! c) (ys ! par c)" if "0 < c" "c < length xs" "k \<le> par c" "par c \<noteq> k" for c
      using Suc.prems(2) that unfolding heap_from_def by simp
    moreover have "\<not> k \<le> par k" if "0 < k"
      using par_less [OF that] by simp
    ultimately have "hole_down lt k k (length xs) ys"
      unfolding hole_down_def by blast
    from heap_down_heap [OF assms _ _ this] Suc show ?case by simp
  qed
  from this [of xs "length xs div 2"] heap_from_leaves [of xs "length xs div 2" lt] show ?thesis
    by (simp add: heap_init_def is_heap_def)
qed

end
