(* ===== verification/Merge_Lists.thy ===== *)
theory Merge_Lists
  imports Heap_Queue
begin

text \<open>
  \<open>MergeSortedLists\<close> of \<open>internal/utils/utils.go\<close>: a k-way merge that keeps the head of
  every list in a priority queue and stops after \<open>cap\<close> items.  The loop takes the queue's
  operations as arguments (the source calls them through \<open>container/heap\<close>); its
  correctness is proved once from the contract \<open>min_queue\<close> and then used at the heap.
\<close>

text \<open>
  The inner \<open>for\<close> over the lists: the first list whose head equals the item loses it, and
  its new head, if any, is to be pushed.
\<close>

fun advance :: "'a \<Rightarrow> 'a list list \<Rightarrow> 'a list list \<times> 'a option" where
  "advance item [] = ([], None)"
| "advance item (l # ls) =
     (if l \<noteq> [] \<and> item = hd l
      then (tl l # ls, if tl l \<noteq> [] then Some (hd (tl l)) else None)
      else (let (ls', nxt) = advance item ls in (l # ls', nxt)))"

text \<open>
  The outer loop; its argument is \<open>cap - len(result)\<close>, which every iteration lowers by one,
  so the loop stops whatever the queue does.
\<close>

fun merge_loop ::
  "('q \<Rightarrow> nat) \<Rightarrow> ('a \<Rightarrow> 'q \<Rightarrow> 'q) \<Rightarrow> ('q \<Rightarrow> ('a \<times> 'q) run) \<Rightarrow> nat \<Rightarrow> 'a list list \<Rightarrow> 'q \<Rightarrow> 'a list run"
where
  "merge_loop qlen push pop 0 lss q = Ret []"
| "merge_loop qlen push pop (Suc k) lss q =
     (if qlen q = 0 then Ret []
      else run_bind (pop q) (\<lambda>(item, q').
        let (lss', nxt) = advance item lss;
            q'' = (case nxt of None \<Rightarrow> q' | Some x \<Rightarrow> push x q')
        in run_map (\<lambda>r. item # r) (merge_loop qlen push pop k lss' q'')))"

definition list_heads :: "'a list list \<Rightarrow> 'a list" where
  "list_heads ls = map hd (filter (\<lambda>l. l \<noteq> []) ls)"

definition merge_sorted_lists ::
  "'a list list \<Rightarrow> ('a \<Rightarrow> 'a \<Rightarrow> bool) \<Rightarrow> int \<Rightarrow> 'a list run" where
  "merge_sorted_lists lss lt cap =
     merge_loop length (heap_push lt) (heap_pop lt) (nat cap) lss
       (foldl (\<lambda>q x. heap_push lt x q) (heap_init lt []) (list_heads lss))"

section \<open>What a merge returns\<close>

text \<open>Ascending for \<open>lt\<close>: nothing later is less than something earlier.\<close>

abbreviation ascending :: "('a \<Rightarrow> 'a \<Rightarrow> bool) \<Rightarrow> 'a list \<Rightarrow> bool" where
  "ascending lt xs \<equiv> sorted_wrt (\<lambda>x y. \<not> lt y x) xs"

text \<open>
  The specification: \<open>r\<close> is an ascending choice of the \<open>k\<close> least items of the lists (all of
  them when there are fewer).
\<close>

definition least_items :: "('a \<Rightarrow> 'a \<Rightarrow> bool) \<Rightarrow> nat \<Rightarrow> 'a multiset \<Rightarrow> 'a list \<Rightarrow> bool" where
  "least_items lt k M r \<longleftrightarrow>
     ascending lt r \<and> mset r \<subseteq># M \<and> length r = min k (size M) \<and>
     (\<forall>x \<in> set r. \<forall>y \<in># M - mset r. \<not> lt y x)"

lemma least_items_empty: "least_items lt k {#} []"
  by (simp add: least_items_def)

lemma least_items_zero: "least_items lt 0 M []"
  by (simp add: least_items_def)

lemma least_items_Cons:
  assumes "\<forall>y \<in># add_mset x M. \<not> lt y x" "least_items lt k M r"
  shows "least_items lt (Suc k) (add_mset x M) (x # r)"
proof -
  have sub: "set r \<subseteq> set_mset M"
    using assms(2) by (metis least_items_def mset_subset_eqD set_mset_mset subsetI)
  then have "ascending lt (x # r)"
    using assms by (auto simp: least_items_def)
  moreover have "\<not> lt y x" if "y \<in># M - mset r" for y
    using that assms(1) by (simp add: in_diffD)
  ultimately show ?thesis
    using assms(2) by (simp add: least_items_def)
qed

text \<open>Only the comparisons among the items of the lists matter.\<close>

definition agree_on :: "'a set \<Rightarrow> ('a \<Rightarrow> 'a \<Rightarrow> bool) \<Rightarrow> ('a \<Rightarrow> 'a \<Rightarrow> bool) \<Rightarrow> bool" where
  "agree_on A lt lt' \<longleftrightarrow> (\<forall>x \<in> A. \<forall>y \<in> A. lt x y = lt' x y)"

lemma agree_on_sym: "agree_on A lt lt' \<Longrightarrow> agree_on A lt' lt"
  by (simp add: agree_on_def)

lemma ascending_agree:
  "agree_on A lt lt' \<Longrightarrow> set xs \<subseteq> A \<Longrightarrow> ascending lt xs \<Longrightarrow> ascending lt' xs"
  by (erule sorted_wrt_mono_rel [rotated]) (auto simp: agree_on_def subset_iff)

lemma least_items_agree:
  assumes "agree_on (set_mset M) lt lt'" "least_items lt k M r"
  shows "least_items lt' k M r"
proof -
  have sub: "set r \<subseteq> set_mset M"
    using assms(2) by (metis least_items_def mset_subset_eqD set_mset_mset subsetI)
  have "\<not> lt' y x" if "x \<in> set r" "y \<in># M - mset r" for x y
    using assms that sub in_diffD [OF that(2)] unfolding least_items_def agree_on_def by blast
  with assms sub show ?thesis by (auto simp: least_items_def intro: ascending_agree)
qed

text \<open>For an order given by a key, the least items are the first ones of the sorted keys.\<close>

lemma least_items_sort:
  fixes key :: "'a \<Rightarrow> 'b :: linorder"
  assumes "least_items (\<lambda>x y. key x < key y) k (mset xs) r"
  shows "map key r = take k (sort (map key xs))"
proof -
  obtain ys where ys: "mset ys = mset xs - mset r" using ex_mset by blast
  have xs: "mset xs = mset (r @ ys)"
    using assms ys by (simp add: least_items_def)
  have sr: "sorted (map key r)"
    using assms by (simp add: least_items_def sorted_map not_less)
  have "key x \<le> key y" if "x \<in> set r" "y \<in> set ys" for x y
    using assms that ys by (auto simp: least_items_def not_less simp flip: set_mset_mset)
  then have "sorted (map key r @ sort (map key ys))"
    using sr by (auto simp: sorted_append)
  moreover have "mset (map key r @ sort (map key ys)) = mset (map key xs)"
    using xs by (simp add: image_mset_union)
  ultimately have s: "sort (map key xs) = map key r @ sort (map key ys)"
    by (intro properties_for_sort) simp_all
  have l: "length r = min k (length xs)" using assms by (simp add: least_items_def)
  show ?thesis
  proof (cases "k \<le> length xs")
    case True
    with l have "k = length (map key r)" by simp
    then show ?thesis unfolding s by simp
  next
    case False
    with l have "length r = length (r @ ys)" using arg_cong [OF xs, of size] by simp
    then have "ys = []" by simp
    with s l False show ?thesis by simp
  qed
qed

lemma list_heads_Cons:
  "list_heads (l # ls) = (if l = [] then list_heads ls else hd l # list_heads ls)"
  by (simp add: list_heads_def)

lemma list_heads_empty: "list_heads ls = [] \<longleftrightarrow> concat ls = []"
  by (auto simp: list_heads_def filter_empty_conv)

lemma heads_least:
  assumes w: "weak_order lt" and s: "\<forall>l \<in> set ls. ascending lt l"
    and h: "\<forall>y \<in> set (list_heads ls). \<not> lt y x" and z: "z \<in># mset (concat ls)"
  shows "\<not> lt z x"
proof -
  from z obtain l where l: "l \<in> set ls" "z \<in> set l" by auto
  then have "l \<noteq> []" by auto
  with l have "\<not> lt (hd l) x" using h by (auto simp: list_heads_def)
  moreover have "\<not> lt z (hd l)"
    using s l weak_order_irrefl [OF w] by (cases l) auto
  ultimately show ?thesis by (rule weak_order_cotrans [OF w, rotated])
qed

lemma advance_spec:
  assumes "x \<in> set (list_heads ls)" "advance x ls = (ls', nxt)"
  shows "mset (concat ls) = add_mset x (mset (concat ls'))"
    and "mset (list_heads ls') =
      mset (list_heads ls) - {#x#} + (case nxt of None \<Rightarrow> {#} | Some y \<Rightarrow> {#y#})"
    and "(\<forall>l \<in> set ls. ascending lt l) \<Longrightarrow> (\<forall>l \<in> set ls'. ascending lt l)"
proof -
  have "mset (concat ls) = add_mset x (mset (concat ls')) \<and>
    add_mset x (mset (list_heads ls')) =
      mset (list_heads ls) + (case nxt of None \<Rightarrow> {#} | Some y \<Rightarrow> {#y#}) \<and>
    ((\<forall>l \<in> set ls. ascending lt l) \<longrightarrow> (\<forall>l \<in> set ls'. ascending lt l))"
    using assms
  proof (induction ls arbitrary: ls' nxt)
    case Nil
    then show ?case by (simp add: list_heads_def)
  next
    case (Cons l ls)
    show ?case
    proof (cases "l \<noteq> [] \<and> x = hd l")
      case True
      with Cons.prems show ?thesis
        by (cases l; cases "tl l") (auto simp: list_heads_def)
    next
      case False
      then have "x \<in> set (list_heads ls)"
        using Cons.prems(1) by (auto simp: list_heads_Cons split: if_splits)
      moreover obtain ks n where a: "advance x ls = (ks, n)" by fastforce
      ultimately have IH: "mset (concat ls) = add_mset x (mset (concat ks))"
        "add_mset x (mset (list_heads ks)) =
          mset (list_heads ls) + (case n of None \<Rightarrow> {#} | Some y \<Rightarrow> {#y#})"
        "(\<forall>l \<in> set ls. ascending lt l) \<longrightarrow> (\<forall>l \<in> set ks. ascending lt l)"
        using Cons.IH by blast+
      from False Cons.prems(2) a have "ls' = l # ks" "nxt = n"
        by (simp_all only: advance.simps if_False prod.case Let_def) auto
      with IH show ?thesis
        by (cases "l = []") (simp_all add: list_heads_def)
    qed
  qed
  then show "mset (concat ls) = add_mset x (mset (concat ls'))"
    and "mset (list_heads ls') =
      mset (list_heads ls) - {#x#} + (case nxt of None \<Rightarrow> {#} | Some y \<Rightarrow> {#y#})"
    and "(\<forall>l \<in> set ls. ascending lt l) \<Longrightarrow> (\<forall>l \<in> set ls'. ascending lt l)"
    using assms(1) by (auto simp: set_mset_mset [symmetric] simp del: set_mset_mset
        dest!: multi_member_split)
qed

section \<open>The loop, from the contract of the queue\<close>

context min_queue
begin

lemma merge_loop_least:
  assumes "weak_order lt" "inv q" "elems q = mset (list_heads ls)"
    "\<forall>l \<in> set ls. ascending lt l"
  shows "\<exists>r. merge_loop qlen push pop k ls q = Ret r \<and> least_items lt k (mset (concat ls)) r"
  using assms(2-)
proof (induction k arbitrary: ls q)
  case 0
  then show ?case by (simp add: least_items_zero)
next
  case (Suc k)
  show ?case
  proof (cases "elems q = {#}")
    case True
    then have "list_heads ls = []" using Suc.prems(2) by simp
    then have "mset (concat ls) = {#}" by (simp only: list_heads_empty mset.simps)
    then have "least_items lt (Suc k) (mset (concat ls)) []" by (simp only: least_items_empty)
    with True show ?thesis by (simp add: qlen_elems)
  next
    case False
    obtain x q' where p: "pop q = Ret (x, q')" "inv q'" "elems q = add_mset x (elems q')"
      "\<forall>y \<in># elems q. \<not> lt y x"
      using pop_min [OF assms(1) Suc.prems(1) False] by blast
    obtain ls' nxt where a: "advance x ls = (ls', nxt)" by fastforce
    have x: "x \<in> set (list_heads ls)"
      using p(3) Suc.prems(2) by (metis set_mset_mset union_single_eq_member)
    note adv = advance_spec [OF x a]
    let ?q = "case nxt of None \<Rightarrow> q' | Some y \<Rightarrow> push y q'"
    have "elems q' = mset (list_heads ls) - {#x#}"
      using p(3) Suc.prems(2) by (metis add_mset_remove_trivial)
    then have "inv ?q \<and> elems ?q = mset (list_heads ls')"
      using adv(2) p(2) by (cases nxt) (simp_all add: inv_push elems_push assms(1))
    with Suc.IH [of ?q ls'] adv(3) Suc.prems(3) obtain r where
      r: "merge_loop qlen push pop k ls' ?q = Ret r" "least_items lt k (mset (concat ls')) r"
      by blast
    have "\<forall>y \<in># mset (concat ls). \<not> lt y x"
      using heads_least [OF assms(1) Suc.prems(3)] p(4) Suc.prems(2) by simp
    then have "least_items lt (Suc k) (mset (concat ls)) (x # r)"
      unfolding adv(1) by (rule least_items_Cons) (rule r(2))
    moreover have "merge_loop qlen push pop (Suc k) ls q = Ret (x # r)"
      using False p(1) a r(1) by (simp add: qlen_elems)
    ultimately show ?thesis by blast
  qed
qed

end

text \<open>Without an order: the loop returns and takes items of the lists.\<close>

context bag_queue
begin

lemma merge_loop_bag:
  assumes "elems q = mset (list_heads ls)"
  shows "\<exists>r. merge_loop qlen push pop k ls q = Ret r \<and> mset r \<subseteq># mset (concat ls) \<and>
             length r = min k (length (concat ls))"
  using assms
proof (induction k arbitrary: ls q)
  case 0
  then show ?case by simp
next
  case (Suc k)
  show ?case
  proof (cases "elems q = {#}")
    case True
    then have "list_heads ls = []" using Suc.prems by simp
    then have "concat ls = []" by (simp only: list_heads_empty)
    then have "length (concat ls) = 0" by (simp only: list.size)
    with True show ?thesis by (simp only: qlen_elems merge_loop.simps) simp
  next
    case False
    obtain x q' where p: "pop q = Ret (x, q')" "elems q = add_mset x (elems q')"
      using pop_some [OF False] by blast
    obtain ls' nxt where a: "advance x ls = (ls', nxt)" by fastforce
    have x: "x \<in> set (list_heads ls)"
      using p(2) Suc.prems by (metis set_mset_mset union_single_eq_member)
    note adv = advance_spec [OF x a]
    let ?q = "case nxt of None \<Rightarrow> q' | Some y \<Rightarrow> push y q'"
    have "elems q' = mset (list_heads ls) - {#x#}"
      using p(2) Suc.prems by (metis add_mset_remove_trivial)
    then have "elems ?q = mset (list_heads ls')"
      using adv(2) by (cases nxt) (simp_all add: elems_push)
    from Suc.IH [OF this] obtain r where
      r: "merge_loop qlen push pop k ls' ?q = Ret r" "mset r \<subseteq># mset (concat ls')"
        "length r = min k (length (concat ls'))"
      by blast
    have "merge_loop qlen push pop (Suc k) ls q = Ret (x # r)"
      using False p(1) a r(1) by (simp add: qlen_elems)
    moreover have "mset (x # r) \<subseteq># mset (concat ls)"
      unfolding adv(1) using r(2) by simp
    moreover have "length (concat ls) = Suc (length (concat ls'))"
      using adv(1) by (metis size_add_mset size_mset)
    ultimately show ?thesis using r(3) by auto
  qed
qed

end

lemma merge_sorted_lists_Ret:
  "\<exists>r. merge_sorted_lists lss lt cap = Ret r \<and> mset r \<subseteq># mset (concat lss) \<and>
       length r = min (nat cap) (length (concat lss))"
  unfolding merge_sorted_lists_def
  by (rule container_bag.merge_loop_bag)
    (simp add: container_bag.elems_push_all heap_init_def)

lemma merge_sorted_lists_least:
  assumes "weak_order lt" "\<forall>l \<in> set lss. ascending lt l"
  shows "\<exists>r. merge_sorted_lists lss lt cap = Ret r \<and>
             least_items lt (nat cap) (mset (concat lss)) r"
proof -
  have i: "is_heap lt (heap_init lt [])" "mset (heap_init lt []) = mset []"
    using heap_init_heap [OF assms(1), of "[]"] by blast+
  show ?thesis
    unfolding merge_sorted_lists_def
    using assms i container_heap.inv_push_all [OF assms(1) i(1)]
      container_heap.elems_push_all [OF assms(1) i(1)]
    by (intro container_heap.merge_loop_least) auto
qed

section \<open>Properties\<close>

text \<open>A merge of ascending lists returns the least items: the result is ascending, it consists of
  items of the lists with their multiplicities, it has \<open>cap\<close> items or all of them when there are
  fewer, and no item left out is less than one returned.  The merge always returns.\<close>

theorem merge_returns_least:
  assumes "weak_order lt" "\<forall>l \<in> set lss. ascending lt l"
  shows "\<exists>r. merge_sorted_lists lss lt cap = Ret r \<and> ascending lt r \<and>
    mset r \<subseteq># mset (concat lss) \<and> length r = min (nat cap) (length (concat lss)) \<and>
    (\<forall>x \<in> set r. \<forall>y \<in># mset (concat lss) - mset r. \<not> lt y x)"
proof -
  obtain r where "merge_sorted_lists lss lt cap = Ret r" "least_items lt (nat cap) (mset (concat lss)) r"
    using merge_sorted_lists_least [OF assms] by blast
  then show ?thesis by (simp add: least_items_def)
qed

theorem merge_returns_least_witness:
  "\<exists>r. merge_sorted_lists [[1, 4], [2, 3, 9]] (<) 3 = Ret r \<and> ascending (<) r \<and> length r = 3 \<and>
     mset r \<subseteq># {#1, 4, 2, 3, 9 :: int#}"
proof -
  have w: "weak_order ((<) :: int \<Rightarrow> int \<Rightarrow> bool)" using weak_order_key [of "\<lambda>x. x"] by simp
  have s: "\<forall>l \<in> set [[1, 4], [2, 3, 9 :: int]]. ascending (<) l" by simp
  from merge_returns_least [OF w s, of 3] show ?thesis by auto
qed

text \<open>C37: The merge always returns, whatever lists it is given and whatever the comparison does
  (the scores may be NaN, so that \<open>less\<close> is no order): its loop neither panics on an empty
  queue nor runs on, and the result has \<open>cap\<close> items of the lists, or all of them when there are fewer,
  none of them invented or repeated.\<close>

theorem merge_returns_always:
  "\<exists>r. merge_sorted_lists lss lt cap = Ret r \<and> mset r \<subseteq># mset (concat lss) \<and>
       length r = min (nat cap) (length (concat lss))"
  by (rule merge_sorted_lists_Ret)

text \<open>C36: Merging is the same as sorting: when every list is ascending by a key, the keys of the
  result are the first \<open>cap\<close> keys of the concatenated lists in sorted order.\<close>

theorem merge_equals_sort:
  fixes key :: "'a \<Rightarrow> 'b :: linorder"
  assumes "\<forall>l \<in> set lss. sorted (map key l)"
  shows "\<exists>r. merge_sorted_lists lss (\<lambda>x y. key x < key y) cap = Ret r \<and>
    map key r = take (nat cap) (sort (map key (concat lss)))"
proof -
  have asc: "ascending (\<lambda>x y. key x < key y) l \<longleftrightarrow> sorted (map key l)" for l
    by (simp add: sorted_map not_less)
  obtain r where r: "merge_sorted_lists lss (\<lambda>x y. key x < key y) cap = Ret r"
    "least_items (\<lambda>x y. key x < key y) (nat cap) (mset (concat lss)) r"
    using merge_sorted_lists_least [OF weak_order_key [of key], of lss cap] assms asc by blast
  with least_items_sort [OF r(2)] show ?thesis by simp
qed

theorem merge_equals_sort_witness:
  "\<exists>r. merge_sorted_lists [[1, 4], [2, 3, 9 :: int]] (\<lambda>x y. x < y) 3 = Ret r \<and> r = [1, 2, 3]"
proof -
  have "\<forall>l \<in> set [[1, 4], [2, 3, 9 :: int]]. sorted (map (\<lambda>x. x) l)" by simp
  from merge_equals_sort [OF this, of 3] show ?thesis by simp
qed

text \<open>The merge needs lists that are ascending.  Lists in descending order, as a search by inner
  product returns them, are not merged to the best items in either direction: here the best score 9 of the
  second list is left out of a merge of three although it stands at the head of its list.\<close>

theorem merge_of_descending_lists_loses_best:
  "merge_sorted_lists [[3, 2, 1], [9, 8, 7]] (<) 3 = Ret [3, 2, 1 :: int]"
  by code_simp

end
