(* ===== verification/Processor.thy ===== *)
theory Processor
  imports Commit Merge_Lists
begin

text \<open>
  \<open>internal/processor\<close>: the two requests.  \<open>Search\<close> asks the manager for every shard of an index,
  sends the shards that are elsewhere to other nodes, and merges the shards' answers; \<open>SearchShard\<close>
  searches one loaded shard.  The RPC to another node is a parameter, \<open>remote\<close>.  The merge compares
  items by pointer, so an item carries the shard and the position it was made for.
\<close>

section \<open>Messages\<close>

record item =
  it_id :: string
  it_score :: f32
  it_doc :: string

text \<open>An item with its identity: the index of its shard's answer and its position there.\<close>

type_synonym tagged_item = "nat \<times> nat \<times> item"

record pb_result =
  pr_items :: "item list"
  pr_error :: string

record search_request =
  rq_index_name :: string
  rq_inputs :: "f32 list list"
  rq_limit :: int

record shard_request =
  sq_shard_key :: string
  sq_input :: "f32 list"
  sq_limit :: int

text \<open>What the client of another node gives: no client, or the answer and the error of the call.\<close>

datatype remote_answer = NoClient error | Answered "pb_result option option" "error option"

section \<open>Searching one shard\<close>

text \<open>The response is returned with the error, and its item slice is made with \<open>limit\<close> as its capacity.\<close>

definition search_shard_handle :: "sys \<Rightarrow> shard_request \<Rightarrow> (pb_result \<times> error option) run" where
  "search_shard_handle s rq =
     (if sq_limit rq < 0 then Panic MakeSliceRange
      else run_map (\<lambda>(res, err).
        case err of
          Some e \<Rightarrow> (\<lparr>pr_items = [], pr_error = err_text e\<rparr>, Some e)
        | None \<Rightarrow> (\<lparr>pr_items = map (\<lambda>l. \<lparr>it_id = lb_label l, it_score = lb_distance l, it_doc = ''''\<rparr>) (sr_result res),
                    pr_error = ''''\<rparr>, None))
        (search_shard s (from_string (sq_shard_key rq) zero_shard) (sq_input rq) (sq_limit rq)))"

section \<open>Searching an index\<close>

definition empty_result :: pb_result where
  "empty_result = \<lparr>pr_items = [], pr_error = ''''\<rparr>"

text \<open>
  The answer of one shard.  A shard that is here contributes its items; its error is not copied.  A shard to
  be routed is asked for by a request without a shard key.
\<close>

definition shard_answer ::
    "(shard \<Rightarrow> shard_request \<Rightarrow> remote_answer) \<Rightarrow> f32 list \<Rightarrow> int \<Rightarrow> search_result \<Rightarrow> pb_result option" where
  "shard_answer remote vec limit r =
     (if \<not> sr_to_route r then
        Some \<lparr>pr_items = map (\<lambda>l. \<lparr>it_id = lb_label l, it_score = lb_distance l, it_doc = ''''\<rparr>) (sr_result r),
              pr_error = ''''\<rparr>
      else (case remote (sr_shard r) \<lparr>sq_shard_key = '''', sq_input = vec, sq_limit = limit\<rparr> of
        NoClient e \<Rightarrow> Some (empty_result\<lparr>pr_error := err_text e\<rparr>)
      | Answered resp err \<Rightarrow>
          (case resp of
            Some res \<Rightarrow> res
          | None \<Rightarrow> Some (case err of Some e \<Rightarrow> empty_result\<lparr>pr_error := err_text e\<rparr> | None \<Rightarrow> empty_result))))"

text \<open>The getters of a message work on nil.\<close>

definition get_items :: "pb_result option \<Rightarrow> item list" where
  "get_items r = (case r of None \<Rightarrow> [] | Some p \<Rightarrow> pr_items p)"

definition get_error :: "pb_result option \<Rightarrow> string" where
  "get_error r = (case r of None \<Rightarrow> '''' | Some p \<Rightarrow> pr_error p)"

definition score_less :: "tagged_item \<Rightarrow> tagged_item \<Rightarrow> bool" where
  "score_less a b = f32_less (it_score (snd (snd a))) (it_score (snd (snd b)))"

definition tag_items :: "nat \<Rightarrow> item list \<Rightarrow> tagged_item list" where
  "tag_items j items = map (\<lambda>(i, x). (j, i, x)) (enumerate 0 items)"

definition tag_answers :: "pb_result option list \<Rightarrow> tagged_item list list" where
  "tag_answers rs = map (\<lambda>(j, r). tag_items j (get_items r)) (enumerate 0 rs)"

definition merge_answers :: "int \<Rightarrow> pb_result option list \<Rightarrow> pb_result run" where
  "merge_answers limit rs =
     run_map (\<lambda>items.
       \<lparr>pr_items = map (\<lambda>t. snd (snd t)) items,
        pr_error = (if list_ex (\<lambda>r. get_error r \<noteq> '''') rs
                    then concat (map (\<lambda>r. ''|'' @ get_error r) rs) else '''')\<rparr>)
       (merge_sorted_lists (tag_answers rs) score_less limit)"

text \<open>One input vector; \<open>None\<close> in the first component ends the whole request.\<close>

definition search_input ::
    "(shard \<Rightarrow> shard_request \<Rightarrow> remote_answer) \<Rightarrow> sys \<Rightarrow> search_request \<Rightarrow> f32 list \<Rightarrow> (error + pb_result option) run" where
  "search_input remote s rq vec =
     run_bind (manager_search s (rq_index_name rq) vec (rq_limit rq)) (\<lambda>out.
       case out of
         Inl e \<Rightarrow> Ret (Inr (Some \<lparr>pr_items = [], pr_error = err_text e\<rparr>))
       | Inr [] \<Rightarrow> Ret (Inl (Cfg ErrIndexNotFound))
       | Inr (r # rs) \<Rightarrow>
           (let answers = map (shard_answer remote vec (rq_limit rq)) (r # rs) in
            if rs \<noteq> [] then run_map (\<lambda>p. Inr (Some p)) (merge_answers (rq_limit rq) answers)
            else Ret (Inr (hd answers))))"

fun search_inputs ::
    "(shard \<Rightarrow> shard_request \<Rightarrow> remote_answer) \<Rightarrow> sys \<Rightarrow> search_request \<Rightarrow> f32 list list \<Rightarrow>
     (error + pb_result option list) run" where
  "search_inputs remote s rq [] = Ret (Inr [])"
| "search_inputs remote s rq (v # vs) =
     run_bind (search_input remote s rq v) (\<lambda>out.
       case out of
         Inl e \<Rightarrow> Ret (Inl e)
       | Inr r \<Rightarrow> run_map (\<lambda>out'. case out' of Inl e \<Rightarrow> Inl e | Inr rs \<Rightarrow> Inr (r # rs)) (search_inputs remote s rq vs))"

definition search_handle ::
    "(shard \<Rightarrow> shard_request \<Rightarrow> remote_answer) \<Rightarrow> sys \<Rightarrow> search_request \<Rightarrow> (error + pb_result option list) run" where
  "search_handle remote s rq =
     (if rq_limit rq \<le> 0 then Ret (Inl (Cfg ErrInvalidLimit))
      else if rq_inputs rq = [] then Ret (Inl (Cfg ErrEmptyInput))
      else search_inputs remote s rq (rq_inputs rq))"

section \<open>The gRPC service and the HTTP handlers\<close>

text \<open>The core gRPC service: searching is the only method that is implemented.\<close>

datatype core_request =
    SearchRq search_request | ListIndexRq | CreateIndexRq | GetIndexStatRq | GetIndexMetaRq

definition unimplemented :: "string \<Rightarrow> error" where
  "unimplemented method = ErrText (''rpc error: code = Unimplemented desc = '' @ method @ '' not implemented'')"

fun core_service ::
    "(shard \<Rightarrow> shard_request \<Rightarrow> remote_answer) \<Rightarrow> sys \<Rightarrow> core_request \<Rightarrow> (error + pb_result option list) run" where
  "core_service remote s (SearchRq rq) = search_handle remote s rq"
| "core_service remote s ListIndexRq = Ret (Inl (unimplemented ''ListIndex''))"
| "core_service remote s CreateIndexRq = Ret (Inl (unimplemented ''CreateIndex''))"
| "core_service remote s GetIndexStatRq = Ret (Inl (unimplemented ''GetIndexStat''))"
| "core_service remote s GetIndexMetaRq = Ret (Inl (unimplemented ''GetIndexMeta''))"

text \<open>The status of the two \<open>GinHandleFunc\<close>: \<open>bound\<close> tells whether the body could be read.\<close>

definition search_http_status :: "bool \<Rightarrow> error + pb_result option list \<Rightarrow> int" where
  "search_http_status bound out =
     (if \<not> bound then 400
      else (case out of
        Inl e \<Rightarrow> if err_is e ErrIndexNotFound then 404 else 500
      | Inr rs \<Rightarrow> 200))"

definition search_shard_http_status :: "bool \<Rightarrow> pb_result \<times> error option \<Rightarrow> int" where
  "search_shard_http_status bound out =
     (if \<not> bound then 400
      else (case snd out of
        Some e \<Rightarrow> if err_is e ErrShardNotFound then 404 else 500
      | None \<Rightarrow> 200))"

section \<open>Merging without NaN\<close>

text \<open>
  The comparison of scores is a strict weak order only without NaN.  The merge depends on nothing but the
  comparisons of the items it is given, so it may be replaced by an order that agrees on these.
\<close>

lemma set_pq_swap: "i < length xs \<Longrightarrow> j < length xs \<Longrightarrow> set (pq_swap xs i j) = set xs"
  using set_swap [of i xs j] by (simp add: pq_swap_def)

lemma pq_less_agree:
  "agree_on A lt lt' \<Longrightarrow> set xs \<subseteq> A \<Longrightarrow> i < length xs \<Longrightarrow> j < length xs \<Longrightarrow> pq_less lt xs i j = pq_less lt' xs i j"
  by (auto simp: agree_on_def pq_less_def subset_iff)

lemma heap_up_agree:
  assumes "agree_on A lt lt'"
  shows "set xs \<subseteq> A \<Longrightarrow> j < length xs \<Longrightarrow> heap_up lt j xs = heap_up lt' j xs \<and> set (heap_up lt' j xs) = set xs"
proof (induction j arbitrary: xs rule: less_induct)
  case (less j)
  let ?i = "(j - 1) div 2"
  have il: "?i < length xs" using less.prems(2) by simp
  have eq: "pq_less lt xs j ?i = pq_less lt' xs j ?i"
    using pq_less_agree [OF assms less.prems(1,2) il] .
  show ?case
  proof (cases "?i = j \<or> \<not> pq_less lt xs j ?i")
    case True
    with eq show ?thesis by (subst heap_up.simps, subst (2) heap_up.simps, subst (3) heap_up.simps) (auto simp: Let_def)
  next
    case False
    then have "?i < j" by auto
    have s: "set (pq_swap xs ?i j) = set xs" using set_pq_swap [OF il less.prems(2)] .
    have "heap_up lt ?i (pq_swap xs ?i j) = heap_up lt' ?i (pq_swap xs ?i j) \<and>
        set (heap_up lt' ?i (pq_swap xs ?i j)) = set (pq_swap xs ?i j)"
      by (rule less.IH [OF \<open>?i < j\<close>]) (use s less.prems(1) il in simp_all)
    moreover have "heap_up lt j xs = heap_up lt ?i (pq_swap xs ?i j)"
      using False by (subst heap_up.simps) (simp add: Let_def)
    moreover have "heap_up lt' j xs = heap_up lt' ?i (pq_swap xs ?i j)"
      using False eq by (subst heap_up.simps) (simp add: Let_def)
    ultimately show ?thesis using s by simp
  qed
qed

lemma heap_down_agree:
  assumes "agree_on A lt lt'"
  shows "set xs \<subseteq> A \<Longrightarrow> n \<le> length xs \<Longrightarrow> i < n \<Longrightarrow>
    heap_down lt i n xs = heap_down lt' i n xs \<and> set (heap_down lt' i n xs) = set xs"
proof (induction "n - i" arbitrary: i xs rule: less_induct)
  case less
  let ?j1 = "2 * i + 1"
  show ?case
  proof (cases "n \<le> ?j1")
    case True
    then show ?thesis by (subst heap_down.simps, subst (2) heap_down.simps, subst (3) heap_down.simps) (simp add: Let_def)
  next
    case False
    define j where "j = (if ?j1 + 1 < n \<and> pq_less lt xs (?j1 + 1) ?j1 then ?j1 + 1 else ?j1)"
    have j: "j < n" "i < j" using False by (auto simp: j_def)
    have "?j1 + 1 < n \<Longrightarrow> pq_less lt xs (?j1 + 1) ?j1 = pq_less lt' xs (?j1 + 1) ?j1"
      by (rule pq_less_agree [OF assms less.prems(1)]) (use less.prems(2) in simp_all)
    then have j': "j = (if ?j1 + 1 < n \<and> pq_less lt' xs (?j1 + 1) ?j1 then ?j1 + 1 else ?j1)"
      by (auto simp: j_def)
    have eq: "pq_less lt xs j i = pq_less lt' xs j i"
      by (rule pq_less_agree [OF assms less.prems(1)]) (use j less.prems(2,3) in simp_all)
    have u: "heap_down lt i n xs = (if \<not> pq_less lt xs j i then xs else heap_down lt j n (pq_swap xs i j))"
      using False by (subst heap_down.simps) (simp add: Let_def j_def)
    have u': "heap_down lt' i n xs = (if \<not> pq_less lt' xs j i then xs else heap_down lt' j n (pq_swap xs i j))"
      using False by (subst heap_down.simps) (simp add: Let_def j')
    have s: "set (pq_swap xs i j) = set xs" by (rule set_pq_swap) (use j less.prems(2,3) in simp_all)
    have "heap_down lt j n (pq_swap xs i j) = heap_down lt' j n (pq_swap xs i j) \<and>
        set (heap_down lt' j n (pq_swap xs i j)) = set (pq_swap xs i j)"
      by (rule less.hyps) (use j less.prems s in simp_all)
    with u u' eq s show ?thesis by auto
  qed
qed

lemma heap_push_agree:
  assumes "agree_on A lt lt'" "set q \<subseteq> A" "x \<in> A"
  shows "heap_push lt x q = heap_push lt' x q \<and> set (heap_push lt' x q) = insert x (set q)"
  using heap_up_agree [OF assms(1), of "q @ [x]" "length q"] assms(2,3)
  by (simp add: heap_push_def pq_push_def)

lemma heap_pop_agree:
  assumes "agree_on A lt lt'" "set q \<subseteq> A"
  shows "heap_pop lt q = heap_pop lt' q \<and> (\<forall>x q'. heap_pop lt q = Ret (x, q') \<longrightarrow> x \<in> set q \<and> set q' \<subseteq> set q)"
proof (cases "q = []")
  case True
  then show ?thesis by (simp add: heap_pop_def)
next
  case False
  let ?n = "length q - 1" and ?s = "pq_swap q 0 (length q - 1)"
  have s: "set ?s = set q" by (rule set_pq_swap) (use False in simp_all)
  have d: "heap_down lt 0 ?n ?s = heap_down lt' 0 ?n ?s \<and> set (heap_down lt' 0 ?n ?s) = set q"
  proof (cases "?n = 0")
    case True
    then show ?thesis
      using s by (subst heap_down.simps, subst (2) heap_down.simps, subst (3) heap_down.simps) (simp add: Let_def)
  next
    case False
    then show ?thesis using heap_down_agree [OF assms(1), of ?s ?n 0] s assms(2) by simp
  qed
  then have "heap_down lt' 0 ?n ?s \<noteq> []" using False by (metis empty_iff last_in_set list.set(1))
  with d False show ?thesis
    by (auto simp: heap_pop_def pq_pop_def Let_def dest: in_set_butlastD intro: last_in_set)
qed

lemma heap_pushes_agree:
  assumes "agree_on A lt lt'"
  shows "set q \<subseteq> A \<Longrightarrow> set xs \<subseteq> A \<Longrightarrow>
    foldl (\<lambda>q x. heap_push lt x q) q xs = foldl (\<lambda>q x. heap_push lt' x q) q xs \<and>
    set (foldl (\<lambda>q x. heap_push lt' x q) q xs) = set q \<union> set xs"
proof (induction xs arbitrary: q)
  case Nil
  then show ?case by simp
next
  case (Cons x xs)
  have p: "heap_push lt x q = heap_push lt' x q \<and> set (heap_push lt' x q) = insert x (set q)"
    using heap_push_agree [OF assms Cons.prems(1)] Cons.prems(2) by simp
  with Cons.IH [of "heap_push lt' x q"] Cons.prems show ?case by auto
qed

lemma advance_subset:
  "advance x lss = (lss', nxt) \<Longrightarrow> set (concat lss') \<subseteq> set (concat lss) \<and> set_option nxt \<subseteq> set (concat lss)"
proof (induction lss arbitrary: lss' nxt)
  case Nil
  then show ?case by simp
next
  case (Cons l lss)
  show ?case
  proof (cases "l \<noteq> [] \<and> x = hd l")
    case True
    then have "set (tl l) \<subseteq> set l" by (cases l) auto
    then show ?thesis using Cons.prems True by (auto split: if_splits dest: hd_in_set)
  next
    case False
    then obtain ls' where "advance x lss = (ls', nxt)" "lss' = l # ls'"
      using Cons.prems by (auto split: prod.splits)
    with Cons.IH [of ls' nxt] show ?thesis by auto
  qed
qed

lemma merge_loop_agree:
  assumes "agree_on A lt lt'"
  shows "set q \<subseteq> A \<Longrightarrow> set (concat lss) \<subseteq> A \<Longrightarrow>
    merge_loop length (heap_push lt) (heap_pop lt) k lss q = merge_loop length (heap_push lt') (heap_pop lt') k lss q"
proof (induction k arbitrary: lss q)
  case 0
  then show ?case by simp
next
  case (Suc k)
  show ?case
  proof (cases "q = [] \<or> (\<exists>p. heap_pop lt q = Panic p)")
    case True
    then show ?thesis using heap_pop_agree [OF assms Suc.prems(1)] by auto
  next
    case False
    then obtain x q' where p: "heap_pop lt q = Ret (x, q')" by (metis prod.exhaust run.exhaust)
    then have p': "heap_pop lt' q = Ret (x, q')" "set q' \<subseteq> A"
      using heap_pop_agree [OF assms Suc.prems(1)] Suc.prems(1) by auto
    obtain lss' nxt where a: "advance x lss = (lss', nxt)" by fastforce
    note sub = advance_subset [OF a]
    define q2 where "q2 = (case nxt of None \<Rightarrow> q' | Some y \<Rightarrow> heap_push lt y q')"
    have q2: "q2 = (case nxt of None \<Rightarrow> q' | Some y \<Rightarrow> heap_push lt' y q') \<and> set q2 \<subseteq> A"
    proof (cases nxt)
      case None
      then show ?thesis using p' by (simp add: q2_def)
    next
      case (Some y)
      then have "y \<in> A" using sub Suc.prems(2) by auto
      with heap_push_agree [OF assms p'(2)] p'(2) Some show ?thesis by (auto simp: q2_def)
    qed
    have "set (concat lss') \<subseteq> A" using subset_trans [OF conjunct1 [OF sub] Suc.prems(2)] .
    from Suc.IH [OF conjunct2 [OF q2] this] False p p'(1) a q2 show ?thesis
      by (simp add: q2_def Let_def)
  qed
qed

lemma list_heads_subset: "set (list_heads lss) \<subseteq> set (concat lss)"
  by (auto simp: list_heads_def)

lemma merge_agree:
  assumes "agree_on (set (concat lss)) lt lt'"
  shows "merge_sorted_lists lss lt cap = merge_sorted_lists lss lt' cap"
proof -
  have i: "heap_init lt [] = []" "heap_init lt' [] = []" by (simp_all add: heap_init_def)
  note h = heap_pushes_agree [OF assms, of "[]" "list_heads lss"] list_heads_subset [of lss]
  show ?thesis
    unfolding merge_sorted_lists_def i using h merge_loop_agree [OF assms] by simp
qed

text \<open>Where there is no NaN the comparison is the total order of the scores.\<close>

lemma merge_scores_least:
  assumes "\<forall>l \<in> set lss. ascending score_less l" "\<forall>t \<in> set (concat lss). it_score (snd (snd t)) \<noteq> F_nan"
  shows "\<exists>r. merge_sorted_lists lss score_less cap = Ret r \<and> least_items score_less (nat cap) (mset (concat lss)) r"
proof -
  define lt' where "lt' = (\<lambda>(a :: tagged_item) (b :: tagged_item). it_score (snd (snd a)) < it_score (snd (snd b)))"
  have agree: "agree_on (set (concat lss)) score_less lt'"
    using assms(2) by (auto simp: agree_on_def score_less_def lt'_def f32_less_order)
  have w: "weak_order lt'" unfolding lt'_def by (rule weak_order_key)
  have "\<forall>l \<in> set lss. ascending lt' l"
    using assms(1) by (auto intro!: ascending_agree [OF agree])
  from merge_sorted_lists_least [OF w this, of cap] obtain r where
    r: "merge_sorted_lists lss lt' cap = Ret r" "least_items lt' (nat cap) (mset (concat lss)) r" by blast
  then have "least_items score_less (nat cap) (mset (concat lss)) r"
    using least_items_agree [OF _ r(2)] agree_on_sym [OF agree] by simp
  then show ?thesis using r(1) merge_agree [OF agree, of cap] by auto
qed

section \<open>The merged answer\<close>

definition item_less :: "item \<Rightarrow> item \<Rightarrow> bool" where
  "item_less a b = f32_less (it_score a) (it_score b)"

lemma least_items_scores:
  assumes "least_items item_less k (mset xs) r" "\<forall>x \<in> set xs. it_score x \<noteq> F_nan"
  shows "map it_score r = take k (sort (map it_score xs))"
proof -
  have "agree_on (set_mset (mset xs)) item_less (\<lambda>a b. it_score a < it_score b)"
    using assms(2) by (auto simp: agree_on_def item_less_def f32_less_order)
  from least_items_sort [OF least_items_agree [OF this assms(1)]] show ?thesis .
qed

lemma least_items_image:
  assumes "least_items (\<lambda>a b. lt (f a) (f b)) k M r"
  shows "least_items lt k (image_mset f M) (map f r)"
proof -
  have sub: "mset r \<subseteq># M" using assms by (simp add: least_items_def)
  have "image_mset f M - mset (map f r) = image_mset f (M - mset r)"
    using sub by (simp add: image_mset_Diff)
  moreover have "mset (map f r) \<subseteq># image_mset f M" using sub by (simp add: image_mset_subseteq_mono)
  ultimately show ?thesis
    using assms by (auto simp: least_items_def sorted_wrt_map)
qed

lemma untag_items: "map (\<lambda>t. snd (snd t)) (tag_items j items) = items"
proof -
  have "map (\<lambda>t. snd (snd t)) (tag_items j items) = map snd (enumerate 0 items)"
    by (simp add: tag_items_def case_prod_beta comp_def)
  then show ?thesis by simp
qed

lemma tag_answers_nth: "tag_answers rs = map (\<lambda>j. tag_items j (get_items (rs ! j))) [0..<length rs]"
  by (rule nth_equalityI) (simp_all add: tag_answers_def nth_enumerate_eq)

lemma untag_answers: "map (\<lambda>t. snd (snd t)) (concat (tag_answers rs)) = concat (map get_items rs)"
proof -
  have "map (\<lambda>t. snd (snd t)) (concat (tag_answers rs)) = concat (map (\<lambda>j. get_items (rs ! j)) [0..<length rs])"
    by (simp add: tag_answers_nth map_concat comp_def untag_items)
  also have "map (\<lambda>j. get_items (rs ! j)) [0..<length rs] = map get_items rs"
    by (rule nth_equalityI) simp_all
  finally show ?thesis .
qed

lemma ascending_tags: "ascending score_less (tag_items j items) \<longleftrightarrow> ascending item_less items"
proof -
  have "ascending item_less (map (\<lambda>t. snd (snd t)) (tag_items j items)) \<longleftrightarrow> ascending score_less (tag_items j items)"
    by (simp add: sorted_wrt_map score_less_def item_less_def)
  then show ?thesis by (simp add: untag_items)
qed

lemma tagged_scores: "t \<in> set (concat (tag_answers rs)) \<Longrightarrow> snd (snd t) \<in> set (concat (map get_items rs))"
  unfolding untag_answers [symmetric] set_map by (rule imageI)

lemma merge_answers_least:
  assumes "\<forall>r \<in> set rs. ascending item_less (get_items r)"
    and "\<forall>x \<in> set (concat (map get_items rs)). it_score x \<noteq> F_nan"
  shows "\<exists>p. merge_answers limit rs = Ret p \<and>
    least_items item_less (nat limit) (mset (concat (map get_items rs))) (pr_items p) \<and>
    (pr_error p = '''' \<longleftrightarrow> (\<forall>r \<in> set rs. get_error r = ''''))"
proof -
  have asc: "\<forall>l \<in> set (tag_answers rs). ascending score_less l"
    using assms(1) by (auto simp: tag_answers_nth ascending_tags)
  have nan: "\<forall>t \<in> set (concat (tag_answers rs)). it_score (snd (snd t)) \<noteq> F_nan"
    using assms(2) tagged_scores by blast
  from merge_scores_least [OF asc nan, of limit] obtain ts where
    ts: "merge_sorted_lists (tag_answers rs) score_less limit = Ret ts"
      "least_items score_less (nat limit) (mset (concat (tag_answers rs))) ts" by blast
  have "least_items (\<lambda>a b. item_less (snd (snd a)) (snd (snd b))) (nat limit) (mset (concat (tag_answers rs))) ts"
    using ts(2) by (simp add: score_less_def [abs_def] item_less_def)
  from least_items_image [where f = "\<lambda>t. snd (snd t)" and lt = item_less, OF this]
  have l: "least_items item_less (nat limit) (mset (concat (map get_items rs))) (map (\<lambda>t. snd (snd t)) ts)"
    by (simp only: mset_map [symmetric] untag_answers)
  have "(if list_ex (\<lambda>r. get_error r \<noteq> '''') rs then concat (map (\<lambda>r. ''|'' @ get_error r) rs) else '''') = '''' \<longleftrightarrow>
      (\<forall>r \<in> set rs. get_error r = '''')"
    by (auto simp: list_ex_iff)
  with ts(1) l show ?thesis by (simp add: merge_answers_def)
qed

section \<open>The call to another node\<close>

text \<open>
  \<open>ClusterService.SearchShard\<close> on a node with state \<open>s\<close>, as its client sees it: gRPC drops the response
  of a call that fails, and a handler that panics fails the call.
\<close>

definition rpc_search_shard :: "sys \<Rightarrow> shard \<Rightarrow> shard_request \<Rightarrow> remote_answer" where
  "rpc_search_shard s sh rq =
     (case search_shard_handle s rq of
       Panic p \<Rightarrow> Answered None (Some (ErrText ''rpc error''))
     | Ret (res, Some e) \<Rightarrow> Answered None (Some e)
     | Ret (res, None) \<Rightarrow> Answered (Some (Some res)) None)"

section \<open>Properties\<close>


text \<open>C35: The answer for an index of several shards is the best of all shards: when every shard's items are ascending and no score is NaN, the
  result holds the \<open>limit\<close> least-scored items of all the answers, in order, none lost and none twice (its scores are
  those that sorting all the answers would put first), and it carries an error exactly when an answer did.\<close>

theorem search_merges_best:
  assumes "manager_search s (rq_index_name rq) vec (rq_limit rq) = Ret (Inr rs)" "1 < length rs"
    and "answers = map (shard_answer remote vec (rq_limit rq)) rs"
    and "\<forall>r \<in> set answers. ascending item_less (get_items r)"
    and "\<forall>x \<in> set (concat (map get_items answers)). it_score x \<noteq> F_nan"
  shows "\<exists>p. search_input remote s rq vec = Ret (Inr (Some p)) \<and>
    ascending item_less (pr_items p) \<and> mset (pr_items p) \<subseteq># mset (concat (map get_items answers)) \<and>
    length (pr_items p) = min (nat (rq_limit rq)) (length (concat (map get_items answers))) \<and>
    map it_score (pr_items p) = take (nat (rq_limit rq)) (sort (map it_score (concat (map get_items answers)))) \<and>
    (\<forall>x \<in> set (pr_items p). \<forall>y \<in># mset (concat (map get_items answers)) - mset (pr_items p). \<not> item_less y x) \<and>
    (pr_error p = '''' \<longleftrightarrow> (\<forall>r \<in> set answers. get_error r = ''''))"
proof -
  from merge_answers_least [OF assms(4,5), of "rq_limit rq"] obtain p where
    p: "merge_answers (rq_limit rq) answers = Ret p"
      "least_items item_less (nat (rq_limit rq)) (mset (concat (map get_items answers))) (pr_items p)"
      "pr_error p = '''' \<longleftrightarrow> (\<forall>r \<in> set answers. get_error r = '''')" by blast
  obtain r rs' where rs: "rs = r # rs'" "rs' \<noteq> []" using assms(2) by (cases rs) auto
  have "search_input remote s rq vec = Ret (Inr (Some p))"
    using assms(1) p(1) rs by (simp add: search_input_def Let_def assms(3))
  with p(2,3) least_items_scores [OF p(2) assms(5)] show ?thesis unfolding least_items_def size_mset by blast
qed

text \<open>Errors of local shards vanish: when every shard of the index is loaded and its search fails, the caller
  gets a result without items and without an error.\<close>

theorem local_errors_vanish:
  assumes "sys_ok s" "sm_load (im_manifests (sy_mgr s)) (rq_index_name rq) = Some m" "unique_shards m \<noteq> []"
    and "\<And>u. u \<in> set (unique_shards m) \<Longrightarrow> \<exists>ix e. engine s (unique_shard_key u) = Some ix \<and>
      index_search (sy_heap s) ix vec (rq_limit rq) = Ret (Inl e) \<and> \<not> err_is e ErrShardNotFound"
  shows "search_input remote s rq vec = Ret (Inr (Some empty_result))"
proof -
  have mok: "manifest_ok m" using assms(1,2) by (auto simp: sys_ok_def manifests_ok_def)
  have "\<exists>r. search_one s vec (rq_limit rq) u = Ret r \<and> sr_result r = [] \<and> \<not> sr_to_route r"
    if "u \<in> set (unique_shards m)" for u
  proof -
    from assms(4) [OF that] obtain ix e where "engine s (unique_shard_key u) = Some ix"
      "index_search (sy_heap s) ix vec (rq_limit rq) = Ret (Inl e)" "\<not> err_is e ErrShardNotFound" by blast
    then show ?thesis by (auto simp: search_one_def search_shard_def Let_def)
  qed
  from run_mapM_Ret [of "unique_shards m" "search_one s vec (rq_limit rq)", OF this] obtain rs where
    rs: "run_mapM (search_one s vec (rq_limit rq)) (unique_shards m) = Ret rs"
      "list_all2 (\<lambda>u r. sr_result r = [] \<and> \<not> sr_to_route r) (unique_shards m) rs" by blast
  have ms: "manager_search s (rq_index_name rq) vec (rq_limit rq) = Ret (Inr rs)"
    using assms(2) rs(1) generate_unique_shards_eq [OF mok] by (simp add: manager_search_def)
  have ans: "map (shard_answer remote vec (rq_limit rq)) rs = replicate (length rs) (Some empty_result)"
    using rs(2) by (induction rule: list_all2_induct) (simp_all add: shard_answer_def empty_result_def)
  let ?E = "replicate (length rs) (Some empty_result)"
  have g: "get_items (Some empty_result) = []" "get_error (Some empty_result) = ''''"
    by (simp_all add: get_items_def get_error_def empty_result_def)
  have asc: "\<forall>r \<in> set ?E. ascending item_less (get_items r)" by (simp add: g)
  have none: "concat (map get_items ?E) = []" by (simp add: g)
  have nan: "\<forall>x \<in> set (concat (map get_items ?E)). it_score x \<noteq> F_nan" unfolding none by simp
  obtain p where p: "merge_answers (rq_limit rq) ?E = Ret p"
    "least_items item_less (nat (rq_limit rq)) (mset (concat (map get_items ?E))) (pr_items p)"
    "pr_error p = '''' \<longleftrightarrow> (\<forall>r \<in> set ?E. get_error r = '''')"
    using merge_answers_least [OF asc nan, of "rq_limit rq"] by blast
  have "pr_items p = []" "pr_error p = ''''"
    using p(2,3) unfolding none by (simp_all add: least_items_def g)
  then have "p = empty_result" by (simp add: empty_result_def)
  moreover obtain r rs' where "rs = r # rs'"
    using rs(2) assms(3) by (cases rs) auto
  ultimately show ?thesis using ms ans p(1) by (auto simp: search_input_def Let_def)
qed


text \<open>Asked by its key, a loaded shard answers: for the unique key of a loaded shard the response holds one item per label the engine
  returned, with its score and an empty document, and no error; a negative limit is a panic.\<close>

theorem search_shard_by_key:
  assumes "engine s (unique_shard_key u) = Some ix" "index_search (sy_heap s) ix x k = Ret (Inr (ds, ls))"
    and "length ds = length ls" "CHR '':'' \<notin> set (sh_index_name u)" "shard_wf u" "0 \<le> k" "n < 0"
  shows "search_shard_handle s \<lparr>sq_shard_key = unique_shard_key u, sq_input = x, sq_limit = k\<rparr> =
      Ret (\<lparr>pr_items = map (\<lambda>(d, l). \<lparr>it_id = l, it_score = d, it_doc = ''''\<rparr>) (zip ds ls), pr_error = ''''\<rparr>, None) \<and>
    search_shard_handle s \<lparr>sq_shard_key = unique_shard_key u, sq_input = x, sq_limit = n\<rparr> = Panic MakeSliceRange"
proof -
  have f: "from_string (unique_shard_key u) zero_shard = u\<lparr>sh_replica_id := sh_replica_id zero_shard\<rparr>"
    by (rule from_string_unique_shard_key [OF assms(4,5)])
  have k: "unique_shard_key (u\<lparr>sh_replica_id := sh_replica_id zero_shard\<rparr>) = unique_shard_key u"
    by (simp add: unique_shard_key_eq)
  show ?thesis
    using assms(1-3,6,7) by (simp add: search_shard_handle_def f search_shard_def k Let_def case_prod_beta comp_def)
qed

section \<open>Witnesses\<close>

text \<open>Requests to the node of the mock index, and the answers of two shards to merge.\<close>

definition ex_request :: "string \<Rightarrow> f32 list \<Rightarrow> search_request" where
  "ex_request name x = \<lparr>rq_index_name = name, rq_inputs = [x, x], rq_limit = 2\<rparr>"

definition ex_item :: "string \<Rightarrow> rat \<Rightarrow> item" where
  "ex_item n d = \<lparr>it_id = n, it_score = F_num d, it_doc = ''''\<rparr>"

text \<open>A remote node whose shard answers two items.\<close>

definition ex_remote :: "shard \<Rightarrow> shard_request \<Rightarrow> remote_answer" where
  "ex_remote sh rq = Answered (Some (Some \<lparr>pr_items = [ex_item ''7'' (1 / 4), ex_item ''8'' 3], pr_error = ''''\<rparr>)) None"


lemma ex_cluster_search:
  "manager_search (ex_sys ClusterMode [] []) ''docs'' [F_num 1] 2 = Ret (Inr
     [\<lparr>sr_shard = ex_shard, sr_error = None, sr_result = [], sr_to_route = True\<rparr>,
      \<lparr>sr_shard = ex_shard\<lparr>sh_shard_id := 1\<rparr>, sr_error = None, sr_result = [], sr_to_route = True\<rparr>])"
  using generate_unique_shards_eq [OF ex_mock_manifest_ok] ex_unique_shards
  by (simp add: manager_search_def ex_sys_manifest search_one_def search_shard_def)
     (simp add: ex_sys_def)

theorem search_merges_best_witness:
  "\<exists>p. search_input ex_remote (ex_sys ClusterMode [] []) (ex_request ''docs'' [F_num 1]) [F_num 1] = Ret (Inr (Some p)) \<and>
     ascending item_less (pr_items p) \<and> length (pr_items p) = 2 \<and> pr_error p = ''''"
proof -
  let ?rq = "ex_request ''docs'' [F_num 1]"
  let ?rs = "[\<lparr>sr_shard = ex_shard, sr_error = None, sr_result = [], sr_to_route = True\<rparr>,
      \<lparr>sr_shard = ex_shard\<lparr>sh_shard_id := 1\<rparr>, sr_error = None, sr_result = [], sr_to_route = True\<rparr>]"
  let ?as = "map (shard_answer ex_remote [F_num 1] (rq_limit ?rq)) ?rs"
  have m: "manager_search (ex_sys ClusterMode [] []) (rq_index_name ?rq) [F_num 1] (rq_limit ?rq) = Ret (Inr ?rs)"
    using ex_cluster_search by (simp add: ex_request_def)
  have a: "\<forall>r \<in> set ?as. ascending item_less (get_items r)" "\<forall>x \<in> set (concat (map get_items ?as)). it_score x \<noteq> F_nan"
    "\<forall>r \<in> set ?as. get_error r = ''''" "length (concat (map get_items ?as)) = 4"
    by (simp_all add: shard_answer_def ex_remote_def get_items_def get_error_def item_less_def ex_item_def)
  have "rq_limit ?rq = 2" by (simp add: ex_request_def)
  with search_merges_best [OF m _ refl a(1,2)] a(3,4) show ?thesis by fastforce
qed

theorem local_errors_vanish_witness:
  "search_input ex_remote (ex_sys Single [(''docs:0'', ex_mock_index), (''docs:1'', MockIx \<lparr>mx_shard = ex_shard\<lparr>sh_shard_id := 1\<rparr>,
      mx_revision = 123, mx_manifest = ex_mock_manifest\<rparr>)] []) (ex_request ''docs'' []) [] = Ret (Inr (Some empty_result))"
proof -
  let ?ix = "MockIx \<lparr>mx_shard = ex_shard\<lparr>sh_shard_id := 1\<rparr>, mx_revision = 123, mx_manifest = ex_mock_manifest\<rparr>"
  let ?s = "ex_sys Single [(''docs:0'', ex_mock_index), (''docs:1'', ?ix)] []"
  have k1: "unique_shard_key (ex_shard\<lparr>sh_shard_id := 1\<rparr>) = ''docs:1''" by code_simp
  have ok: "sys_ok ?s"
    using ex_mock_manifest_ok ex_shard_key k1
    by (auto simp: sys_ok_def ex_sys_def store_ok_def manifests_ok_def empty_heap_def ch_ok_def ch_handles_def
      sm_wf_def ex_mock_manifest_def ex_mock_index_def sm_load_Cons split: if_splits)
  have m: "sm_load (im_manifests (sy_mgr ?s)) (rq_index_name (ex_request ''docs'' [])) = Some ex_mock_manifest"
    by (simp add: ex_sys_manifest ex_request_def)
  have "\<exists>ix e. engine ?s (unique_shard_key u) = Some ix \<and>
      index_search (sy_heap ?s) ix [] (rq_limit (ex_request ''docs'' [])) = Ret (Inl e) \<and> \<not> err_is e ErrShardNotFound"
    if "u \<in> set (unique_shards ex_mock_manifest)" for u
  proof -
    have "u = ex_shard \<or> u = ex_shard\<lparr>sh_shard_id := 1\<rparr>" using that by (simp add: ex_unique_shards)
    then show ?thesis
      using ex_shard_key k1
      by (auto simp: ex_sys_def sm_load_Cons ex_mock_index_def mock_search_def mock_input_dim_def ex_mock_manifest_def)
  qed
  from local_errors_vanish [OF ok m _ this] show ?thesis by (simp add: ex_unique_shards)
qed


theorem search_shard_by_key_witness:
  "search_shard_handle (ex_sys Single [(''docs:0'', ex_mock_index)] []) \<lparr>sq_shard_key = ''docs:0'', sq_input = [F_num 1], sq_limit = 2\<rparr> =
     Ret (\<lparr>pr_items = [ex_item ''1'' (1 / 2), ex_item ''2'' (1 / 2), ex_item ''3'' (1 / 2)], pr_error = ''''\<rparr>, None)"
proof -
  let ?s = "ex_sys Single [(''docs:0'', ex_mock_index)] []"
  have e: "engine ?s (unique_shard_key ex_shard) = Some ex_mock_index"
    by (simp add: ex_shard_key ex_sys_def sm_load_def)
  have i: "index_search (sy_heap ?s) ex_mock_index [F_num 1] 2 =
      Ret (Inr ([F_num (1 / 2), F_num (1 / 2), F_num (1 / 2)], [''1'', ''2'', ''3'']))"
    by (simp add: ex_mock_index_def mock_search_def mock_input_dim_def ex_mock_manifest_def numeral_3_eq_3)
  have w: "CHR '':'' \<notin> set (sh_index_name ex_shard)" "shard_wf ex_shard"
    by (simp_all add: ex_shard_def shard_wf_def in_int32_def)
  from search_shard_by_key [OF e i _ w, of "- 1"] show ?thesis by (simp add: ex_shard_key ex_item_def)
qed

end
