(* ===== verification/Resolver.thy ===== *)
theory Resolver
  imports Commit
begin

text \<open>
  \<open>internal/grpc_client\<close>: how a request finds the nodes of a shard.  A connection per shard is kept in a map; its
  name resolver asks the manager for the routes of the shard's replicas and hands gRPC the addresses
  of those that weigh something.  gRPC itself (dialling, connection states) is a parameter.
\<close>

section \<open>Connections\<close>

text \<open>\<open>GetShardClient\<close>: \<open>dial\<close> is \<open>grpc.Dial\<close> on the URL, \<open>shut\<close> tells a connection that was shut down.\<close>

definition get_shard_client ::
    "(string \<Rightarrow> error + 'c) \<Rightarrow> ('c \<Rightarrow> bool) \<Rightarrow> shard \<Rightarrow> (string, 'c) smap \<Rightarrow> (string, 'c) smap \<times> (error + 'c)" where
  "get_shard_client dial shut sh conns =
     (let key = unique_shard_key sh in
      case (case sm_load conns key of Some c \<Rightarrow> if shut c then None else Some c | None \<Rightarrow> None) of
        Some c \<Rightarrow> (conns, Inr c)
      | None \<Rightarrow>
          (case dial (''vec-idx://'' @ key) of
            Inl e \<Rightarrow> (conns, Inl e)
          | Inr c \<Rightarrow> (sm_store key c conns, Inr c)))"

section \<open>The resolver\<close>

record address =
  ra_addr :: string
  ra_server_name :: string
  ra_weight :: nat

text \<open>A nil routing or one without a node whose weight is asked for would be a nil dereference only in the first case.\<close>

fun convert_routing_to_addrs :: "float_ops \<Rightarrow> routing option list \<Rightarrow> address list run" where
  "convert_routing_to_addrs fl [] = Ret []"
| "convert_routing_to_addrs fl (None # rs) = Panic NilDereference"
| "convert_routing_to_addrs fl (Some r # rs) =
     (if weight fl r = 0 then convert_routing_to_addrs fl rs
      else (case rt_node r of
        None \<Rightarrow> Panic NilDereference
      | Some n \<Rightarrow> run_map (\<lambda>as. \<lparr>ra_addr = nm_addr n, ra_server_name = nm_node_id n, ra_weight = weight fl r\<rparr> # as)
          (convert_routing_to_addrs fl rs)))"

datatype resolver_report = ReportError error | UpdateState "address list"

definition resolve_now :: "float_ops \<Rightarrow> cluster_view \<Rightarrow> index_manager \<Rightarrow> string \<Rightarrow> resolver_report run" where
  "resolve_now fl cv i endpoint =
     (let u = from_string endpoint zero_shard in
      if \<not> shard_valid u then Ret (ReportError (Cfg ErrResolveIndexShard))
      else run_bind (resolve_unique_shard cv i u) (\<lambda>out.
        case out of
          Inl e \<Rightarrow> Ret (ReportError e)
        | Inr routings \<Rightarrow>
            run_map (\<lambda>addrs. if addrs = [] then ReportError (Cfg ErrResolveNoAvailableNode) else UpdateState addrs)
              (convert_routing_to_addrs fl routings)))"

text \<open>\<open>start\<close> registers the resolver (here its number) as the listener of its endpoint, \<open>Close\<close> removes it.\<close>

definition resolver_start :: "nat \<Rightarrow> string \<Rightarrow> index_manager \<Rightarrow> index_manager" where
  "resolver_start l endpoint i = register_listener endpoint l i"

definition resolver_close :: "string \<Rightarrow> index_manager \<Rightarrow> index_manager" where
  "resolver_close endpoint i = unregister_listener endpoint i"

section \<open>Lemmas\<close>

lemma convert_sound:
  "convert_routing_to_addrs fl rs = Ret as \<Longrightarrow> a \<in> set as \<Longrightarrow>
   \<exists>r n. Some r \<in> set rs \<and> rt_node r = Some n \<and> ra_addr a = nm_addr n \<and> ra_server_name a = nm_node_id n \<and>
     ra_weight a = weight fl r \<and> 0 < weight fl r"
  by (induction fl rs arbitrary: as rule: convert_routing_to_addrs.induct)
     (fastforce simp: run_map_eq_Ret split: if_splits option.splits)+

lemma weight_no_node: "rt_node r = None \<Longrightarrow> weight fl r = 0"
  by (simp add: weight_def)

lemma convert_total: "None \<notin> set rs \<Longrightarrow> \<exists>as. convert_routing_to_addrs fl rs = Ret as"
proof (induction rs)
  case Nil
  then show ?case by simp
next
  case (Cons r rs)
  then obtain r' as where "r = Some r'" "convert_routing_to_addrs fl rs = Ret as" by (cases r) auto
  then show ?case using weight_no_node [of r' fl] by (cases "rt_node r'") auto
qed

section \<open>Properties\<close>

text \<open>C30: The resolver publishes only nodes that can serve the shard: when it updates the connection, the list is not empty, and every
  address in it is that of a node to which a replica of the shard is routed without an error, with the positive
  weight of that route; the shard is one of a known index.\<close>

theorem resolver_publishes_serving_nodes:
  assumes "resolve_now fl cv i endpoint = Ret (UpdateState as)"
  shows "as \<noteq> [] \<and> (\<exists>m u. u = from_string endpoint zero_shard \<and>
    sm_load (im_manifests i) (sh_index_name u) = Some m \<and> sh_shard_id u < meta_shards (mf_meta m) \<and>
    (\<forall>a \<in> set as. 0 < ra_weight a \<and> (\<exists>rep r n. rep \<in> {0..<meta_replicas (mf_meta m)} \<and>
       cv_route cv (shard_key (u\<lparr>sh_replica_id := rep\<rparr>)) = (Some r, None) \<and>
       rt_node r = Some n \<and> ra_addr a = nm_addr n \<and> ra_weight a = weight fl r)))"
proof -
  let ?u = "from_string endpoint zero_shard"
  from assms obtain m keys where m: "sm_load (im_manifests i) (sh_index_name ?u) = Some m"
    "sh_shard_id ?u < meta_shards (mf_meta m)" "shard_valid ?u"
    "generate_replica_keys ?u (meta_replicas (mf_meta m)) = Ret keys"
    "convert_routing_to_addrs fl (map fst (filter (\<lambda>(r, e). e = None) (map (cv_route cv) keys))) = Ret as" "as \<noteq> []"
  proof -
    have v: "shard_valid ?u" using assms by (auto simp: resolve_now_def Let_def split: if_splits)
    then obtain out where out: "resolve_unique_shard cv i ?u = Ret out" and pub: "(case out of
          Inl e \<Rightarrow> Ret (ReportError e)
        | Inr routings \<Rightarrow>
            run_map (\<lambda>addrs. if addrs = [] then ReportError (Cfg ErrResolveNoAvailableNode) else UpdateState addrs)
              (convert_routing_to_addrs fl routings)) = Ret (UpdateState as)"
      using assms by (auto simp: resolve_now_def Let_def run_bind_eq_Ret)
    from pub obtain routings where "out = Inr routings" "convert_routing_to_addrs fl routings = Ret as" "as \<noteq> []"
      by (cases out) (auto simp: run_map_eq_Ret split: if_splits)
    moreover from out this(1) v obtain m keys where
      "sm_load (im_manifests i) (sh_index_name ?u) = Some m" "sh_shard_id ?u < meta_shards (mf_meta m)"
      "generate_replica_keys ?u (meta_replicas (mf_meta m)) = Ret keys"
      "routings = map fst (filter (\<lambda>(r, e). e = None) (map (cv_route cv) keys))"
      by (auto simp: resolve_unique_shard_def run_map_eq_Ret split: option.splits if_splits)
    ultimately show thesis using that [of m keys] v by simp
  qed
  have keys: "\<exists>rep \<in> {0..<meta_replicas (mf_meta m)}. k = shard_key (?u\<lparr>sh_replica_id := rep\<rparr>)" if "k \<in> set keys" for k
    using m(3,4) that
    by (force simp: generate_replica_keys_def shard_key_def split: if_splits)
  have "0 < ra_weight a \<and> (\<exists>rep r n. rep \<in> {0..<meta_replicas (mf_meta m)} \<and>
       cv_route cv (shard_key (?u\<lparr>sh_replica_id := rep\<rparr>)) = (Some r, None) \<and>
       rt_node r = Some n \<and> ra_addr a = nm_addr n \<and> ra_weight a = weight fl r)" if "a \<in> set as" for a
  proof -
    from convert_sound [OF m(5) that] obtain r n
      where r: "Some r \<in> set (map fst (filter (\<lambda>(r, e). e = None) (map (cv_route cv) keys)))"
        "rt_node r = Some n" "ra_addr a = nm_addr n" "ra_weight a = weight fl r" "0 < weight fl r" by blast
    from r(1) obtain k where k: "k \<in> set keys" "cv_route cv k = (Some r, None)"
      by (force simp: prod_eq_iff)
    from keys [OF k(1)] k r(2-) show ?thesis by auto
  qed
  with m(1,2,6) show ?thesis by blast
qed

text \<open>A connection is dialled once per shard: while it is not shut down every request for the shard gets it, whatever the replica;
  a failed dial leaves the map as it was, and connections of other shards are never touched.\<close>

theorem shard_client_cached:
  assumes "get_shard_client dial shut sh conns = (conns', Inr c)" "\<not> shut c"
  shows "get_shard_client dial' shut (sh\<lparr>sh_replica_id := rep\<rparr>) conns' = (conns', Inr c) \<and>
    (\<forall>k. k \<noteq> unique_shard_key sh \<longrightarrow> sm_load conns' k = sm_load conns k)"
proof -
  have k: "unique_shard_key (sh\<lparr>sh_replica_id := rep\<rparr>) = unique_shard_key sh"
    by (simp add: unique_shard_key_eq)
  show ?thesis
    using assms by (auto simp: get_shard_client_def k Let_def split: option.splits sum.splits if_splits)
qed

section \<open>Witnesses\<close>

definition ex_route_view :: cluster_view where
  "ex_route_view = (ex_view True)\<lparr>cv_route := (\<lambda>k. (Some \<lparr>rt_node = Some (ex_node ''n2'' Healthy), rt_load = None\<rparr>, None))\<rparr>"

theorem resolver_publishes_serving_nodes_witness:
  "\<exists>as. resolve_now ex_float ex_route_view (sy_mgr (ex_csys True)) ''docs:0'' = Ret (UpdateState as) \<and>
     (\<forall>a \<in> set as. 0 < ra_weight a)"
proof -
  have f: "from_string ''docs:0'' zero_shard = ex_shard"
    by code_simp
  have k: "generate_replica_keys ex_shard 1 = Ret [''docs:0:0'']"
    by code_simp
  have m: "sh_index_name ex_shard = ''docs''" "shard_valid ex_shard" "sh_shard_id ex_shard = 0"
    "meta_shards (mf_meta ex_manifest) = 2" "meta_replicas (mf_meta ex_manifest) = 1"
    by (simp_all add: ex_shard_def shard_valid_def ex_manifest_def)
  have w: "weight ex_float \<lparr>rt_node = Some (ex_node ''n2'' Healthy), rt_load = None\<rparr> = 1000"
    by (simp add: weight_def ex_node_def initial_weight_def)
  obtain as where as: "resolve_now ex_float ex_route_view (sy_mgr (ex_csys True)) ''docs:0'' = Ret (UpdateState as)"
    using ex_csys_manifest [of True]
    by (auto simp: resolve_now_def f m k resolve_unique_shard_def ex_route_view_def w)
  with resolver_publishes_serving_nodes [OF as] show ?thesis by blast
qed

theorem shard_client_cached_witness:
  "get_shard_client (\<lambda>url. Inl (ErrText ''down'')) (\<lambda>c. False) (ex_shard\<lparr>sh_replica_id := 1\<rparr>)
     (fst (get_shard_client (\<lambda>url. Inr url) (\<lambda>c. False) ex_shard [])) =
   (fst (get_shard_client (\<lambda>url. Inr url) (\<lambda>c. False) ex_shard []), Inr ''vec-idx://docs:0'')"
proof -
  have "get_shard_client (\<lambda>url. Inr url) (\<lambda>c. False) ex_shard [] =
      (sm_store ''docs:0'' ''vec-idx://docs:0'' [], Inr ''vec-idx://docs:0'')"
    by (simp add: get_shard_client_def ex_shard_key Let_def)
  with shard_client_cached [OF this] show ?thesis by simp
qed

end
