(* ===== verification/Go_Sync.thy ===== *)
theory Go_Sync
  imports Prelude
begin

text \<open>
  The locks of Go's \<open>sync\<close> package that the engine uses, and what it takes to count the threads
  that hold them.  Taking a lock that is not free blocks (\<open>None\<close>); releasing one that is not
  held is a fault.
\<close>

section \<open>Mutual exclusion\<close>

definition mu_lock :: "bool \<Rightarrow> bool option" where
  "mu_lock held = (if held then None else Some True)"

definition mu_unlock :: "bool \<Rightarrow> bool run" where
  "mu_unlock held = (if held then Ret False else Panic UnlockOfUnlocked)"

section \<open>Readers and writers\<close>

text \<open>
  A writer takes the lock in two steps: it announces itself, from when on no new reader gets
  in, and it enters when the readers that were in have left.  Two writers exclude each other from the
  announcement on.
\<close>

record rw_mutex =
  rw_readers :: nat
  rw_pending :: bool
  rw_writer :: bool

definition free_rw :: rw_mutex where
  "free_rw = \<lparr>rw_readers = 0, rw_pending = False, rw_writer = False\<rparr>"

definition rw_rlock :: "rw_mutex \<Rightarrow> rw_mutex option" where
  "rw_rlock m =
     (if rw_pending m \<or> rw_writer m then None else Some (m\<lparr>rw_readers := Suc (rw_readers m)\<rparr>))"

definition rw_runlock :: "rw_mutex \<Rightarrow> rw_mutex run" where
  "rw_runlock m =
     (if rw_readers m = 0 then Panic UnlockOfUnlocked else Ret (m\<lparr>rw_readers := rw_readers m - 1\<rparr>))"

definition rw_announce :: "rw_mutex \<Rightarrow> rw_mutex option" where
  "rw_announce m = (if rw_pending m \<or> rw_writer m then None else Some (m\<lparr>rw_pending := True\<rparr>))"

definition rw_enter :: "rw_mutex \<Rightarrow> rw_mutex option" where
  "rw_enter m =
     (if rw_readers m = 0 then Some (m\<lparr>rw_pending := False, rw_writer := True\<rparr>) else None)"

definition rw_unlock :: "rw_mutex \<Rightarrow> rw_mutex run" where
  "rw_unlock m = (if rw_writer m then Ret (m\<lparr>rw_writer := False\<rparr>) else Panic UnlockOfUnlocked)"

lemmas lock_defs = mu_lock_def mu_unlock_def rw_rlock_def rw_runlock_def rw_announce_def rw_enter_def
  rw_unlock_def

section \<open>Counting threads\<close>

definition one_if :: "bool \<Rightarrow> nat" where
  "one_if b = (if b then 1 else 0)"

lemma one_if_simps [simp]: "one_if True = 1" "one_if False = 0"
  by (simp_all add: one_if_def)

lemma one_if_eq [simp]: "one_if b = 0 \<longleftrightarrow> \<not> b" "0 = one_if b \<longleftrightarrow> \<not> b" "one_if b = Suc n \<longleftrightarrow> b \<and> n = 0"
    "Suc n = one_if b \<longleftrightarrow> b \<and> n = 0"
  by (auto simp: one_if_def)

lemma one_if_le: "one_if b \<le> 1"
  by (simp add: one_if_def)

definition tcount :: "('t \<Rightarrow> bool) \<Rightarrow> 't list \<Rightarrow> nat" where
  "tcount P ts = length (filter P ts)"

lemma tcount_simps [simp]:
  "tcount P [] = 0"
  "tcount P (t # ts) = one_if (P t) + tcount P ts"
  by (simp_all add: tcount_def)

lemma tcount_member: "t \<in> set ts \<Longrightarrow> P t \<Longrightarrow> 0 < tcount P ts"
  by (auto simp: tcount_def filter_empty_conv)

lemma tcount_pos: "0 < tcount P ts \<Longrightarrow> \<exists>t \<in> set ts. P t"
  by (auto simp: tcount_def filter_empty_conv)

lemma tcount_mono: "(\<And>t. P t \<Longrightarrow> Q t) \<Longrightarrow> tcount P ts \<le> tcount Q ts"
  by (induction ts) (auto simp: one_if_def intro: le_SucI)

text \<open>One thread in front of the others: a step replaces it.\<close>

lemma focus_thread:
  assumes "i < length ts"
  obtains others where "\<And>P t. tcount P (ts[i := t]) = tcount P (t # others)"
    "\<And>t. set (ts[i := t]) = set (t # others)" "\<And>P. tcount P ts = tcount P (ts ! i # others)"
    "set ts = set (ts ! i # others)" "mset ts = mset (ts ! i # others)" "\<And>t. mset (ts[i := t]) = mset (t # others)"
proof
  let ?others = "take i ts @ drop (Suc i) ts"
  have m: "mset (ts[i := t]) = mset (t # ?others)" for t
    using assms by (simp add: upd_conv_take_nth_drop)
  show "mset (ts[i := t]) = mset (t # ?others)" for t by (rule m)
  show m': "mset ts = mset (ts ! i # ?others)" using m [of "ts ! i"] by simp
  have *: "tcount P xs = tcount P ys" if "mset xs = mset ys" for P and xs ys :: "'a list"
    using that by (metis tcount_def size_mset mset_filter)
  show "tcount P (ts[i := t]) = tcount P (t # ?others)" for P t by (rule * [OF m])
  show "tcount P ts = tcount P (ts ! i # ?others)" for P by (rule * [OF m'])
  show "set (ts[i := t]) = set (t # ?others)" for t using m by (rule mset_eq_setD)
  show "set ts = set (ts ! i # ?others)" using m' by (rule mset_eq_setD)
qed

end
