(* ===== verification/Resolver_Threads.thy ===== *)
theory Resolver_Threads
  imports Resolver Go_Sync
begin

text \<open>
  One resolver of \<open>internal/grpc_client/resolver.go\<close> with all its goroutines: \<open>Update\<close> starts a resolution in
  a goroutine of its own, the cron entry and gRPC start others, and \<open>Close\<close> waits for them on the wait group.  The
  resolutions share the field \<open>routings\<close>, without a lock.  The wait group is that of Go's \<open>sync\<close> package.
\<close>

section \<open>Wait groups\<close>

text \<open>
  A counter, the goroutines parked in \<open>Wait\<close>, and the wake-ups sent to them.  The call that brings the counter to zero
  wakes the waiters in a second step; a call of \<open>Add\<close> in between is the misuse the package detects, and so is a counter
  that is not zero again when a waiter wakes up.
\<close>

record wait_group =
  wg_counter :: int
  wg_waiters :: nat
  wg_sema :: nat

definition zero_wait_group :: wait_group where
  "zero_wait_group = \<lparr>wg_counter = 0, wg_waiters = 0, wg_sema = 0\<rparr>"

definition wg_add :: "wait_group \<Rightarrow> wait_group run" where
  "wg_add w =
     (if wg_waiters w \<noteq> 0 \<and> wg_counter w = 0 then Panic WaitGroupMisuse
      else Ret (w\<lparr>wg_counter := wg_counter w + 1\<rparr>))"

text \<open>The flag says that the waiters are to be woken.\<close>

definition wg_done :: "wait_group \<Rightarrow> (wait_group \<times> bool) run" where
  "wg_done w =
     (if wg_counter w \<le> 0 then Panic WaitGroupNegative
      else Ret (w\<lparr>wg_counter := wg_counter w - 1\<rparr>, wg_counter w = 1 \<and> wg_waiters w \<noteq> 0))"

definition wg_wake :: "nat \<Rightarrow> wait_group \<Rightarrow> wait_group run" where
  "wg_wake n w =
     (if wg_counter w \<noteq> 0 \<or> wg_waiters w \<noteq> n then Panic WaitGroupMisuse
      else Ret (w\<lparr>wg_waiters := 0, wg_sema := wg_sema w + n\<rparr>))"

definition wg_woken :: "wait_group \<Rightarrow> wait_group run" where
  "wg_woken w =
     (if wg_counter w \<noteq> 0 \<or> wg_waiters w \<noteq> 0 then Panic WaitGroupMisuse
      else Ret (w\<lparr>wg_sema := wg_sema w - 1\<rparr>))"

section \<open>State and steps\<close>

text \<open>Where a resolution and \<open>Close\<close> are: each step is one access to what the goroutines share.\<close>

datatype resolve_pc =
    ResolveAdd | ResolveQuery | ResolveConvert | ResolveReport resolver_report | ResolveDone | ResolveWake nat | ResolveEnd

datatype close_pc = CloseIdle | CloseUnregister | CloseRemove | CloseWait | CloseParked | CloseReturned

record resolver_sys =
  rv_registered :: bool
  rv_cron :: bool
  rv_routings :: "routing option list"
  rv_wg :: wait_group
  rv_reports :: "resolver_report list"
  rv_threads :: "resolve_pc list"
  rv_close :: close_pc

text \<open>After \<open>Build\<close>: \<open>start\<close> has registered the resolver, called \<open>Update\<close> and scheduled the entry.\<close>

definition resolver_build :: resolver_sys where
  "resolver_build = \<lparr>rv_registered = True, rv_cron = True, rv_routings = [], rv_wg = zero_wait_group, rv_reports = [],
     rv_threads = [ResolveAdd], rv_close = CloseIdle\<rparr>"

text \<open>A failed query assigns nil to the field; the list that is converted is read from the field again.\<close>

fun resolve_step ::
    "float_ops \<Rightarrow> string \<Rightarrow> cluster_view \<Rightarrow> index_manager \<Rightarrow> resolve_pc \<Rightarrow> resolver_sys \<Rightarrow> (resolve_pc \<times> resolver_sys) run" where
  "resolve_step fl ep cv i ResolveAdd s = run_map (\<lambda>w. (ResolveQuery, s\<lparr>rv_wg := w\<rparr>)) (wg_add (rv_wg s))"
| "resolve_step fl ep cv i ResolveQuery s =
     (let u = from_string ep zero_shard in
      if \<not> shard_valid u then Ret (ResolveReport (ReportError (Cfg ErrResolveIndexShard)), s)
      else run_map (\<lambda>out. case out of
          Inl e \<Rightarrow> (ResolveReport (ReportError e), s\<lparr>rv_routings := []\<rparr>)
        | Inr rs \<Rightarrow> (ResolveConvert, s\<lparr>rv_routings := rs\<rparr>))
        (resolve_unique_shard cv i u))"
| "resolve_step fl ep cv i ResolveConvert s =
     run_map (\<lambda>addrs. (ResolveReport (if addrs = [] then ReportError (Cfg ErrResolveNoAvailableNode) else UpdateState addrs), s))
       (convert_routing_to_addrs fl (rv_routings s))"
| "resolve_step fl ep cv i (ResolveReport r) s = Ret (ResolveDone, s\<lparr>rv_reports := rv_reports s @ [r]\<rparr>)"
| "resolve_step fl ep cv i ResolveDone s =
     run_map (\<lambda>(w, wake). (if wake then ResolveWake (wg_waiters w) else ResolveEnd, s\<lparr>rv_wg := w\<rparr>)) (wg_done (rv_wg s))"
| "resolve_step fl ep cv i (ResolveWake n) s = run_map (\<lambda>w. (ResolveEnd, s\<lparr>rv_wg := w\<rparr>)) (wg_wake n (rv_wg s))"
| "resolve_step fl ep cv i ResolveEnd s = Ret (ResolveEnd, s)"

definition close_step :: "resolver_sys \<Rightarrow> resolver_sys run" where
  "close_step s =
     (case rv_close s of
        CloseIdle \<Rightarrow> Ret s
      | CloseUnregister \<Rightarrow> Ret (s\<lparr>rv_registered := False, rv_close := CloseRemove\<rparr>)
      | CloseRemove \<Rightarrow> Ret (s\<lparr>rv_cron := False, rv_close := CloseWait\<rparr>)
      | CloseWait \<Rightarrow>
          Ret (if wg_counter (rv_wg s) = 0 then s\<lparr>rv_close := CloseReturned\<rparr>
               else s\<lparr>rv_wg := (rv_wg s)\<lparr>wg_waiters := wg_waiters (rv_wg s) + 1\<rparr>, rv_close := CloseParked\<rparr>)
      | CloseParked \<Rightarrow>
          if wg_sema (rv_wg s) = 0 then Ret s
          else run_map (\<lambda>w. s\<lparr>rv_wg := w, rv_close := CloseReturned\<rparr>) (wg_woken (rv_wg s))
      | CloseReturned \<Rightarrow> Ret s)"

text \<open>
  \<open>UpdateCall\<close>: the manager notifies its listeners.  \<open>CronTick\<close>: the entry fires.  \<open>AskNow\<close>: gRPC calls \<open>ResolveNow\<close>,
  which it does not do once it has called \<open>Close\<close>.  \<open>Advance\<close>: the next step of a resolution, with the cluster and the
  manager as they are then.
\<close>

datatype resolver_act = UpdateCall | CronTick | AskNow | Advance nat cluster_view index_manager | CloseCall | CloseStep

definition spawn :: "resolver_sys \<Rightarrow> resolver_sys" where
  "spawn s = s\<lparr>rv_threads := rv_threads s @ [ResolveAdd]\<rparr>"

fun resolver_act_step :: "float_ops \<Rightarrow> string \<Rightarrow> resolver_act \<Rightarrow> resolver_sys \<Rightarrow> resolver_sys run" where
  "resolver_act_step fl ep UpdateCall s = Ret (if rv_registered s then spawn s else s)"
| "resolver_act_step fl ep CronTick s = Ret (if rv_cron s then spawn s else s)"
| "resolver_act_step fl ep AskNow s = Ret (if rv_close s = CloseIdle then spawn s else s)"
| "resolver_act_step fl ep (Advance j cv i) s =
     (if j < length (rv_threads s)
      then run_map (\<lambda>(p, s'). s'\<lparr>rv_threads := (rv_threads s)[j := p]\<rparr>) (resolve_step fl ep cv i (rv_threads s ! j) s)
      else Ret s)"
| "resolver_act_step fl ep CloseCall s = Ret (if rv_close s = CloseIdle then s\<lparr>rv_close := CloseUnregister\<rparr> else s)"
| "resolver_act_step fl ep CloseStep s = close_step s"

fun run_resolver :: "float_ops \<Rightarrow> string \<Rightarrow> resolver_act list \<Rightarrow> resolver_sys \<Rightarrow> resolver_sys run" where
  "run_resolver fl ep [] s = Ret s"
| "run_resolver fl ep (a # as) s = run_bind (resolver_act_step fl ep a s) (run_resolver fl ep as)"

section \<open>Invariant\<close>

text \<open>A resolution counts in the wait group from its \<open>Add\<close> to its \<open>Done\<close>.\<close>

fun resolving :: "resolve_pc \<Rightarrow> bool" where
  "resolving ResolveAdd = False"
| "resolving (ResolveWake n) = False"
| "resolving ResolveEnd = False"
| "resolving _ = True"

fun waking :: "resolve_pc \<Rightarrow> bool" where
  "waking (ResolveWake n) = True"
| "waking _ = False"

text \<open>The wait group while \<open>Close\<close> is parked: resolutions are left, or the last one is about to wake it, or it has been woken.\<close>

definition parked_group :: "nat \<Rightarrow> nat \<Rightarrow> wait_group \<Rightarrow> bool" where
  "parked_group r k w \<longleftrightarrow> (wg_waiters w = 1 \<and> wg_sema w = 0 \<and> k = 0 \<and> 0 < r) \<or>
     (wg_waiters w = 1 \<and> wg_sema w = 0 \<and> k = 1 \<and> r = 0) \<or> (wg_waiters w = 0 \<and> wg_sema w = 1 \<and> k = 0)"

definition group_inv :: "close_pc \<Rightarrow> nat \<Rightarrow> nat \<Rightarrow> wait_group \<Rightarrow> bool" where
  "group_inv c r k w \<longleftrightarrow> wg_counter w = int r \<and>
     (if c = CloseParked then parked_group r k w else wg_waiters w = 0 \<and> wg_sema w = 0 \<and> k = 0)"

definition resolver_inv :: "resolver_sys \<Rightarrow> bool" where
  "resolver_inv s \<longleftrightarrow> group_inv (rv_close s) (tcount resolving (rv_threads s)) (tcount waking (rv_threads s)) (rv_wg s) \<and>
     (\<forall>n. ResolveWake n \<in> set (rv_threads s) \<longrightarrow> n = 1)"

lemmas group_defs = group_inv_def parked_group_def wg_add_def wg_done_def wg_wake_def wg_woken_def

lemma resolver_build_inv: "resolver_inv resolver_build"
  by (simp add: resolver_inv_def resolver_build_def group_inv_def zero_wait_group_def)

text \<open>What a step of a resolution does to the wait group.\<close>

lemma resolve_query:
  assumes "resolve_step fl ep cv i ResolveQuery s = Ret (p', s')"
  shows "((\<exists>e. p' = ResolveReport (ReportError e)) \<and> (s' = s \<or> s' = s\<lparr>rv_routings := []\<rparr>)) \<or>
    (\<exists>rs. p' = ResolveConvert \<and> s' = s\<lparr>rv_routings := rs\<rparr> \<and> shard_valid (from_string ep zero_shard) \<and>
      resolve_unique_shard cv i (from_string ep zero_shard) = Ret (Inr rs))"
proof (cases "shard_valid (from_string ep zero_shard)")
  case True
  with assms obtain out where out: "resolve_unique_shard cv i (from_string ep zero_shard) = Ret out"
    "(p', s') = (case out of Inl e \<Rightarrow> (ResolveReport (ReportError e), s\<lparr>rv_routings := []\<rparr>)
      | Inr rs \<Rightarrow> (ResolveConvert, s\<lparr>rv_routings := rs\<rparr>))"
    by (auto simp: Let_def run_map_eq_Ret)
  with True show ?thesis by (cases out) auto
qed (use assms in \<open>auto simp: Let_def\<close>)

lemma resolve_step_group:
  assumes "resolve_step fl ep cv i p s = Ret (p', s')"
    and "group_inv c (one_if (resolving p) + r) (one_if (waking p) + k) (rv_wg s)" "\<forall>n. p = ResolveWake n \<longrightarrow> n = 1"
  shows "group_inv c (one_if (resolving p') + r) (one_if (waking p') + k) (rv_wg s') \<and> (\<forall>n. p' = ResolveWake n \<longrightarrow> n = 1) \<and>
    rv_close s' = rv_close s \<and> rv_threads s' = rv_threads s"
proof (cases p)
  case ResolveQuery
  with resolve_query [of fl ep cv i s p' s'] assms show ?thesis by auto
qed (use assms in \<open>auto simp: group_defs run_map_eq_Ret split: if_splits\<close>)

lemma close_step_inv:
  assumes "close_step s = Ret s'" "resolver_inv s"
  shows "resolver_inv s'"
proof (cases "rv_close s")
  case CloseParked
  with assms show ?thesis
    by (auto simp: close_step_def resolver_inv_def group_defs run_map_eq_Ret split: if_splits)
qed (use assms in \<open>auto simp: close_step_def resolver_inv_def group_inv_def parked_group_def split: if_splits\<close>)

lemma spawn_inv: "resolver_inv s \<Longrightarrow> resolver_inv (spawn s)"
  by (simp add: resolver_inv_def spawn_def tcount_def)

lemma resolver_act_inv:
  assumes "resolver_act_step fl ep a s = Ret s'" "resolver_inv s"
  shows "resolver_inv s'"
proof (cases a)
  case (Advance j cv i)
  show ?thesis
  proof (cases "j < length (rv_threads s)")
    case True
    with Advance assms(1) obtain p s1 where p: "resolve_step fl ep cv i (rv_threads s ! j) s = Ret (p, s1)"
      "s' = s1\<lparr>rv_threads := (rv_threads s)[j := p]\<rparr>" by (auto simp: run_map_eq_Ret)
    from focus_thread [OF True] obtain others where
      o: "\<And>P t. tcount P ((rv_threads s)[j := t]) = tcount P (t # others)"
        "\<And>t. set ((rv_threads s)[j := t]) = set (t # others)" "\<And>P. tcount P (rv_threads s) = tcount P (rv_threads s ! j # others)"
        "set (rv_threads s) = set (rv_threads s ! j # others)" by metis
    have "\<forall>n. rv_threads s ! j = ResolveWake n \<longrightarrow> n = 1"
      using assms(2) True by (metis resolver_inv_def nth_mem)
    moreover have "group_inv (rv_close s) (one_if (resolving (rv_threads s ! j)) + tcount resolving others)
        (one_if (waking (rv_threads s ! j)) + tcount waking others) (rv_wg s)"
      using assms(2) o(3) by (simp add: resolver_inv_def)
    ultimately have "group_inv (rv_close s) (one_if (resolving p) + tcount resolving others)
        (one_if (waking p) + tcount waking others) (rv_wg s1) \<and> (\<forall>n. p = ResolveWake n \<longrightarrow> n = 1) \<and> rv_close s1 = rv_close s"
      using resolve_step_group [OF p(1)] by blast
    moreover have "\<forall>n. ResolveWake n \<in> set others \<longrightarrow> n = 1"
      using assms(2) o(4) by (simp add: resolver_inv_def)
    ultimately show ?thesis by (simp add: resolver_inv_def p(2) o(1,2))
  next
    case False
    with Advance assms show ?thesis by simp
  qed
next
  case CloseCall
  with assms show ?thesis by (cases "rv_close s = CloseIdle") (auto simp: resolver_inv_def group_inv_def)
qed (use assms close_step_inv spawn_inv in \<open>auto split: if_splits\<close>)

lemma run_resolver_inv:
  "run_resolver fl ep as s = Ret s' \<Longrightarrow> resolver_inv s \<Longrightarrow> resolver_inv s'"
  by (induction "as" arbitrary: s) (auto simp: run_bind_eq_Ret dest: resolver_act_inv)

section \<open>When nothing faults\<close>

text \<open>A query answers when the routes are those of the cluster manager: none without an error.\<close>

definition query_ok :: "string \<Rightarrow> cluster_view \<Rightarrow> index_manager \<Rightarrow> bool" where
  "query_ok ep cv i \<longleftrightarrow>
     (case resolve_unique_shard cv i (from_string ep zero_shard) of
        Panic e \<Rightarrow> False | Ret (Inl e) \<Rightarrow> True | Ret (Inr rs) \<Rightarrow> None \<notin> set rs)"

fun act_ok :: "string \<Rightarrow> resolver_act \<Rightarrow> bool" where
  "act_ok ep (Advance j cv i) = query_ok ep cv i"
| "act_ok ep a = True"

text \<open>A run in which no resolution enters the wait group while \<open>Close\<close> is parked on it.\<close>

fun timely :: "resolver_act \<Rightarrow> resolver_sys \<Rightarrow> bool" where
  "timely (Advance j cv i) s = (rv_close s = CloseParked \<longrightarrow> j < length (rv_threads s) \<longrightarrow> rv_threads s ! j \<noteq> ResolveAdd)"
| "timely a s = True"

fun timely_run :: "float_ops \<Rightarrow> string \<Rightarrow> resolver_act list \<Rightarrow> resolver_sys \<Rightarrow> bool" where
  "timely_run fl ep [] s = True"
| "timely_run fl ep (a # as) s =
     (timely a s \<and> (case resolver_act_step fl ep a s of Ret s' \<Rightarrow> timely_run fl ep as s' | Panic e \<Rightarrow> True))"

definition quiet :: "resolver_sys \<Rightarrow> bool" where
  "quiet s \<longleftrightarrow> None \<notin> set (rv_routings s) \<and>
     (rv_close s = CloseParked \<longrightarrow> wg_waiters (rv_wg s) = 0 \<longrightarrow> wg_counter (rv_wg s) = 0)"

lemma resolve_step_returns:
  assumes "query_ok ep cv i" "group_inv c (one_if (resolving p) + r) (one_if (waking p) + k) (rv_wg s)"
    and "\<forall>n. p = ResolveWake n \<longrightarrow> n = 1" "c = rv_close s" "quiet s" "c = CloseParked \<longrightarrow> p \<noteq> ResolveAdd"
  shows "\<exists>p' s'. resolve_step fl ep cv i p s = Ret (p', s') \<and> quiet s'"
proof (cases p)
  case ResolveQuery
  show ?thesis
  proof (cases "shard_valid (from_string ep zero_shard)")
    case True
    from assms(1) obtain out where out: "resolve_unique_shard cv i (from_string ep zero_shard) = Ret out"
      "case out of Inl e \<Rightarrow> True | Inr rs \<Rightarrow> None \<notin> set rs"
      by (auto simp: query_ok_def split: run.splits sum.splits)
    with ResolveQuery True assms(5) show ?thesis by (cases out) (auto simp: quiet_def)
  qed (use ResolveQuery assms(5) in simp)
next
  case ResolveConvert
  with assms(5) convert_total [of "rv_routings s" fl] show ?thesis by (auto simp: quiet_def)
next
  case ResolveDone
  with assms(2,4,5) show ?thesis by (auto simp: group_defs quiet_def split: if_splits)
next
  case (ResolveWake n)
  with assms(2-5) show ?thesis by (auto simp: group_defs quiet_def split: if_splits)
next
  case ResolveAdd
  with assms(2,4-6) show ?thesis by (auto simp: group_defs quiet_def split: if_splits)
qed (use assms(5) in \<open>auto simp: quiet_def\<close>)

lemma close_step_returns:
  assumes "resolver_inv s" "quiet s"
  shows "\<exists>s'. close_step s = Ret s' \<and> quiet s'"
proof (cases "rv_close s")
  case CloseParked
  with assms show ?thesis
    by (auto simp: close_step_def resolver_inv_def quiet_def group_defs split: if_splits)
next
  case CloseWait
  with assms show ?thesis by (auto simp: close_step_def quiet_def resolver_inv_def group_inv_def)
qed (use assms in \<open>auto simp: close_step_def quiet_def\<close>)

lemma resolver_act_returns:
  assumes "resolver_inv s" "quiet s" "act_ok ep a" "timely a s"
  shows "\<exists>s'. resolver_act_step fl ep a s = Ret s' \<and> quiet s'"
proof (cases a)
  case (Advance j cv i)
  show ?thesis
  proof (cases "j < length (rv_threads s)")
    case True
    from focus_thread [OF True] obtain others where
      o: "\<And>P. tcount P (rv_threads s) = tcount P (rv_threads s ! j # others)" by metis
    have "\<forall>n. rv_threads s ! j = ResolveWake n \<longrightarrow> n = 1"
      using assms(1) True by (metis resolver_inv_def nth_mem)
    moreover have "group_inv (rv_close s) (one_if (resolving (rv_threads s ! j)) + tcount resolving others)
        (one_if (waking (rv_threads s ! j)) + tcount waking others) (rv_wg s)"
      using assms(1) o by (simp add: resolver_inv_def)
    moreover have "query_ok ep cv i" "rv_close s = CloseParked \<longrightarrow> rv_threads s ! j \<noteq> ResolveAdd"
      using assms(3,4) True Advance by auto
    ultimately obtain p s1 where "resolve_step fl ep cv i (rv_threads s ! j) s = Ret (p, s1)" "quiet s1"
      using resolve_step_returns [OF _ _ _ refl assms(2)] by blast
    with True Advance show ?thesis by (auto simp: quiet_def)
  next
    case False
    with Advance assms show ?thesis by simp
  qed
qed (use assms close_step_returns in \<open>auto simp: quiet_def spawn_def\<close>)

lemma run_resolver_returns:
  assumes "resolver_inv s" "quiet s" "\<forall>a \<in> set as. act_ok ep a" "timely_run fl ep as s"
  shows "\<exists>s'. run_resolver fl ep as s = Ret s'"
  using assms
proof (induction "as" arbitrary: s)
  case (Cons a "as")
  then obtain s1 where s1: "resolver_act_step fl ep a s = Ret s1" "quiet s1"
    using resolver_act_returns [of s ep a fl] by auto
  with Cons resolver_act_inv [OF s1(1)] show ?case by simp
qed simp

section \<open>Where the addresses come from\<close>

definition genuine :: "float_ops \<Rightarrow> string \<Rightarrow> (cluster_view \<times> index_manager) set \<Rightarrow> resolver_sys \<Rightarrow> bool" where
  "genuine fl ep Q s \<longleftrightarrow>
     (rv_routings s = [] \<or> shard_valid (from_string ep zero_shard) \<and>
        (\<exists>(cv, i) \<in> Q. resolve_unique_shard cv i (from_string ep zero_shard) = Ret (Inr (rv_routings s)))) \<and>
     (\<forall>addrs. ResolveReport (UpdateState addrs) \<in> set (rv_threads s) \<or> UpdateState addrs \<in> set (rv_reports s) \<longrightarrow>
        (\<exists>(cv, i) \<in> Q. resolve_now fl cv i ep = Ret (UpdateState addrs)))"

lemma genuine_frame:
  assumes "genuine fl ep Q s" "rv_routings s' = rv_routings s" "rv_reports s' = rv_reports s"
    and "set (rv_threads s') \<subseteq> insert p (set (rv_threads s))" "\<forall>addrs. p \<noteq> ResolveReport (UpdateState addrs)"
  shows "genuine fl ep Q s'"
proof -
  have "ResolveReport (UpdateState addrs) \<in> set (rv_threads s)" if "ResolveReport (UpdateState addrs) \<in> set (rv_threads s')" for addrs
    using subsetD [OF assms(4) that] assms(5) by auto
  with assms(1) show ?thesis unfolding genuine_def assms(2,3) by blast
qed

lemma genuine_step:
  assumes "resolve_step fl ep cv i p s = Ret (p', s')" "genuine fl ep Q s" "(cv, i) \<in> Q" "p \<in> set (rv_threads s)"
    and "set ts \<subseteq> insert p' (set (rv_threads s))"
  shows "genuine fl ep Q (s'\<lparr>rv_threads := ts\<rparr>)"
proof (cases p)
  case ResolveQuery
  from resolve_query assms(1) ResolveQuery have
    "((\<exists>e. p' = ResolveReport (ReportError e)) \<and> (s' = s \<or> s' = s\<lparr>rv_routings := []\<rparr>)) \<or>
     (\<exists>rs. p' = ResolveConvert \<and> s' = s\<lparr>rv_routings := rs\<rparr> \<and> shard_valid (from_string ep zero_shard) \<and>
      resolve_unique_shard cv i (from_string ep zero_shard) = Ret (Inr rs))" by blast
  with assms(2,3,5) show ?thesis unfolding genuine_def by fastforce
next
  case ResolveConvert
  with assms(1) obtain addrs where a: "convert_routing_to_addrs fl (rv_routings s) = Ret addrs" "s' = s"
    "p' = ResolveReport (if addrs = [] then ReportError (Cfg ErrResolveNoAvailableNode) else UpdateState addrs)"
    by (auto simp: run_map_eq_Ret)
  have "\<exists>(cv, i) \<in> Q. resolve_now fl cv i ep = Ret (UpdateState addrs)" if "addrs \<noteq> []"
  proof -
    have "rv_routings s \<noteq> []" using a(1) that by auto
    with assms(2) obtain cv' i' where "(cv', i') \<in> Q" "shard_valid (from_string ep zero_shard)"
      "resolve_unique_shard cv' i' (from_string ep zero_shard) = Ret (Inr (rv_routings s))"
      by (auto simp: genuine_def)
    with a(1) that show ?thesis by (auto simp: resolve_now_def Let_def intro!: bexI [of _ "(cv', i')"])
  qed
  with a(2,3) assms(2,5) show ?thesis unfolding genuine_def by (auto split: if_splits)
next
  case (ResolveReport r)
  with assms show ?thesis unfolding genuine_def by (fastforce dest: subsetD)
qed (use assms in \<open>auto simp: run_map_eq_Ret intro!: genuine_frame [OF assms(2), where p = p'] split: if_splits\<close>)

lemma genuine_act:
  assumes "resolver_act_step fl ep a s = Ret s'" "genuine fl ep Q s" "\<forall>j cv i. a = Advance j cv i \<longrightarrow> (cv, i) \<in> Q"
  shows "genuine fl ep Q s'"
proof (cases "\<exists>j cv i. a = Advance j cv i \<and> j < length (rv_threads s)")
  case True
  then obtain j cv i where j: "a = Advance j cv i" "j < length (rv_threads s)" by blast
  with assms(1) obtain p s1 where p: "resolve_step fl ep cv i (rv_threads s ! j) s = Ret (p, s1)"
    "s' = s1\<lparr>rv_threads := (rv_threads s)[j := p]\<rparr>" by (auto simp: run_map_eq_Ret)
  from genuine_step [OF p(1) assms(2)] assms(3) j p(2) show ?thesis
    by (simp add: set_update_subset_insert)
next
  case False
  have "rv_routings s' = rv_routings s \<and> rv_reports s' = rv_reports s \<and> set (rv_threads s') \<subseteq> insert ResolveAdd (set (rv_threads s))"
  proof (cases a)
    case CloseStep
    with assms(1) show ?thesis
      by (auto simp: close_step_def run_map_eq_Ret split: close_pc.splits if_splits)
  qed (use assms(1) False in \<open>auto simp: spawn_def split: if_splits\<close>)
  with genuine_frame [OF assms(2), where p = ResolveAdd and s' = s'] show ?thesis by simp
qed

lemma genuine_run:
  "run_resolver fl ep as s = Ret s' \<Longrightarrow> genuine fl ep Q s \<Longrightarrow> \<forall>j cv i. Advance j cv i \<in> set as \<longrightarrow> (cv, i) \<in> Q \<Longrightarrow>
   genuine fl ep Q s'"
proof (induction "as" arbitrary: s)
  case (Cons a "as")
  then obtain s1 where s1: "resolver_act_step fl ep a s = Ret s1" "run_resolver fl ep as s1 = Ret s'"
    by (auto simp: run_bind_eq_Ret)
  from genuine_act [OF s1(1) Cons.prems(2)] Cons.prems(3) s1(2) Cons.IH show ?case by simp
qed simp

section \<open>Properties\<close>

text \<open>C32: \<open>Close\<close> waits for the resolutions.  However the updates, the cron entry, gRPC and \<open>Close\<close> interleave: as long
  as no resolution enters the wait group while \<open>Close\<close> is parked on it, nothing faults; and at the step with which \<open>Close\<close>
  returns, no resolution that has entered is unfinished.\<close>

theorem resolver_close_waits:
  assumes "\<forall>a \<in> set as. act_ok ep a" "timely_run fl ep as resolver_build"
  shows "\<exists>s. run_resolver fl ep as resolver_build = Ret s \<and> wg_counter (rv_wg s) = int (tcount resolving (rv_threads s)) \<and>
    (\<forall>s'. close_step s = Ret s' \<and> rv_close s \<noteq> CloseReturned \<and> rv_close s' = CloseReturned \<longrightarrow>
      (\<forall>p \<in> set (rv_threads s). \<not> resolving p))"
proof -
  have q: "quiet resolver_build" by (simp add: quiet_def resolver_build_def)
  from run_resolver_returns [OF resolver_build_inv q assms] obtain s where s: "run_resolver fl ep as resolver_build = Ret s"
    by blast
  have inv: "resolver_inv s" by (rule run_resolver_inv [OF s resolver_build_inv])
  have "\<not> resolving p" if c: "close_step s = Ret s'" "rv_close s \<noteq> CloseReturned" "rv_close s' = CloseReturned"
    and p: "p \<in> set (rv_threads s)" for s' p
  proof -
    have "wg_counter (rv_wg s) = 0"
      using c by (auto simp: close_step_def wg_woken_def run_map_eq_Ret split: close_pc.splits if_splits)
    then have "tcount resolving (rv_threads s) = 0" using inv by (simp add: resolver_inv_def group_inv_def)
    with tcount_member [OF p] show ?thesis by force
  qed
  with s inv show ?thesis by (auto simp: resolver_inv_def group_inv_def)
qed

text \<open>C31: Every state the resolver publishes is one that a resolution on its own would have published.  Whatever the
  interleaving, the addresses handed to gRPC are those \<open>ResolveNow\<close> computes from the cluster and the manager as one of the
  queries of the run saw them, although the resolutions share the field they store their routes in.\<close>

theorem resolver_reports_genuine:
  assumes "run_resolver fl ep as resolver_build = Ret s" "UpdateState addrs \<in> set (rv_reports s)"
  shows "\<exists>j cv i. Advance j cv i \<in> set as \<and> resolve_now fl cv i ep = Ret (UpdateState addrs)"
proof -
  let ?Q = "{(cv, i). \<exists>j. Advance j cv i \<in> set as}"
  have "genuine fl ep ?Q resolver_build" by (simp add: genuine_def resolver_build_def)
  from genuine_run [OF assms(1) this] assms(2) show ?thesis by (auto simp: genuine_def)
qed

text \<open>C33: An update that comes late brings the process down.  \<open>Update\<close> starts its goroutine before that has entered the wait
  group, so \<open>Close\<close> can be parked when it enters: if the last resolution has brought the counter to zero and has not
  woken \<open>Close\<close> yet, the wait group panics.  There is such a run for every endpoint and every answer of the query.\<close>

theorem late_update_panics:
  assumes "query_ok ep cv i"
  shows "\<exists>as. (\<forall>a \<in> set as. act_ok ep a) \<and> run_resolver fl ep as resolver_build = Panic WaitGroupMisuse"
proof -
  let ?a = "Advance 0 cv i"
  let ?as = "\<lambda>more. [?a, UpdateCall, CloseCall, CloseStep, CloseStep, CloseStep, ?a] @ more @ [?a, ?a, Advance 1 cv i]"
  let ?u = "from_string ep zero_shard"
  let ?goal = "\<exists>as. (\<forall>a \<in> set as. act_ok ep a) \<and> run_resolver fl ep as resolver_build = Panic WaitGroupMisuse"
  have found: ?goal
    if "\<forall>a \<in> set more. a = ?a" "run_resolver fl ep (?as more) resolver_build = Panic WaitGroupMisuse" for more
  proof -
    have "\<forall>a \<in> set (?as more). act_ok ep a" using assms that(1) by auto
    with that(2) show ?goal by blast
  qed
  note defs = resolver_build_def close_step_def zero_wait_group_def wg_add_def wg_done_def spawn_def Let_def
  consider "\<not> shard_valid ?u" | e where "shard_valid ?u" "resolve_unique_shard cv i ?u = Ret (Inl e)"
    | rs where "shard_valid ?u" "resolve_unique_shard cv i ?u = Ret (Inr rs)" "None \<notin> set rs"
    using assms by (auto simp: query_ok_def split: run.splits sum.splits)
  then show ?goal
  proof cases
    case 1
    then show ?goal by (intro found [of "[]"]) (simp_all add: defs)
  next
    case 2
    then show ?goal by (intro found [of "[]"]) (simp_all add: defs)
  next
    case 3
    then obtain addrs where "convert_routing_to_addrs fl rs = Ret addrs" using convert_total by blast
    with 3 show ?goal by (intro found [of "[?a]"]) (simp_all add: defs)
  qed
qed

text \<open>Two resolutions at once can lose an answer: the nodes one of them has found are replaced by the nil list of another whose
  query fails, and the first then reports that no node is available.\<close>

theorem concurrent_query_loses_nodes:
  assumes "shard_valid (from_string ep zero_shard)" "resolve_unique_shard cv i (from_string ep zero_shard) = Ret (Inr rs)"
    and "resolve_unique_shard cv' i' (from_string ep zero_shard) = Ret (Inl e)"
  shows "\<exists>s. run_resolver fl ep [UpdateCall, Advance 0 cv i, Advance 1 cv' i', Advance 0 cv i, Advance 1 cv' i', Advance 0 cv i, Advance 0 cv i]
      resolver_build = Ret s \<and> rv_reports s = [ReportError (Cfg ErrResolveNoAvailableNode)]"
  using assms by (simp add: resolver_build_def zero_wait_group_def wg_add_def spawn_def Let_def)

text \<open>A resolver that closes takes the registration of its endpoint with it, also when it is by then that of another
  resolver for the same shard.\<close>

theorem close_unregisters_successor:
  "sm_load (im_listeners (resolver_close ep (resolver_start l2 ep (resolver_start l1 ep i)))) ep = None"
  by (simp add: resolver_close_def resolver_start_def unregister_listener_def register_listener_def)

section \<open>Witnesses\<close>

theorem late_update_panics_witness:
  "\<exists>as. run_resolver ex_float ''docs:0'' as resolver_build = Panic WaitGroupMisuse"
proof -
  have "query_ok ''docs:0'' ex_route_view ((sy_mgr (ex_csys True))\<lparr>im_manifests := []\<rparr>)"
    by (simp add: query_ok_def resolve_unique_shard_def)
  from late_update_panics [OF this] show ?thesis by blast
qed

text \<open>A run in which gRPC asks while the first resolution is under way, and \<open>Close\<close> waits for both.\<close>

definition ex_resolver_acts :: "resolver_act list" where
  "ex_resolver_acts = (let a = (\<lambda>j. Advance j ex_route_view (sy_mgr (ex_csys True)))
     in [a 0, AskNow, a 1, a 0, a 0, a 0, CloseCall, CloseStep, CloseStep, CloseStep, a 0, a 1, a 1, a 1, a 1, a 1])"

lemma ex_resolve:
  "resolve_unique_shard ex_route_view (sy_mgr (ex_csys True)) (from_string ''docs:0'' zero_shard) =
     Ret (Inr [Some \<lparr>rt_node = Some (ex_node ''n2'' Healthy), rt_load = None\<rparr>])"
  "shard_valid (from_string ''docs:0'' zero_shard)"
  "weight ex_float \<lparr>rt_node = Some (ex_node ''n2'' Healthy), rt_load = None\<rparr> = 1000"
proof -
  have f: "from_string ''docs:0'' zero_shard = ex_shard" by code_simp
  have k: "generate_replica_keys ex_shard 1 = Ret [''docs:0:0'']" by code_simp
  have m: "sh_index_name ex_shard = ''docs''" "shard_valid ex_shard" "sh_shard_id ex_shard = 0"
    "meta_shards (mf_meta ex_manifest) = 2" "meta_replicas (mf_meta ex_manifest) = 1"
    by (simp_all add: ex_shard_def shard_valid_def ex_manifest_def)
  show "weight ex_float \<lparr>rt_node = Some (ex_node ''n2'' Healthy), rt_load = None\<rparr> = 1000"
    by (simp add: weight_def ex_node_def initial_weight_def)
  show "resolve_unique_shard ex_route_view (sy_mgr (ex_csys True)) (from_string ''docs:0'' zero_shard) =
     Ret (Inr [Some \<lparr>rt_node = Some (ex_node ''n2'' Healthy), rt_load = None\<rparr>])"
    using ex_csys_manifest [of True] by (simp add: f m k resolve_unique_shard_def ex_route_view_def)
  show "shard_valid (from_string ''docs:0'' zero_shard)" using m f by simp
qed

lemma ex_resolver_acts_ok: "\<forall>a \<in> set ex_resolver_acts. act_ok ''docs:0'' a"
  using ex_resolve(1) by (simp add: ex_resolver_acts_def Let_def query_ok_def)

theorem resolver_close_waits_witness:
  "\<exists>s. run_resolver ex_float ''docs:0'' ex_resolver_acts resolver_build = Ret s \<and>
     wg_counter (rv_wg s) = int (tcount resolving (rv_threads s))"
proof -
  have "timely_run ex_float ''docs:0'' ex_resolver_acts resolver_build"
    by (simp add: ex_resolver_acts_def resolver_build_def close_step_def zero_wait_group_def wg_add_def wg_done_def wg_wake_def
        wg_woken_def spawn_def Let_def ex_resolve)
  from resolver_close_waits [OF ex_resolver_acts_ok this] show ?thesis by blast
qed

theorem resolver_reports_genuine_witness:
  "\<exists>s addrs. run_resolver ex_float ''docs:0'' ex_resolver_acts resolver_build = Ret s \<and> UpdateState addrs \<in> set (rv_reports s) \<and>
     (\<exists>j cv i. Advance j cv i \<in> set ex_resolver_acts \<and> resolve_now ex_float cv i ''docs:0'' = Ret (UpdateState addrs))"
proof -
  obtain s addrs where s: "run_resolver ex_float ''docs:0'' ex_resolver_acts resolver_build = Ret s" "UpdateState addrs \<in> set (rv_reports s)"
    by (auto simp: ex_resolver_acts_def resolver_build_def close_step_def zero_wait_group_def wg_add_def wg_done_def wg_wake_def
        wg_woken_def spawn_def Let_def ex_resolve)
  with resolver_reports_genuine [OF s] show ?thesis by blast
qed

theorem concurrent_query_loses_nodes_witness:
  "\<exists>s. run_resolver ex_float ''docs:0'' [UpdateCall, Advance 0 ex_route_view (sy_mgr (ex_csys True)),
      Advance 1 ex_route_view ((sy_mgr (ex_csys True))\<lparr>im_manifests := []\<rparr>), Advance 0 ex_route_view (sy_mgr (ex_csys True)),
      Advance 1 ex_route_view ((sy_mgr (ex_csys True))\<lparr>im_manifests := []\<rparr>), Advance 0 ex_route_view (sy_mgr (ex_csys True)),
      Advance 0 ex_route_view (sy_mgr (ex_csys True))] resolver_build = Ret s \<and>
    rv_reports s = [ReportError (Cfg ErrResolveNoAvailableNode)]"
proof -
  have "resolve_unique_shard ex_route_view ((sy_mgr (ex_csys True))\<lparr>im_manifests := []\<rparr>) (from_string ''docs:0'' zero_shard) =
      Ret (Inl (Cfg ErrResolveIndexShard))" by (simp add: resolve_unique_shard_def)
  from concurrent_query_loses_nodes [OF ex_resolve(2,1) this] show ?thesis .
qed

end
