(* ===== verification/Node_Runs.thy ===== *)
theory Node_Runs
  imports Commit
begin

text \<open>
  Everything the shard manager of one node is called for, in any order: manifest events, rebalances, scheduled reloads,
  commit events and searches, all operations of \<open>internal/engine/manager.go\<close>.  What is proved is that no
  such sequence faults, and that the loaded shards stay well formed.
\<close>

section \<open>Operations\<close>

datatype 'v node_op =
    ManifestEvent "'v event"
  | RebalanceNow
  | ReloadTick string world world
  | CommitEvent "'v event"
  | SearchIndex string "f32 list" int
  | SearchOne shard "f32 list" int

text \<open>The view of the cluster may differ from one operation to the next; a search leaves the state alone.\<close>

fun node_step ::
    "'v codec \<Rightarrow> ('e, 'v) etcd_ops \<Rightarrow> string \<Rightarrow> (shard \<Rightarrow> world) \<Rightarrow> cluster_view \<Rightarrow> 'v node_op \<Rightarrow> sys \<times> 'e \<Rightarrow> (sys \<times> 'e) run" where
  "node_step cd et rt ws cv (ManifestEvent ev) (s, st) = run_map (\<lambda>s'. (s', st)) (handle_manifest_event ws cd (Some cv) ev s)"
| "node_step cd et rt ws cv RebalanceNow (s, st) = run_map (\<lambda>s'. (s', st)) (rebalance ws cv s)"
| "node_step cd et rt ws cv (ReloadTick key w w') (s, st) =
     run_map (\<lambda>(s', st', e). (s', st')) (fire_reload cd et rt (Some cv) w w' key s st)"
| "node_step cd et rt ws cv (CommitEvent ev) (s, st) = handle_commit_event cd et rt (Some cv) ev s st"
| "node_step cd et rt ws cv (SearchIndex name x k) (s, st) = run_map (\<lambda>res. (s, st)) (manager_search s name x k)"
| "node_step cd et rt ws cv (SearchOne sh x k) (s, st) = run_map (\<lambda>res. (s, st)) (search_shard s sh x k)"

fun node_run ::
    "'v codec \<Rightarrow> ('e, 'v) etcd_ops \<Rightarrow> string \<Rightarrow> (shard \<Rightarrow> world) \<Rightarrow> (cluster_view \<times> 'v node_op) list \<Rightarrow> sys \<times> 'e \<Rightarrow>
     (sys \<times> 'e) run" where
  "node_run cd et rt ws [] x = Ret x"
| "node_run cd et rt ws ((cv, p) # ps) x = run_bind (node_step cd et rt ws cv p x) (node_run cd et rt ws ps)"

text \<open>What the operations rely on: a lease, and new manifests that decode to a source and a sensible number of shards.\<close>

fun op_sound :: "'v codec \<Rightarrow> 'v node_op \<Rightarrow> bool" where
  "op_sound cd (ManifestEvent ev) \<longleftrightarrow>
     (ev_is_create ev \<longrightarrow> (case dec_manifest cd (ev_value ev) of None \<Rightarrow> False | Some m \<Rightarrow> manifest_ok m))"
| "op_sound cd p \<longleftrightarrow> True"

section \<open>One operation\<close>

lemma manifest_event_ok:
  assumes "sys_ok s" "op_sound cd (ManifestEvent ev)"
  shows "\<exists>s'. handle_manifest_event ws cd (Some cv) ev s = Ret s' \<and> sys_ok s'"
proof -
  consider m where "ev_is_create ev" "dec_manifest cd (ev_value ev) = Some m" "manifest_ok m"
    | "\<not> ev_is_create ev"
    using assms(2) by (auto split: option.splits)
  then show ?thesis
  proof cases
    case (1 m)
    obtain shs where "generate_shards m = Ret shs" using generate_Ret [OF 1(3)] by blast
    from load_index_ok [OF assms(1) 1(3) this, of "Some cv" ws] 1(1,2) show ?thesis
      by (auto simp: handle_manifest_event_def manifest_validate_def)
  next
    case 2
    define name where "name = meta_name (mf_meta (case dec_manifest cd (ev_value ev) of Some m \<Rightarrow> m | None \<Rightarrow> zero_manifest))"
    have "\<exists>s' n. delete_index name s = Ret (s', n) \<and> sys_ok s'"
    proof (cases "sm_load (im_manifests (sy_mgr s)) name")
      case None
      with assms(1) show ?thesis by (simp add: delete_index_def)
    next
      case (Some m)
      from delete_index_ok [OF assms(1) Some] show ?thesis by blast
    qed
    with 2 assms(1) show ?thesis
      by (auto simp: handle_manifest_event_def manifest_validate_def Let_def name_def)
  qed
qed

lemma reload_tick_ok:
  assumes "sys_ok s" "cv_lease cv = Some lease"
  shows "\<exists>s' st' e. fire_reload cd et rt (Some cv) w w' key s st = Ret (s', st', e) \<and> sys_ok s'"
proof (cases "\<exists>fx. engine s key = Some (FaissIx fx)")
  case False
  with assms(1) show ?thesis by (auto simp: fire_reload_def split: option.splits index.splits)
next
  case True
  then obtain fx where fx: "engine s key = Some (FaissIx fx)" by blast
  have ok: "store_ok (sy_heap s) (im_engine_store (sy_mgr s))" using assms(1) by (simp add: sys_ok_def)
  show ?thesis
  proof (cases "fx_reload_callback fx")
    case ReloadSelf
    obtain h' fx' e where r: "faiss_reload w w' (sy_heap s) fx = Ret (h', fx', e)" "fx_ok h' fx'"
      "ch_frame (fx_owned fx) (sy_heap s) h'" "fx_shard fx' = fx_shard fx"
      "fx_owned fx' \<subseteq> fx_owned fx \<union> {i. ch_next (sy_heap s) \<le> i}"
      using faiss_reload_ok [of "sy_heap s" fx w w'] store_okD(3) [OF ok fx] by auto
    have "sys_ok (store_shard key (h', fx') s)"
      using assms(1) store_ok_own [OF ok fx r(3,2,4,5)] by (simp add: sys_ok_def store_shard_def)
    with fx ReloadSelf r(1) show ?thesis by (simp add: fire_reload_def)
  next
    case (StageAndSignal name)
    from fire_reload_staging [OF assms(1) fx StageAndSignal assms(2), where cd = cd and et = et and rt = rt
        and w = w and w' = w' and st = st] show ?thesis by (elim exE conjE) (intro exI conjI)
  qed
qed

lemma commit_event_ok:
  assumes "sys_ok s"
  shows "\<exists>s' st'. handle_commit_event cd et rt cv ev s st = Ret (s', st') \<and> sys_ok s'"
proof -
  have "\<exists>s' st'. commit_index et rt cv name rv s st = Ret (s', st') \<and> sys_ok s'" for name rv
  proof (cases "sm_load (im_manifests (sy_mgr s)) name")
    case None
    with assms show ?thesis by (simp add: commit_index_def)
  next
    case (Some m)
    from commit_index_ok [OF assms Some, of et rt cv rv st] show ?thesis unfolding committed_def by blast
  qed
  with assms show ?thesis by (auto simp: handle_commit_event_def Let_def split: option.splits)
qed

lemma search_one_Ret:
  assumes "sys_ok s"
  shows "\<exists>res. search_shard s sh x k = Ret res" "\<exists>r. search_one s x k sh = Ret r"
  using search_shard_Ret [of s sh x k] assms by (auto simp: sys_ok_def search_one_def split: prod.splits)

lemma manager_search_Ret:
  assumes "sys_ok s"
  shows "\<exists>res. manager_search s name x k = Ret res"
proof (cases "sm_load (im_manifests (sy_mgr s)) name")
  case None
  then show ?thesis by (simp add: manager_search_def)
next
  case (Some m)
  then have "generate_unique_shards m = Ret (unique_shards m)"
    using assms generate_unique_shards_eq [of m] by (auto simp: sys_ok_def manifests_ok_def)
  moreover obtain rs where "run_mapM (search_one s x k) (unique_shards m) = Ret rs"
    using run_mapM_Ret [of "unique_shards m" "search_one s x k" "\<lambda>a b. True"] search_one_Ret(2) [OF assms] by auto
  ultimately show ?thesis using Some by (simp add: manager_search_def)
qed

lemma node_step_ok:
  assumes "sys_ok s" "op_sound cd p" "cv_lease cv = Some lease"
  shows "\<exists>s' st'. node_step cd et rt ws cv p (s, st) = Ret (s', st') \<and> sys_ok s'"
proof (cases p)
  case (ManifestEvent ev)
  with manifest_event_ok [OF assms(1), of cd ev ws cv] assms(2) show ?thesis by auto
next
  case RebalanceNow
  with rebalance_ok [OF assms(1), of ws cv] show ?thesis by auto
next
  case (ReloadTick key w w')
  with reload_tick_ok [OF assms(1,3), where cd = cd and et = et and rt = rt and w = w and w' = w' and key = key and st = st]
  show ?thesis by auto
next
  case (CommitEvent ev)
  with commit_event_ok [OF assms(1)] show ?thesis by simp
next
  case (SearchIndex name x k)
  with manager_search_Ret [OF assms(1), of name x k] assms(1) show ?thesis by auto
next
  case (SearchOne sh x k)
  with search_one_Ret(1) [OF assms(1), of sh x k] assms(1) show ?thesis by auto
qed

section \<open>Properties\<close>

text \<open>C10: No sequence of operations breaks a node.  From a well-formed state, any manifest events (as long as new manifests decode to a source and
  a sensible number of shards), rebalances, scheduled reloads, commit events and searches, in any order and with
  whatever view of the cluster and contents of etcd, run without a fault (no handle used after it is freed or freed
  twice, no nil dereference) and end in a well-formed state: each shard under its key, no handle shared.\<close>

theorem node_operations_safe:
  assumes "sys_ok s" "\<forall>(cv, p) \<in> set ps. op_sound cd p \<and> cv_lease cv \<noteq> None"
  shows "\<exists>s' st'. node_run cd et rt ws ps (s, st) = Ret (s', st') \<and> sys_ok s'"
  using assms
proof (induction ps arbitrary: s st)
  case Nil
  then show ?case by simp
next
  case (Cons cp ps)
  obtain cv p where cp: "cp = (cv, p)" by fastforce
  with Cons.prems(2) obtain lease where "op_sound cd p" "cv_lease cv = Some lease" by auto
  from node_step_ok [OF Cons.prems(1) this, where et = et and rt = rt and ws = ws and st = st] obtain s1 st1 where
    1: "node_step cd et rt ws cv p (s, st) = Ret (s1, st1)" "sys_ok s1" by blast
  from Cons.IH [OF 1(2), of st1] Cons.prems(2) obtain s' st' where
    "node_run cd et rt ws ps (s1, st1) = Ret (s', st')" "sys_ok s'" by auto
  with 1(1) cp show ?case by auto
qed

section \<open>Witnesses\<close>

theorem node_operations_safe_witness:
  "\<exists>s' st'. node_run ex_rev_codec (ex_log []) ''/v'' (\<lambda>sh. ex_world ''5'')
     [(ex_view True, ReloadTick ''docs:0'' (ex_world ''5'') (ex_world ''5'')), (ex_view False, RebalanceNow),
      (ex_view True, SearchIndex ''docs'' [F_num 1] 3),
      (ex_view True, ManifestEvent \<lparr>ev_type = DeleteEvent, ev_create = False, ev_key = '''', ev_value = None\<rparr>)]
     (ex_csys True, []) = Ret (s', st') \<and> sys_ok s'"
  by (rule node_operations_safe [OF ex_csys_ok]) (simp add: ex_view_lease ex_view_def ev_is_create_def)

end
