(* ===== verification/Membership.thy ===== *)
theory Membership
  imports Node_Runs "HOL-Library.List_Lexorder" "HOL-Library.Char_ord"
begin

text \<open>
  The watch on the nodes together with the shards they move: \<open>SyncCluster\<close> of \<open>internal/cluster/node.go\<close>
  calls, for every change of the ring, the hook that \<open>InitManager\<close> installed, which is \<open>Rebalance\<close> of
  \<open>internal/engine/manager.go\<close>.  A state is a pair of the two managers of a node.  What is proved is where the shards of a
  cluster are, once its nodes have seen the changes.
\<close>

section \<open>The loop of a watch\<close>

text \<open>
  A watch hands over responses with events in their order.  A cancelled response is logged as fatal, which ends the
  process; the answer tells whether that happened.
\<close>

record 'v watch_response =
  wr_canceled :: bool
  wr_events :: "'v event list"

fun watch_loop :: "('v event \<Rightarrow> 'x \<Rightarrow> 'x run) \<Rightarrow> 'v watch_response list \<Rightarrow> 'x \<Rightarrow> ('x \<times> bool) run" where
  "watch_loop f [] x = Ret (x, False)"
| "watch_loop f (w # ws) x =
     (if wr_canceled w then Ret (x, True) else run_bind (run_fold f (wr_events w) x) (watch_loop f ws))"

section \<open>One change of the membership\<close>

definition membership_event ::
    "'r ring_ops \<Rightarrow> 'v codec \<Rightarrow> ('e, 'v) etcd_ops \<Rightarrow> string \<Rightarrow> (shard \<Rightarrow> world) \<Rightarrow> 'e \<Rightarrow> 'v event \<Rightarrow>
     'r etcd_manager \<times> sys \<Rightarrow> ('r etcd_manager \<times> sys) run" where
  "membership_event rg cd et rt ws st ev x =
     (case x of (em, s) \<Rightarrow>
        run_bind (handle_node_event rg cd ev em) (\<lambda>(em', hook).
          if hook then run_map (\<lambda>s'. (em', s')) (rebalance ws (cluster_view_of rg cd et rt em' st) s)
          else Ret (em', s)))"

definition watch_members ::
    "'r ring_ops \<Rightarrow> 'v codec \<Rightarrow> ('e, 'v) etcd_ops \<Rightarrow> string \<Rightarrow> (shard \<Rightarrow> world) \<Rightarrow> 'e \<Rightarrow> 'v watch_response list \<Rightarrow>
     'r etcd_manager \<times> sys \<Rightarrow> (('r etcd_manager \<times> sys) \<times> bool) run" where
  "watch_members rg cd et rt ws st = watch_loop (membership_event rg cd et rt ws st)"

text \<open>The two watches of the shard manager, which a single node does not start.\<close>

definition watch_manifests ::
    "(shard \<Rightarrow> world) \<Rightarrow> 'v codec \<Rightarrow> cluster_view \<Rightarrow> 'v watch_response list \<Rightarrow> sys \<Rightarrow> (sys \<times> bool) run" where
  "watch_manifests ws cd cv rs s =
     (if im_mode (sy_mgr s) = Single then Ret (s, False) else watch_loop (handle_manifest_event ws cd (Some cv)) rs s)"

definition watch_commits ::
    "'v codec \<Rightarrow> ('e, 'v) etcd_ops \<Rightarrow> string \<Rightarrow> cluster_view \<Rightarrow> 'v watch_response list \<Rightarrow> sys \<times> 'e \<Rightarrow> ((sys \<times> 'e) \<times> bool) run" where
  "watch_commits cd et rt cv rs x =
     (if im_mode (sy_mgr (fst x)) = Single then Ret (x, False)
      else watch_loop (\<lambda>ev (s, st). handle_commit_event cd et rt (Some cv) ev s st) rs x)"

section \<open>Where the shards are\<close>

text \<open>
  \<open>placed\<close>: every shard of a known index is loaded only if the ring gives one of its replicas to this node, and
  then it is loaded or pending.  \<open>changes_ring\<close> are the events after which the hook is called.
\<close>

definition owns_shard :: "'r ring_ops \<Rightarrow> 'r etcd_manager \<Rightarrow> index_manifest \<Rightarrow> shard \<Rightarrow> bool" where
  "owns_shard rg em m u \<longleftrightarrow>
     (\<exists>i \<in> {0..<meta_replicas (mf_meta m)}. need_load rg em (shard_key (u\<lparr>sh_replica_id := i\<rparr>)) = Ret True)"

definition placed :: "'r ring_ops \<Rightarrow> 'r etcd_manager \<Rightarrow> sys \<Rightarrow> bool" where
  "placed rg em s \<longleftrightarrow>
     (\<forall>name m u. sm_load (im_manifests (sy_mgr s)) name = Some m \<longrightarrow> u \<in> set (unique_shards m) \<longrightarrow>
        (engine s (unique_shard_key u) \<noteq> None \<longrightarrow> owns_shard rg em m u) \<and>
        (owns_shard rg em m u \<longrightarrow> engine s (unique_shard_key u) \<noteq> None \<or> u \<in> pending s))"

definition changes_ring :: "'v codec \<Rightarrow> 'v event \<Rightarrow> bool" where
  "changes_ring cd ev \<longleftrightarrow> ev_is_create ev \<or> ev_type ev = DeleteEvent \<or> nm_status (event_meta cd ev) = Inactive"

lemma needs_owns: "needs_shard (cluster_view_of rg cd et rt em st) m u \<longleftrightarrow> owns_shard rg em m u"
proof -
  have "\<lparr>sh_index_name = sh_index_name u, sh_shard_id = sh_shard_id u, sh_replica_id = i\<rparr> = u\<lparr>sh_replica_id := i\<rparr>" for i
    by (cases u) simp
  then show ?thesis
    by (simp only: needs_shard_def owns_shard_def cluster_view_of_def cluster_view.simps)
qed

lemma placed_settled:
  "placed rg em s \<longleftrightarrow> (\<forall>name m u. sm_load (im_manifests (sy_mgr s)) name = Some m \<longrightarrow> u \<in> set (unique_shards m) \<longrightarrow>
     settled (cluster_view_of rg cd et rt em st) m u s)"
  by (simp add: placed_def settled_def needs_owns)

text \<open>Ownership depends on the ring and the name of the node only.\<close>

lemma placed_cong:
  assumes "em_ring em' = em_ring em" "em_node_id em' = em_node_id em"
  shows "placed rg em' s = placed rg em s"
proof -
  have "need_load rg em' k = need_load rg em k" for k using assms by (simp only: need_load_def)
  then show ?thesis by (simp only: placed_def owns_shard_def)
qed

lemma handle_node_event_hook:
  assumes "handle_node_event rg cd ev em = Ret (em', b)"
  shows "b = (changes_ring cd ev \<and> em_hook em)" "\<not> changes_ring cd ev \<Longrightarrow> em_ring em' = em_ring em"
  using assms
  by (auto simp: handle_node_event_def changes_ring_def on_ring_def Let_def run_map_eq_Ret split: if_splits option.splits)

text \<open>One event keeps what holds of a node with a ring and a hook; a change of the ring makes it placed.\<close>

definition member_ok :: "'r etcd_manager \<times> sys \<Rightarrow> bool" where
  "member_ok x \<longleftrightarrow> sys_ok (snd x) \<and> em_hook (fst x) \<and> em_ring (fst x) \<noteq> None"

lemma membership_event_ok:
  assumes "ring_ok rg nodes" "member_ok (em, s)" "em_ring em = Some r"
  shows "\<exists>em' s' r'. membership_event rg cd et rt ws st ev (em, s) = Ret (em', s') \<and> member_ok (em', s') \<and>
    em_ring em' = Some r' \<and> nodes r' = member_step cd (nodes r) ev \<and> em_node_id em' = em_node_id em \<and>
    im_manifests (sy_mgr s') = im_manifests (sy_mgr s) \<and> (changes_ring cd ev \<or> placed rg em s \<longrightarrow> placed rg em' s')"
proof -
  from handle_node_event_ring [OF assms(1,3), of cd ev] obtain em' r' b where
    1: "handle_node_event rg cd ev em = Ret (em', b)" "em_ring em' = Some r'" "nodes r' = member_step cd (nodes r) ev"
      "em_node_id em' = em_node_id em" "em_hook em' = em_hook em" by blast
  have b: "b = changes_ring cd ev"
    using handle_node_event_hook(1) [OF 1(1)] assms(2) by (simp add: member_ok_def)
  show ?thesis
  proof (cases b)
    case False
    then have "em_ring em' = em_ring em" using handle_node_event_hook(2) [OF 1(1)] b by simp
    from placed_cong [OF this 1(4), of rg s] 1 b False assms(2) show ?thesis
      by (simp add: membership_event_def member_ok_def)
  next
    case True
    have ok: "sys_ok s" using assms(2) by (simp add: member_ok_def)
    let ?cv = "cluster_view_of rg cd et rt em' st"
    obtain s' where s': "rebalance ws ?cv s = Ret s'" "sys_ok s'" "im_manifests (sy_mgr s') = im_manifests (sy_mgr s)"
      "\<forall>name m u. sm_load (im_manifests (sy_mgr s)) name = Some m \<longrightarrow> u \<in> set (unique_shards m) \<longrightarrow> settled ?cv m u s'"
      using rebalance_ok [OF ok, of ws ?cv] by blast
    have "placed rg em' s'"
      unfolding placed_settled [where cd = cd and et = et and rt = rt and st = st] s'(3) by (rule s'(4))
    with 1 s' True assms(2) show ?thesis
      by (simp add: membership_event_def member_ok_def)
  qed
qed

text \<open>A whole session: what was handled before a cancelled response.\<close>

definition handled :: "'v watch_response list \<Rightarrow> 'v event list" where
  "handled rs = concat (map wr_events (takeWhile (\<lambda>w. \<not> wr_canceled w) rs))"

lemma handled_simps [simp]:
  "handled [] = []" "wr_canceled w \<Longrightarrow> handled (w # rs) = []"
  "\<not> wr_canceled w \<Longrightarrow> handled (w # rs) = wr_events w @ handled rs"
  by (simp_all add: handled_def)

lemma membership_events_ok:
  assumes "ring_ok rg nodes"
  shows "member_ok (em, s) \<Longrightarrow> em_ring em = Some r \<Longrightarrow>
    \<exists>em' s' r'. run_fold (membership_event rg cd et rt ws st) evs (em, s) = Ret (em', s') \<and> member_ok (em', s') \<and>
      em_ring em' = Some r' \<and> nodes r' = foldl (member_step cd) (nodes r) evs \<and> em_node_id em' = em_node_id em \<and>
      im_manifests (sy_mgr s') = im_manifests (sy_mgr s) \<and>
      (list_ex (changes_ring cd) evs \<or> placed rg em s \<longrightarrow> placed rg em' s')"
proof (induction evs arbitrary: em s r)
  case Nil
  then show ?case by simp
next
  case (Cons ev evs)
  from membership_event_ok [OF assms Cons.prems, of cd et rt ws st ev] obtain em1 s1 r1 where
    1: "membership_event rg cd et rt ws st ev (em, s) = Ret (em1, s1)" "member_ok (em1, s1)" "em_ring em1 = Some r1"
      "nodes r1 = member_step cd (nodes r) ev" "em_node_id em1 = em_node_id em"
      "im_manifests (sy_mgr s1) = im_manifests (sy_mgr s)" "changes_ring cd ev \<or> placed rg em s \<longrightarrow> placed rg em1 s1" by blast
  from Cons.IH [OF 1(2,3)] obtain em2 s2 r2 where
    2: "run_fold (membership_event rg cd et rt ws st) evs (em1, s1) = Ret (em2, s2)" "member_ok (em2, s2)" "em_ring em2 = Some r2"
      "nodes r2 = foldl (member_step cd) (nodes r1) evs" "em_node_id em2 = em_node_id em1"
      "im_manifests (sy_mgr s2) = im_manifests (sy_mgr s1)"
      "list_ex (changes_ring cd) evs \<or> placed rg em1 s1 \<longrightarrow> placed rg em2 s2" by blast
  from 1 2 show ?case by (intro exI [of _ em2] exI [of _ s2] exI [of _ r2]) auto
qed

lemma watch_members_ok:
  assumes "ring_ok rg nodes"
  shows "member_ok (em, s) \<Longrightarrow> em_ring em = Some r \<Longrightarrow>
    \<exists>em' s' r'. watch_members rg cd et rt ws st rs (em, s) = Ret ((em', s'), list_ex wr_canceled rs) \<and> member_ok (em', s') \<and>
      em_ring em' = Some r' \<and> nodes r' = foldl (member_step cd) (nodes r) (handled rs) \<and> em_node_id em' = em_node_id em \<and>
      im_manifests (sy_mgr s') = im_manifests (sy_mgr s) \<and>
      (list_ex (changes_ring cd) (handled rs) \<or> placed rg em s \<longrightarrow> placed rg em' s')"
proof (induction rs arbitrary: em s r)
  case Nil
  then show ?case by (simp add: watch_members_def)
next
  case (Cons w rs)
  show ?case
  proof (cases "wr_canceled w")
    case True
    with Cons.prems show ?thesis by (simp add: watch_members_def)
  next
    case False
    from membership_events_ok [OF assms Cons.prems, of cd et rt ws st "wr_events w"] obtain em1 s1 r1 where
      1: "run_fold (membership_event rg cd et rt ws st) (wr_events w) (em, s) = Ret (em1, s1)" "member_ok (em1, s1)"
        "em_ring em1 = Some r1" "nodes r1 = foldl (member_step cd) (nodes r) (wr_events w)" "em_node_id em1 = em_node_id em"
        "im_manifests (sy_mgr s1) = im_manifests (sy_mgr s)"
        "list_ex (changes_ring cd) (wr_events w) \<or> placed rg em s \<longrightarrow> placed rg em1 s1" by blast
    from Cons.IH [OF 1(2,3)] obtain em2 s2 r2 where
      2: "watch_members rg cd et rt ws st rs (em1, s1) = Ret ((em2, s2), list_ex wr_canceled rs)" "member_ok (em2, s2)"
        "em_ring em2 = Some r2" "nodes r2 = foldl (member_step cd) (nodes r1) (handled rs)" "em_node_id em2 = em_node_id em1"
        "im_manifests (sy_mgr s2) = im_manifests (sy_mgr s1)"
        "list_ex (changes_ring cd) (handled rs) \<or> placed rg em1 s1 \<longrightarrow> placed rg em2 s2" by blast
    from 1 2 False show ?thesis
      by (intro exI [of _ em2] exI [of _ s2] exI [of _ r2]) (auto simp: watch_members_def)
  qed
qed

section \<open>The shards of a cluster\<close>

text \<open>
  Nodes whose rings have the same members agree on the owners: some node owns a shard, and at most as many as it has replicas.
\<close>

lemma owners_cover:
  assumes rg: "ring_ok rg nodes" "\<And>r r' k. nodes r = nodes r' \<Longrightarrow> rg_get rg r k = rg_get rg r' k"
    and N: "finite N" "N \<noteq> {}"
    and em: "\<And>n. n \<in> N \<Longrightarrow> em_node_id (em n) = n" "\<And>n. n \<in> N \<Longrightarrow> \<exists>r. em_ring (em n) = Some r \<and> nodes r = N"
    and m: "0 < meta_replicas (mf_meta m)"
  shows "\<exists>n \<in> N. owns_shard rg (em n) m u" "finite {n \<in> N. owns_shard rg (em n) m u}"
    "card {n \<in> N. owns_shard rg (em n) m u} \<le> nat (meta_replicas (mf_meta m))"
proof -
  obtain r where r: "nodes r = N" using N(2) em(2) by blast
  define own where "own k = the (rg_get rg r k)" for k
  have get: "rg_get rg r k = Some (own k) \<and> own k \<in> N" for k
    using ring_okD(4,5) [OF rg(1)] N(2) r unfolding own_def by (cases "rg_get rg r k") auto
  have need: "need_load rg (em n) k = Ret True \<longleftrightarrow> own k = n" if n: "n \<in> N" for n k
  proof -
    obtain r' where r': "em_ring (em n) = Some r'" "nodes r' = nodes r" using em(2) [OF n] r by blast
    then show ?thesis using rg(2) [OF r'(2), of k] get [of k] em(1) [OF n] by (simp add: need_load_def)
  qed
  let ?key = "\<lambda>i. shard_key (u\<lparr>sh_replica_id := i\<rparr>)" and ?R = "{0..<meta_replicas (mf_meta m)}"
  have "owns_shard rg (em (own (?key 0))) m u"
    using need [OF conjunct2 [OF get], of "?key 0" "?key 0"] m unfolding owns_shard_def by auto
  then show "\<exists>n \<in> N. owns_shard rg (em n) m u" using get by blast
  show "finite {n \<in> N. owns_shard rg (em n) m u}" using N(1) by simp
  have "{n \<in> N. owns_shard rg (em n) m u} \<subseteq> (\<lambda>i. own (?key i)) ` ?R"
  proof
    fix n assume n: "n \<in> {n \<in> N. owns_shard rg (em n) m u}"
    then obtain i where "i \<in> ?R" "own (?key i) = n" using need unfolding owns_shard_def by blast
    then show "n \<in> (\<lambda>i. own (?key i)) ` ?R" by blast
  qed
  then have "card {n \<in> N. owns_shard rg (em n) m u} \<le> card ((\<lambda>i. own (?key i)) ` ?R)"
    by (rule card_mono [rotated]) simp
  also have "\<dots> \<le> card ?R" by (rule card_image_le) simp
  finally show "card {n \<in> N. owns_shard rg (em n) m u} \<le> nat (meta_replicas (mf_meta m))" by simp
qed

lemma placed_cluster:
  assumes rg: "ring_ok rg nodes" "\<And>r r' k. nodes r = nodes r' \<Longrightarrow> rg_get rg r k = rg_get rg r' k"
    and N: "finite N" "N \<noteq> {}"
    and em: "\<And>n. n \<in> N \<Longrightarrow> em_node_id (em n) = n" "\<And>n. n \<in> N \<Longrightarrow> \<exists>r. em_ring (em n) = Some r \<and> nodes r = N"
    and pl: "\<And>n. n \<in> N \<Longrightarrow> placed rg (em n) (s n)"
    and m: "\<And>n. n \<in> N \<Longrightarrow> sm_load (im_manifests (sy_mgr (s n))) name = Some m" "u \<in> set (unique_shards m)"
      "0 < meta_replicas (mf_meta m)"
  shows "(\<exists>n \<in> N. engine (s n) (unique_shard_key u) \<noteq> None \<or> u \<in> pending (s n)) \<and>
    card {n \<in> N. engine (s n) (unique_shard_key u) \<noteq> None} \<le> nat (meta_replicas (mf_meta m))"
proof -
  note own = owners_cover [OF rg N em m(3), of u]
  have at: "(engine (s n) (unique_shard_key u) \<noteq> None \<longrightarrow> owns_shard rg (em n) m u) \<and>
      (owns_shard rg (em n) m u \<longrightarrow> engine (s n) (unique_shard_key u) \<noteq> None \<or> u \<in> pending (s n))" if "n \<in> N" for n
    using pl [OF that] m(1) [OF that] m(2) unfolding placed_def by blast
  have "{n \<in> N. engine (s n) (unique_shard_key u) \<noteq> None} \<subseteq> {n \<in> N. owns_shard rg (em n) m u}" using at by blast
  from card_mono [OF own(2) this] own(1,3) at show ?thesis by fastforce
qed

section \<open>The watches of the shard manager\<close>

lemma run_fold_inv:
  assumes "\<And>ev x. ev \<in> set evs \<Longrightarrow> P x \<Longrightarrow> \<exists>x'. f ev x = Ret x' \<and> P x'"
  shows "P x \<Longrightarrow> \<exists>x'. run_fold f evs x = Ret x' \<and> P x'"
  using assms
proof (induction evs arbitrary: x)
  case Nil
  then show ?case by simp
next
  case (Cons ev evs)
  from Cons.prems(2) [of ev x] Cons.prems(1) obtain x1 where 1: "f ev x = Ret x1" "P x1" by auto
  from Cons.IH [OF 1(2)] Cons.prems(2) 1(1) show ?case by auto
qed

lemma watch_loop_inv:
  assumes "\<And>w ev x. w \<in> set rs \<Longrightarrow> ev \<in> set (wr_events w) \<Longrightarrow> P x \<Longrightarrow> \<exists>x'. f ev x = Ret x' \<and> P x'"
  shows "P x \<Longrightarrow> \<exists>x'. watch_loop f rs x = Ret (x', list_ex wr_canceled rs) \<and> P x'"
  using assms
proof (induction rs arbitrary: x)
  case Nil
  then show ?case by simp
next
  case (Cons w rs)
  obtain x1 where 1: "run_fold f (wr_events w) x = Ret x1" "P x1"
    using run_fold_inv [where evs = "wr_events w" and P = P and f = f, OF _ Cons.prems(1)] Cons.prems(2) [of w] by auto
  have "\<exists>x'. watch_loop f rs x1 = Ret (x', list_ex wr_canceled rs) \<and> P x'"
    by (rule Cons.IH [OF 1(2)]) (use Cons.prems(2) in auto)
  then show ?case using Cons.prems(1) 1(1) by auto
qed

text \<open>The watches end only with the process: over any responses, with new manifests as \<open>op_sound\<close> asks, the two loops of the
  shard manager handle every event without a fault, keep the loaded shards well formed, and stop exactly at a cancelled response.\<close>

theorem manager_watches_safe:
  assumes "sys_ok s" "im_mode (sy_mgr s) = ClusterMode"
    and "\<And>w ev. w \<in> set rs \<Longrightarrow> ev \<in> set (wr_events w) \<Longrightarrow> op_sound cd (ManifestEvent ev)"
  shows "\<exists>s1 s2 st2. watch_manifests ws cd cv rs s = Ret (s1, list_ex wr_canceled rs) \<and> sys_ok s1 \<and>
    watch_commits cd et rt cv rs (s, st) = Ret ((s2, st2), list_ex wr_canceled rs) \<and> sys_ok s2"
proof -
  have "\<exists>s1. watch_loop (handle_manifest_event ws cd (Some cv)) rs s = Ret (s1, list_ex wr_canceled rs) \<and> sys_ok s1"
    by (rule watch_loop_inv [where P = sys_ok]) (use manifest_event_ok assms in blast)+
  moreover have "\<exists>x. watch_loop (\<lambda>ev (s, st). handle_commit_event cd et rt (Some cv) ev s st) rs (s, st) =
      Ret (x, list_ex wr_canceled rs) \<and> sys_ok (fst x)"
    by (rule watch_loop_inv [where P = "\<lambda>x. sys_ok (fst x)"])
      (use commit_event_ok [of _ cd et rt "Some cv"] assms(1) in fastforce)+
  ultimately show ?thesis
    using assms(2) by (auto simp: watch_manifests_def watch_commits_def)
qed

section \<open>Properties\<close>

text \<open>No shard is lost when nodes come and go.  Let the nodes of a cluster handle their watches, each its own sequence of
  responses, so that the rings end with exactly these nodes as members.  Then no handler has faulted, every shard of an index
  all of them know is loaded on one of them or pending on one of them, and it is loaded on at most as many nodes as it has replicas.\<close>

theorem cluster_covers_shards:
  assumes "ring_ok rg nodes" "\<And>r r' k. nodes r = nodes r' \<Longrightarrow> rg_get rg r k = rg_get rg r' k"
    and "finite N" "N \<noteq> {}" "\<And>n. n \<in> N \<Longrightarrow> member_ok (em n, s n) \<and> em_node_id (em n) = n"
    and "\<And>n. n \<in> N \<Longrightarrow> \<exists>r. em_ring (em n) = Some r \<and> foldl (member_step cd) (nodes r) (handled (rs n)) = N"
    and "\<And>n. n \<in> N \<Longrightarrow> list_ex (changes_ring cd) (handled (rs n)) \<or> placed rg (em n) (s n)"
    and "\<And>n. n \<in> N \<Longrightarrow> sm_load (im_manifests (sy_mgr (s n))) name = Some m"
    and "u \<in> set (unique_shards m)" "0 < meta_replicas (mf_meta m)"
  shows "\<exists>em' s'. (\<forall>n \<in> N. watch_members rg cd et rt ws (st n) (rs n) (em n, s n) =
      Ret ((em' n, s' n), list_ex wr_canceled (rs n)) \<and> member_ok (em' n, s' n)) \<and>
    (\<exists>n \<in> N. engine (s' n) (unique_shard_key u) \<noteq> None \<or> u \<in> pending (s' n)) \<and>
    card {n \<in> N. engine (s' n) (unique_shard_key u) \<noteq> None} \<le> nat (meta_replicas (mf_meta m))"
proof -
  have "\<forall>n. \<exists>x. n \<in> N \<longrightarrow> watch_members rg cd et rt ws (st n) (rs n) (em n, s n) = Ret (x, list_ex wr_canceled (rs n)) \<and>
      member_ok x \<and> (\<exists>r'. em_ring (fst x) = Some r' \<and> nodes r' = N) \<and> em_node_id (fst x) = n \<and>
      im_manifests (sy_mgr (snd x)) = im_manifests (sy_mgr (s n)) \<and> placed rg (fst x) (snd x)"
  proof
    fix n
    show "\<exists>x. n \<in> N \<longrightarrow> watch_members rg cd et rt ws (st n) (rs n) (em n, s n) = Ret (x, list_ex wr_canceled (rs n)) \<and>
      member_ok x \<and> (\<exists>r'. em_ring (fst x) = Some r' \<and> nodes r' = N) \<and> em_node_id (fst x) = n \<and>
      im_manifests (sy_mgr (snd x)) = im_manifests (sy_mgr (s n)) \<and> placed rg (fst x) (snd x)"
    proof (cases "n \<in> N")
      case True
      then obtain r where r: "em_ring (em n) = Some r" "foldl (member_step cd) (nodes r) (handled (rs n)) = N"
        using assms(6) by blast
      have ok: "member_ok (em n, s n)" "em_node_id (em n) = n" using assms(5) [OF True] by simp_all
      from watch_members_ok [OF assms(1) ok(1) r(1), where cd = cd and et = et and rt = rt and ws = ws and st = "st n" and rs = "rs n",
          unfolded r(2) ok(2)] assms(7) [OF True]
      obtain em1 s1 r1 where
        "watch_members rg cd et rt ws (st n) (rs n) (em n, s n) = Ret ((em1, s1), list_ex wr_canceled (rs n))" "member_ok (em1, s1)"
        "em_ring em1 = Some r1" "nodes r1 = N" "em_node_id em1 = n"
        "im_manifests (sy_mgr s1) = im_manifests (sy_mgr (s n))" "placed rg em1 s1"
        by blast
      then show ?thesis by (intro exI [of _ "(em1, s1)"]) simp
    qed simp
  qed
  from choice [OF this] obtain f where f: "\<And>n. n \<in> N \<Longrightarrow>
      watch_members rg cd et rt ws (st n) (rs n) (em n, s n) = Ret (f n, list_ex wr_canceled (rs n)) \<and>
      member_ok (f n) \<and> (\<exists>r'. em_ring (fst (f n)) = Some r' \<and> nodes r' = N) \<and> em_node_id (fst (f n)) = n \<and>
      im_manifests (sy_mgr (snd (f n))) = im_manifests (sy_mgr (s n)) \<and> placed rg (fst (f n)) (snd (f n))" by blast
  have "(\<exists>n \<in> N. engine (snd (f n)) (unique_shard_key u) \<noteq> None \<or> u \<in> pending (snd (f n))) \<and>
    card {n \<in> N. engine (snd (f n)) (unique_shard_key u) \<noteq> None} \<le> nat (meta_replicas (mf_meta m))"
    by (rule placed_cluster [OF assms(1,2,3,4), where em = "\<lambda>n. fst (f n)" and name = name])
      (use f assms(8-10) in auto)
  with f show ?thesis by (intro exI [of _ "\<lambda>n. fst (f n)"] exI [of _ "\<lambda>n. snd (f n)"]) simp
qed

section \<open>Witness\<close>

text \<open>Two nodes; the first is alone until both are told that the second has come.  The ring gives every key to its least member.\<close>

definition ex_least_ring :: "string list ring_ops" where
  "ex_least_ring = \<lparr>rg_new = (\<lambda>ns. ns), rg_add = (\<lambda>r n. n # r), rg_remove = (\<lambda>r n. removeAll n r),
     rg_get = (\<lambda>r k. if set r = {} then None else Some (Min (set r)))\<rparr>"

definition ex_member :: "string \<Rightarrow> string list etcd_manager" where
  "ex_member n = ex_manager\<lparr>em_node_id := n, em_ring := Some [''n1'']\<rparr>"

definition ex_arrival :: "node_meta option watch_response list" where
  "ex_arrival = [\<lparr>wr_canceled = False, wr_events = [ex_event PutEvent True (Some (ex_node ''n2'' Healthy))]\<rparr>]"

lemma ex_least_ring_ok: "ring_ok ex_least_ring set"
  by (auto simp: ring_ok_def ex_least_ring_def split: if_splits intro: Min_in)

theorem cluster_covers_shards_witness:
  "\<forall>(et :: (nat, node_meta option) etcd_ops) rt. \<exists>em' s'.
     (\<forall>n \<in> {''n1'', ''n2''}. watch_members ex_least_ring ex_codec et rt (\<lambda>sh. ex_world ''5'') 0 ex_arrival
        (ex_member n, ex_sys ClusterMode [] []) = Ret ((em' n, s' n), False)) \<and>
     (\<exists>n \<in> {''n1'', ''n2''}. engine (s' n) ''docs:0'' \<noteq> None \<or> ex_shard \<in> pending (s' n))"
proof (intro allI)
  fix et :: "(nat, node_meta option) etcd_ops" and rt
  let ?N = "{''n1'', ''n2''}" and ?s = "ex_sys ClusterMode [] []"
  have det: "rg_get ex_least_ring r k = rg_get ex_least_ring r' k" if "set r = set r'" for r r' k
    using that by (simp only: ex_least_ring_def ring_ops.simps)
  have N: "finite ?N" "?N \<noteq> {}" by simp_all
  have ok: "member_ok (ex_member n, ?s) \<and> em_node_id (ex_member n) = n" for n
    using ex_sys_ok(1) by (simp add: member_ok_def ex_member_def ex_manager_def)
  have h: "handled ex_arrival = [ex_event PutEvent True (Some (ex_node ''n2'' Healthy))]"
    by (simp add: ex_arrival_def)
  have c: "ev_is_create (ex_event PutEvent True v)" for v by (simp add: ev_is_create_def ex_event_def)
  have e: "event_meta ex_codec (ex_event PutEvent True (Some m)) = m" for m
    by (simp add: event_meta_def ex_event_def ex_codec_def)
  have r: "\<exists>r. em_ring (ex_member n) = Some r \<and> foldl (member_step ex_codec) (set r) (handled ex_arrival) = ?N" for n
    using c e by (auto simp: h ex_member_def member_step_def ex_node_def Let_def)
  have ch: "list_ex (changes_ring ex_codec) (handled ex_arrival) \<or> placed ex_least_ring (ex_member n) ?s" for n
    using c by (simp add: h changes_ring_def)
  have u: "ex_shard \<in> set (unique_shards ex_mock_manifest)" "0 < meta_replicas (mf_meta ex_mock_manifest)"
    by (simp add: ex_unique_shards) (simp add: ex_mock_manifest_def)
  have st: "list_ex wr_canceled ex_arrival = False" by (simp add: ex_arrival_def)
  have "\<exists>em' s'. (\<forall>n \<in> ?N. watch_members ex_least_ring ex_codec et rt (\<lambda>sh. ex_world ''5'') 0 ex_arrival (ex_member n, ?s) =
      Ret ((em' n, s' n), list_ex wr_canceled ex_arrival) \<and> member_ok (em' n, s' n)) \<and>
    (\<exists>n \<in> ?N. engine (s' n) (unique_shard_key ex_shard) \<noteq> None \<or> ex_shard \<in> pending (s' n)) \<and>
    card {n \<in> ?N. engine (s' n) (unique_shard_key ex_shard) \<noteq> None} \<le> nat (meta_replicas (mf_meta ex_mock_manifest))"
    by (rule cluster_covers_shards [OF ex_least_ring_ok det N, where em = ex_member and s = "\<lambda>n. ?s"
        and rs = "\<lambda>n. ex_arrival" and st = "\<lambda>n. 0" and cd = ex_codec])
      (use ok r ch ex_sys_manifest u in auto)
  then show "\<exists>em' s'. (\<forall>n \<in> ?N. watch_members ex_least_ring ex_codec et rt (\<lambda>sh. ex_world ''5'') 0 ex_arrival (ex_member n, ?s) =
      Ret ((em' n, s' n), False)) \<and> (\<exists>n \<in> ?N. engine (s' n) ''docs:0'' \<noteq> None \<or> ex_shard \<in> pending (s' n))"
    unfolding ex_shard_key st by blast
qed

end
