(* ===== verification/Lifecycle.thy ===== *)
theory Lifecycle
  imports Manager
begin

text \<open>
  \<open>internal/core/vectory.go\<close> with the settings of \<open>internal/config/cluster_meta.go\<close>: how a node
  starts and stops.  \<open>Start\<close> registers the node, waits for the others, synchronises the ring,
  initialises the index manager and settles the status; \<open>Stop\<close> announces that the node drains and
  unregisters it.  The two listeners (HTTP, gRPC) run beside it and are not modelled; what the
  environment answers is the record \<open>boot\<close>.
\<close>

section \<open>Settings\<close>

record cluster_setting =
  cl_enabled :: bool
  cl_grace_period :: int
  cl_endpoints :: "string list"
  cl_ttl :: int
  cl_lb_mode :: string

record cluster_meta_config =
  cm_cluster_name :: string
  cm_grpc_enabled :: bool
  cm_cluster_mode :: cluster_setting

text \<open>
  \<open>bt_listen\<close> is the listener's address, \<open>bt_grant\<close> and \<open>bt_keep_alive\<close> the answers of the lease
  service, \<open>bt_grace\<close> what happens to the store while the node sleeps through the grace period, and
  \<open>bt_local\<close> the contents of the manifest files of the local directory.
\<close>

record ('e, 'v) boot =
  bt_listen :: "error + string"
  bt_grant :: "error + int"
  bt_keep_alive :: "error option"
  bt_grace :: "'e \<Rightarrow> 'e"
  bt_local :: "error + 'v list"

section \<open>Status changes\<close>

text \<open>
  A change of status with its consumer: \<open>SetStatus\<close> sends the status when it is a new one, and the
  goroutine that \<open>Register\<close> started hands it to \<open>setNodeStatus\<close>; without a cluster the
  message is thrown away.  Here the consumer runs at once.
\<close>

definition change_status ::
    "'v codec \<Rightarrow> ('e, 'v) etcd_ops \<Rightarrow> string \<Rightarrow> node_status \<Rightarrow> sys \<times> 'r etcd_manager option \<times> 'e \<Rightarrow>
     (sys \<times> 'r etcd_manager option \<times> 'e) run" where
  "change_status cd et rt status x =
     (case x of (s, emo, st) \<Rightarrow>
        (case emo of
           None \<Rightarrow> Ret (put_status status s, None, st)
         | Some em \<Rightarrow>
             if get_status (sy_pkg s) = status then Ret (s, Some em, st)
             else run_map (\<lambda>(em1, st1). (put_status status s, Some em1, st1))
               (set_node_status cd et rt status em st)))"

section \<open>Start\<close>

text \<open>\<open>Register\<close>, \<open>ReportLoad\<close>, the grace period and \<open>SyncCluster\<close>.\<close>

definition join_cluster ::
    "'r ring_ops \<Rightarrow> 'v codec \<Rightarrow> ('e, 'v) etcd_ops \<Rightarrow> string \<Rightarrow> cluster_setting \<Rightarrow> string \<Rightarrow> string \<Rightarrow>
     ('e, 'v) boot \<Rightarrow> 'e \<Rightarrow> 'r etcd_manager \<times> 'e \<times> error option" where
  "join_cluster rg cd et rt cl node_id addr bt st =
     (case register cd et rt addr (bt_grant bt) (bt_keep_alive bt) (init_etcd_manager node_id) st of
        (em, st1, Some e) \<Rightarrow> (em, st1, Some e)
      | (em, st1, None) \<Rightarrow>
          (let em1 = fst (report_load (cl_lb_mode cl) em); st2 = bt_grace bt st1
           in case sync_cluster rg cd et rt em1 st2 of (em2, oe) \<Rightarrow> (em2, st2, oe)))"

text \<open>Where \<open>InitManager\<close> finds the manifests.\<close>

definition raw_manifests ::
    "('e, 'v) etcd_ops \<Rightarrow> string \<Rightarrow> bool \<Rightarrow> ('e, 'v) boot \<Rightarrow> 'e \<Rightarrow> error + 'v list" where
  "raw_manifests et rt clustered bt st =
     (if clustered then (case et_get_prefix et (index_manifest_path_prefix rt) st of
          Inl e \<Rightarrow> Inl e | Inr kvs \<Rightarrow> Inr (map snd kvs))
      else bt_local bt)"

definition final_status :: "error option \<Rightarrow> node_status" where
  "final_status oe =
     (case oe of None \<Rightarrow> Healthy | Some e \<Rightarrow> if err_is e ErrPartlySuccess then Unhealthy else Inactive)"

text \<open>
  The part of \<open>Start\<close> that both modes share: status \<open>Init\<close>, the manager, the final status.  The
  returned error is that of \<open>InitManager\<close> unless it is \<open>ErrPartlySuccess\<close>, with which the node runs on.
\<close>

definition start_engine ::
    "'r ring_ops \<Rightarrow> 'v codec \<Rightarrow> ('e, 'v) etcd_ops \<Rightarrow> string \<Rightarrow> (shard \<Rightarrow> world) \<Rightarrow> ('e, 'v) boot \<Rightarrow>
     sys \<times> 'r etcd_manager option \<times> 'e \<Rightarrow> ((sys \<times> 'r etcd_manager option \<times> 'e) \<times> error option) run" where
  "start_engine rg cd et rt ws bt x =
     run_bind (change_status cd et rt Init x) (\<lambda>(s1, emo, st1).
       let raw = raw_manifests et rt (emo \<noteq> None) bt st1;
           emo1 = (case raw of Inl e \<Rightarrow> emo | Inr vs \<Rightarrow> map_option set_rebalance_hook emo);
           cv = map_option (\<lambda>em. cluster_view_of rg cd et rt em st1) emo
       in run_bind (init_manager ws (dec_manifest cd) cv (if emo = None then Single else ClusterMode) raw s1) (\<lambda>(s2, oe).
            run_map (\<lambda>y. (y, if final_status oe = Inactive then oe else None))
              (change_status cd et rt (final_status oe) (s2, emo1, st1))))"

definition start ::
    "'r ring_ops \<Rightarrow> 'v codec \<Rightarrow> ('e, 'v) etcd_ops \<Rightarrow> string \<Rightarrow> (shard \<Rightarrow> world) \<Rightarrow> cluster_meta_config \<Rightarrow> string \<Rightarrow>
     ('e, 'v) boot \<Rightarrow> sys \<Rightarrow> 'e \<Rightarrow> ((sys \<times> 'r etcd_manager option \<times> 'e) \<times> error option) run" where
  "start rg cd et rt ws conf node_id bt s st =
     (case bt_listen bt of
        Inl e \<Rightarrow> Ret ((s, None, st), Some e)
      | Inr addr \<Rightarrow>
          if cl_enabled (cm_cluster_mode conf) then
            (case join_cluster rg cd et rt (cm_cluster_mode conf) node_id addr bt st of
               (em, st1, Some e) \<Rightarrow> Ret ((s, Some em, st1), Some e)
             | (em, st1, None) \<Rightarrow> start_engine rg cd et rt ws bt (s, Some em, st1))
          else start_engine rg cd et rt ws bt (s, None, st))"

section \<open>Stop\<close>

text \<open>
  \<open>Stop\<close> sets the status and then unregisters.  The consumer of the status is another goroutine: it may
  publish before or after the key is deleted, which \<open>late\<close> tells.
\<close>

definition stop ::
    "'v codec \<Rightarrow> ('e, 'v) etcd_ops \<Rightarrow> string \<Rightarrow> bool \<Rightarrow> sys \<times> 'r etcd_manager option \<times> 'e \<Rightarrow>
     (sys \<times> 'r etcd_manager option \<times> 'e) run" where
  "stop cd et rt late x =
     (case x of (s, emo, st) \<Rightarrow>
        (case emo of
           None \<Rightarrow> Ret (s, None, st)
         | Some em \<Rightarrow>
             if late then change_status cd et rt Inactive (s, Some em, unregister et rt em st)
             else run_map (\<lambda>(s1, emo1, st1). (s1, emo1, unregister et rt em st1))
               (change_status cd et rt Inactive (s, Some em, st))))"

section \<open>Lemmas\<close>

lemma status_mark: "ps_status (sy_pkg s) \<noteq> Healthy \<Longrightarrow> sy_pkg (mark_shard_pending sh s) = sy_pkg s"
  by (simp add: mark_shard_pending_def get_status_def)

lemma load_shards_pkg:
  "ps_status (sy_pkg s) \<noteq> Healthy \<Longrightarrow> load_shards ws cv m shs s = Ret (s', t, n) \<Longrightarrow> sy_pkg s' = sy_pkg s"
proof (induction shs arbitrary: s t n)
  case Nil
  then show ?case by simp
next
  case (Cons sh shs)
  show ?case
  proof (cases "sm_load (im_engine_store (sy_mgr s)) (unique_shard_key sh) \<noteq> None \<or>
      (case cv of None \<Rightarrow> False | Some c \<Rightarrow> \<not> cv_need_load c (shard_key sh))")
    case True
    then have "load_shards ws cv m shs s = Ret (s', t, n)" using Cons.prems(2) by (auto split: if_splits)
    with Cons show ?thesis by blast
  next
    case False
    with Cons.prems(2) obtain h r where r: "new_index (ws sh) m sh (sy_heap s) = Ret (h, r)"
      by (auto simp: run_bind_eq_Ret split: if_splits)
    show ?thesis
    proof (cases r)
      case (Inl e)
      let ?s1 = "mark_shard_pending sh (s\<lparr>sy_heap := h\<rparr>)"
      obtain t' n' where "load_shards ws cv m shs ?s1 = Ret (s', t', n')"
        using Cons.prems(2) False r Inl by (auto simp: run_map_eq_Ret)
      moreover have "sy_pkg ?s1 = sy_pkg s" using status_mark [of "s\<lparr>sy_heap := h\<rparr>"] Cons.prems(1) by simp
      ultimately show ?thesis using Cons.IH [of ?s1] Cons.prems(1) by simp
    next
      case (Inr ix)
      let ?s1 = "store_index (unique_shard_key sh) (cluster_callback (im_mode (sy_mgr s)) (meta_name (mf_meta m)) ix) h s"
      obtain t' n' where "load_shards ws cv m shs ?s1 = Ret (s', t', n')"
        using Cons.prems(2) False r Inr by (auto simp: run_map_eq_Ret)
      moreover have "sy_pkg ?s1 = sy_pkg s" by (simp add: store_index_def)
      ultimately show ?thesis using Cons.IH [of ?s1] Cons.prems(1) by simp
    qed
  qed
qed

lemma load_index_pkg:
  "ps_status (sy_pkg s) \<noteq> Healthy \<Longrightarrow> load_index ws cv m s = Ret (s', x) \<Longrightarrow> sy_pkg s' = sy_pkg s"
  by (auto simp: load_index_def store_manifest_def run_bind_eq_Ret run_map_eq_Ret dest!: load_shards_pkg
      split: if_splits option.splits)

lemma load_manifests_pkg:
  "ps_status (sy_pkg s) \<noteq> Healthy \<Longrightarrow> load_manifests ws cv ms s = Ret (s', x) \<Longrightarrow> sy_pkg s' = sy_pkg s"
proof (induction ms arbitrary: s x)
  case Nil
  then show ?case by simp
next
  case (Cons m ms)
  then obtain s1 t n e where 1: "load_index ws cv m s = Ret (s1, t, n, e)"
    by (auto simp: run_bind_eq_Ret)
  from Cons.prems(2) 1 obtain x' where 2: "load_manifests ws cv ms s1 = Ret (s', x')"
    by (auto simp: run_map_eq_Ret split: option.splits)
  from Cons.IH [OF _ 2] load_index_pkg [OF Cons.prems(1) 1] Cons.prems(1) show ?case by simp
qed

lemma init_manager_pkg:
  assumes "ps_status (sy_pkg s) \<noteq> Healthy" "init_manager ws decode cv md raw s = Ret (s', oe)"
  shows "sy_pkg s' = sy_pkg s"
proof (cases raw)
  case (Inl e)
  with assms(2) show ?thesis by (auto simp: init_manager_def)
next
  case (Inr vs)
  with assms(2) obtain x where
    "load_manifests ws cv (List.map_filter decode vs) (s\<lparr>sy_mgr := new_index_manager md\<rparr>) = Ret (s', x)"
    by (auto simp: init_manager_def run_map_eq_Ret)
  from load_manifests_pkg [OF _ this] assms(1) show ?thesis by simp
qed

text \<open>A change of status with its lease: it never faults, and the own entry of the map follows the status.\<close>

definition own_status :: "'r etcd_manager option \<Rightarrow> node_status \<Rightarrow> bool" where
  "own_status emo status \<longleftrightarrow>
     (\<forall>em m. emo = Some em \<longrightarrow> sm_load (em_node_metas em) (em_node_id em) = Some m \<longrightarrow> nm_status m = status)"

lemma change_status_ok:
  assumes "\<And>em. emo = Some em \<Longrightarrow> em_lease em \<noteq> None" "ps_status (sy_pkg s) \<noteq> status"
  obtains emo' st' where "change_status cd et rt status (s, emo, st) = Ret (put_status status s, emo', st')"
    "own_status emo' status" "emo' = None \<longleftrightarrow> emo = None" "\<And>em. emo' = Some em \<Longrightarrow> em_lease em \<noteq> None"
proof (cases emo)
  case None
  then show thesis by (intro that [of None st]) (simp_all add: change_status_def own_status_def)
next
  case (Some em)
  with assms(1) obtain lease where "em_lease em = Some lease" by blast
  show thesis
  proof (cases "sm_load (em_node_metas em) (em_node_id em)")
    case None
    with Some assms show thesis
      by (intro that [of "Some em" st])
        (auto simp: change_status_def get_status_def set_node_status_def get_node_meta_def own_status_def)
  next
    case (Some m)
    with \<open>emo = Some em\<close> \<open>em_lease em = Some lease\<close> assms(2) show thesis
      by (intro that) (auto simp: change_status_def get_status_def set_node_status_def get_node_meta_def own_status_def Let_def)
  qed
qed

lemma final_status_cases: "final_status oe \<in> {Healthy, Unhealthy, Inactive}"
  by (simp add: final_status_def split: option.splits)

lemma start_engine_ok:
  assumes "ch_ok (sy_heap s)" "sy_pkg s = init_pkg" "\<And>em. emo = Some em \<Longrightarrow> em_lease em \<noteq> None"
    and mok: "\<And>st vs v m. raw_manifests et rt (emo \<noteq> None) bt st = Inr vs \<Longrightarrow> v \<in> set vs \<Longrightarrow>
      dec_manifest cd v = Some m \<Longrightarrow> manifest_ok m"
  shows "\<exists>s' emo' st' e. start_engine rg cd et rt ws bt (s, emo, st) = Ret ((s', emo', st'), e) \<and>
    ps_sent (sy_pkg s') = [Init, ps_status (sy_pkg s')] \<and> own_status emo' (ps_status (sy_pkg s')) \<and>
    (ps_status (sy_pkg s') = (if e \<noteq> None then Inactive else if pending s' = {} then Healthy else Unhealthy)) \<and>
    (e = None \<longrightarrow> sys_ok s' \<and> (pending s' \<noteq> {} \<longrightarrow> im_engine_store (sy_mgr s') \<noteq> []))"
proof -
  let ?md = "if emo = None then Single else ClusterMode"
  have "ps_status (sy_pkg s) \<noteq> Init" using assms(2) by (simp add: init_pkg_def)
  from change_status_ok [OF assms(3) this, where cd = cd and et = et and rt = rt and st = st] obtain emo1 st1 where
    1: "change_status cd et rt Init (s, emo, st) = Ret (put_status Init s, emo1, st1)"
      "emo1 = None \<longleftrightarrow> emo = None" "\<And>em. emo1 = Some em \<Longrightarrow> em_lease em \<noteq> None" by blast
  let ?s1 = "put_status Init s" and ?raw = "raw_manifests et rt (emo1 \<noteq> None) bt st1"
    and ?cv = "map_option (\<lambda>em. cluster_view_of rg cd et rt em st1) emo1"
  have p1: "sy_pkg ?s1 = \<lparr>ps_status = Init, ps_sent = [Init]\<rparr>" "ch_ok (sy_heap ?s1)"
    using assms(1,2) by (simp_all add: put_status_def set_status_def init_pkg_def)
  have cv: "?cv \<noteq> None \<or> ?md = Single" using 1(2) by auto
  obtain s2 oe where 2: "init_manager ws (dec_manifest cd) ?cv ?md ?raw ?s1 = Ret (s2, oe)"
    and res: "oe = None \<and> pending s2 = {} \<and> sys_ok s2 \<or>
      oe = Some (Cfg ErrPartlySuccess) \<and> pending s2 \<noteq> {} \<and> im_engine_store (sy_mgr s2) \<noteq> [] \<and> sys_ok s2 \<or>
      (\<exists>e. oe = Some (Cfg e) \<and> e \<noteq> ErrPartlySuccess)"
  proof (cases ?raw)
    case (Inl e)
    then show thesis by (intro that [of _ "Some (Cfg ErrGetManifestsFailed)"]) (simp_all add: init_manager_def)
  next
    case (Inr vs)
    have ok: "manifest_ok m" if "v \<in> set vs" "dec_manifest cd v = Some m" for v m
      using mok [of st1 vs v m] Inr 1(2) that by simp
    from init_manager_ok [OF p1(2) cv, where ws = ws and decode = "dec_manifest cd" and vs = vs] ok obtain s2 oe where
      "init_manager ws (dec_manifest cd) ?cv ?md (Inr vs) ?s1 = Ret (s2, oe)" "sys_ok s2"
      "oe = (if pending s2 = {} then None
          else if im_engine_store (sy_mgr s2) = [] then Some (Cfg ErrNoSuccess) else Some (Cfg ErrPartlySuccess))" by blast
    with Inr show thesis by (intro that [of s2 oe]) (auto split: if_splits)
  qed
  have p2: "sy_pkg s2 = \<lparr>ps_status = Init, ps_sent = [Init]\<rparr>" using init_manager_pkg [OF _ 2] p1(1) by simp
  let ?emo = "case ?raw of Inl e \<Rightarrow> emo1 | Inr vs \<Rightarrow> map_option set_rebalance_hook emo1" and ?fin = "final_status oe"
  have l: "em_lease em \<noteq> None" if "?emo = Some em" for em
    using that 1(3) by (auto simp: set_rebalance_hook_def split: sum.splits)
  have "ps_status (sy_pkg s2) \<noteq> ?fin" using p2 final_status_cases [of oe] by auto
  from change_status_ok [OF l this, where cd = cd and et = et and rt = rt and st = st1] obtain emo3 st3 where
    3: "change_status cd et rt ?fin (s2, ?emo, st1) = Ret (put_status ?fin s2, emo3, st3)" "own_status emo3 ?fin" by blast
  have md: "(if emo1 = None then Single else ClusterMode) = ?md" using 1(2) by simp
  have run: "start_engine rg cd et rt ws bt (s, emo, st) =
      Ret ((put_status ?fin s2, emo3, st3), if ?fin = Inactive then oe else None)"
    by (simp only: start_engine_def Let_def 1(1) run_bind.simps prod.case md 2 3(1) run_map.simps)
  have p3: "sy_pkg (put_status ?fin s2) = \<lparr>ps_status = ?fin, ps_sent = [Init, ?fin]\<rparr>"
    using p2 final_status_cases [of oe] by (auto simp: put_status_def set_status_def)
  have k: "pending (put_status ?fin s2) = pending s2" "sys_ok (put_status ?fin s2) = sys_ok s2"
    "im_engine_store (sy_mgr (put_status ?fin s2)) = im_engine_store (sy_mgr s2)"
    by (simp_all add: put_status_def sys_ok_def)
  let ?s' = "put_status ?fin s2" and ?e = "if ?fin = Inactive then oe else None"
  have st: "ps_status (sy_pkg ?s') = ?fin" "ps_sent (sy_pkg ?s') = [Init, ?fin]" using p3 by simp_all
  have c: "?fin = (if ?e \<noteq> None then Inactive else if pending ?s' = {} then Healthy else Unhealthy)"
    "?e = None \<longrightarrow> sys_ok ?s' \<and> (pending ?s' \<noteq> {} \<longrightarrow> im_engine_store (sy_mgr ?s') \<noteq> [])"
    unfolding k using res by (elim disjE conjE exE; simp add: final_status_def)+
  show ?thesis
    by (rule exI [of _ ?s'], rule exI [of _ emo3], rule exI [of _ st3], rule exI [of _ ?e])
      (use run st c 3(2) in \<open>simp only: simp_thms\<close>)
qed

lemma join_cluster_lease:
  "join_cluster rg cd et rt cl node_id addr bt st = (em, st1, None) \<Longrightarrow> em_lease em \<noteq> None"
  by (auto simp: join_cluster_def register_def sync_cluster_def report_load_def Let_def
      split: prod.splits option.splits sum.splits if_splits)

section \<open>Properties\<close>


text \<open>Draining depends on who is faster.  When the consumer publishes the inactive status before the registration is deleted, a
  stop leaves no registration; when it publishes after, the deleted registration is written again, as inactive, and
  stays until the lease runs out.\<close>

theorem stop_unregisters_or_not:
  assumes "kv_store et contents st_ok" "\<And>k v l st. snd (et_put et k v l st) = None"
    and "\<And>st. contents st (node_meta_path rt (em_node_id em)) \<noteq> None \<Longrightarrow>
      snd (et_delete et (node_meta_path rt (em_node_id em)) st) = None"
    and "em_lease em = Some lease" "sm_load (em_node_metas em) (em_node_id em) = Some m" "ps_status (sy_pkg s) \<noteq> Inactive"
  shows "\<exists>s' em' st'. stop cd et rt late (s, Some em, st) = Ret (s', Some em', st') \<and> ps_status (sy_pkg s') = Inactive \<and>
    contents st' (node_meta_path rt (em_node_id em)) = (if late then Some (enc_meta cd (m\<lparr>nm_status := Inactive\<rparr>)) else None)"
proof -
  let ?k = "node_meta_path rt (em_node_id em)" and ?v = "enc_meta cd (m\<lparr>nm_status := Inactive\<rparr>)"
  let ?em = "em\<lparr>em_node_metas := sm_store (em_node_id em) (m\<lparr>nm_status := Inactive\<rparr>) (em_node_metas em)\<rparr>"
  have ch: "change_status cd et rt Inactive (s, Some em, st0) =
      Ret (put_status Inactive s, Some ?em, fst (et_put et ?k ?v (Some lease) st0))" for st0
    using assms(4,5,6) by (simp add: change_status_def get_status_def set_node_status_def get_node_meta_def Let_def)
  have put: "contents (fst (et_put et ?k ?v (Some lease) st0)) ?k = Some ?v" for st0
    using kv_store.put_ok [OF assms(1), of ?k ?v "Some lease" st0] assms(2) [of ?k ?v "Some lease" st0]
    by (cases "et_put et ?k ?v (Some lease) st0") simp
  have del: "contents (fst (et_delete et ?k st0)) ?k = None" if "contents st0 ?k \<noteq> None" for st0
    using kv_store.delete_ok [OF assms(1), of ?k st0] assms(3) [OF that] by (cases "et_delete et ?k st0") simp
  show ?thesis
    using ch put del by (cases late) (simp_all add: stop_def unregister_def put_status_def)
qed

section \<open>Witnesses\<close>

text \<open>A cluster of one node with one index; a store that answers the registration and the manifest.\<close>

definition ex_boot_codec :: "(node_meta + index_manifest) codec" where
  "ex_boot_codec = \<lparr>enc_meta = Inl, dec_meta = (\<lambda>v. case v of Inl m \<Rightarrow> Some m | Inr m \<Rightarrow> None),
     enc_load = (\<lambda>l. Inl zero_node_meta), dec_load = (\<lambda>v. None),
     enc_revision = (\<lambda>r. Inl zero_node_meta), dec_revision = (\<lambda>v. None),
     dec_manifest = (\<lambda>v. case v of Inl m \<Rightarrow> None | Inr m \<Rightarrow> Some m)\<rparr>"

definition ex_boot_store :: "(nat, node_meta + index_manifest) etcd_ops" where
  "ex_boot_store = \<lparr>et_get = (\<lambda>k e. Inr []),
     et_get_prefix = (\<lambda>p e. if p = node_meta_path_prefix ''/v'' then Inr [(p, Inl (ex_node ''n1'' Start))]
       else Inr [(p, Inr ex_mock_manifest)]),
     et_put = (\<lambda>k v l e. (Suc e, None)), et_delete = (\<lambda>k e. (Suc e, None))\<rparr>"

definition ex_boot :: "(nat, node_meta + index_manifest) boot" where
  "ex_boot = \<lparr>bt_listen = Inr ''10.0.0.1:1'', bt_grant = Inr 7, bt_keep_alive = None, bt_grace = (\<lambda>e. e), bt_local = Inr []\<rparr>"

definition ex_conf :: cluster_meta_config where
  "ex_conf = \<lparr>cm_cluster_name = ''c'', cm_grpc_enabled = True,
     cm_cluster_mode = \<lparr>cl_enabled = True, cl_grace_period = 1, cl_endpoints = [], cl_ttl = 5, cl_lb_mode = ''CPU''\<rparr>\<rparr>"


definition ex_text_codec :: "string codec" where
  "ex_text_codec = \<lparr>enc_meta = (\<lambda>m. status_string (nm_status m)), dec_meta = (\<lambda>v. None),
     enc_load = (\<lambda>l. ''''), dec_load = (\<lambda>v. None), enc_revision = (\<lambda>r. ''''), dec_revision = (\<lambda>v. None),
     dec_manifest = (\<lambda>v. None)\<rparr>"

theorem stop_unregisters_or_not_witness:
  "\<exists>s' em' st'. stop ex_text_codec (mock_etcd prefix_end) ''/v'' True (ex_sys ClusterMode [] [], Some ex_manager, new_mock_kv) =
      Ret (s', Some em', st') \<and> sm_load (mk_data st') (node_meta_path ''/v'' ''n1'') = Some ''inactive''"
proof -
  have 1: "snd (et_put (mock_etcd prefix_end) k v l st) = None" for k v l st by (simp add: mock_etcd_def)
  have 2: "snd (et_delete (mock_etcd prefix_end) (node_meta_path ''/v'' (em_node_id ex_manager)) st) = None"
    if "sm_load (mk_data st) (node_meta_path ''/v'' (em_node_id ex_manager)) \<noteq> None" for st
    using that by (auto simp: mock_etcd_def mock_delete_range_def node_meta_path_def node_meta_path_prefix_def)
  have 3: "em_lease ex_manager = Some 7" "sm_load (em_node_metas ex_manager) (em_node_id ex_manager) = Some (ex_node ''n1'' Healthy)"
    "ps_status (sy_pkg (ex_sys ClusterMode [] [])) \<noteq> Inactive"
    by (simp_all add: ex_manager_def sm_load_def ex_sys_def init_pkg_def)
  have n: "em_node_id ex_manager = ''n1''" by (simp add: ex_manager_def)
  from stop_unregisters_or_not [OF mock_store.kv_store_axioms 1 2 3, where late = True and cd = ex_text_codec
      and st = new_mock_kv]
  show ?thesis by (auto simp: n ex_text_codec_def)
qed

end
