(* ===== verification/Cluster_Runs.thy ===== *)
theory Cluster_Runs
  imports Membership Lifecycle
begin

text \<open>
  The nodes of a cluster from \<open>InitManager\<close> on: each handles, in whatever order they come, the changes of the membership
  (\<open>internal/cluster/node.go\<close>) with the rebalances they cause, the manifest watch, scheduled reloads, commits and searches
  (\<open>internal/engine/manager.go\<close>).  What is proved is where the shards are, whatever is interleaved.
\<close>

section \<open>What one node does\<close>

text \<open>An operation sees the contents of etcd as they are then: the other nodes have written there in between.\<close>

datatype 'v cluster_op = MemberEvent "'v event" | ManagerOp "'v node_op"

fun cluster_step ::
    "'r ring_ops \<Rightarrow> 'v codec \<Rightarrow> ('e, 'v) etcd_ops \<Rightarrow> string \<Rightarrow> (shard \<Rightarrow> world) \<Rightarrow> 'e \<Rightarrow> 'v cluster_op \<Rightarrow>
     'r etcd_manager \<times> sys \<Rightarrow> ('r etcd_manager \<times> sys) run" where
  "cluster_step rg cd et rt ws st (MemberEvent ev) x = membership_event rg cd et rt ws st ev x"
| "cluster_step rg cd et rt ws st (ManagerOp p) (em, s) =
     run_map (\<lambda>(s', st'). (em, s')) (node_step cd et rt ws (cluster_view_of rg cd et rt em st) p (s, st))"

fun cluster_run ::
    "'r ring_ops \<Rightarrow> 'v codec \<Rightarrow> ('e, 'v) etcd_ops \<Rightarrow> string \<Rightarrow> (shard \<Rightarrow> world) \<Rightarrow> ('e \<times> 'v cluster_op) list \<Rightarrow>
     'r etcd_manager \<times> sys \<Rightarrow> ('r etcd_manager \<times> sys) run" where
  "cluster_run rg cd et rt ws [] x = Ret x"
| "cluster_run rg cd et rt ws ((st, p) # ps) x =
     run_bind (cluster_step rg cd et rt ws st p x) (cluster_run rg cd et rt ws ps)"

fun op_members :: "'v cluster_op \<Rightarrow> 'v event list" where
  "op_members (MemberEvent ev) = [ev]"
| "op_members (ManagerOp p) = []"

definition member_events :: "('e \<times> 'v cluster_op) list \<Rightarrow> 'v event list" where
  "member_events ps = concat (map (\<lambda>(st, p). op_members p) ps)"

lemma member_events_simps [simp]:
  "member_events [] = []" "member_events ((st, p) # ps) = op_members p @ member_events ps"
  by (simp_all add: member_events_def)

text \<open>Manifests are never modified: all that are created under a name are that of a catalogue, and sound.\<close>

type_synonym catalogue = "string \<Rightarrow> index_manifest option"

fun op_in :: "'v codec \<Rightarrow> catalogue \<Rightarrow> 'v cluster_op \<Rightarrow> bool" where
  "op_in cd cat (ManagerOp (ManifestEvent ev)) \<longleftrightarrow> (ev_is_create ev \<longrightarrow>
     (case dec_manifest cd (ev_value ev) of None \<Rightarrow> False | Some m \<Rightarrow> manifest_ok m \<and> cat (meta_name (mf_meta m)) = Some m))"
| "op_in cd cat p \<longleftrightarrow> True"

fun creates :: "'v codec \<Rightarrow> string \<Rightarrow> 'v cluster_op \<Rightarrow> bool" where
  "creates cd name (ManagerOp (ManifestEvent ev)) \<longleftrightarrow> ev_is_create ev \<and>
     (case dec_manifest cd (ev_value ev) of None \<Rightarrow> False | Some m \<Rightarrow> meta_name (mf_meta m) = name)"
| "creates cd name p \<longleftrightarrow> False"

text \<open>A deletion whose value does not decode, as etcd sends it, deletes the index with the empty name.\<close>

fun deletes :: "'v codec \<Rightarrow> string \<Rightarrow> 'v cluster_op \<Rightarrow> bool" where
  "deletes cd name (ManagerOp (ManifestEvent ev)) \<longleftrightarrow> \<not> ev_is_create ev \<and> ev_type ev = DeleteEvent \<and>
     (case dec_manifest cd (ev_value ev) of None \<Rightarrow> '''' | Some m \<Rightarrow> meta_name (mf_meta m)) = name"
| "deletes cd name p \<longleftrightarrow> False"

section \<open>Where the shards of a node are\<close>

text \<open>
  \<open>located\<close> is \<open>placed\<close> but for one thing: a load marks the replica it tried as pending, a rebalance the shard without its replica.
\<close>

definition pending_key :: "sys \<Rightarrow> string \<Rightarrow> bool" where
  "pending_key s k \<longleftrightarrow> (\<exists>sh \<in> pending s. unique_shard_key sh = k)"

definition located :: "'r ring_ops \<Rightarrow> 'r etcd_manager \<Rightarrow> sys \<Rightarrow> bool" where
  "located rg em s \<longleftrightarrow>
     (\<forall>name m u. sm_load (im_manifests (sy_mgr s)) name = Some m \<longrightarrow> u \<in> set (unique_shards m) \<longrightarrow>
        (engine s (unique_shard_key u) \<noteq> None \<longrightarrow> owns_shard rg em m u) \<and>
        (owns_shard rg em m u \<longrightarrow> engine s (unique_shard_key u) \<noteq> None \<or> pending_key s (unique_shard_key u)))"

text \<open>Every loaded shard belongs to a known index.\<close>

definition homed :: "sys \<Rightarrow> bool" where
  "homed s \<longleftrightarrow> (\<forall>k. engine s k \<noteq> None \<longrightarrow>
     (\<exists>name m u. sm_load (im_manifests (sy_mgr s)) name = Some m \<and> u \<in> set (unique_shards m) \<and> k = unique_shard_key u))"

definition catalogued :: "catalogue \<Rightarrow> sys \<Rightarrow> bool" where
  "catalogued cat s \<longleftrightarrow> (\<forall>name m. sm_load (im_manifests (sy_mgr s)) name = Some m \<longrightarrow> cat name = Some m)"

definition manager_inv :: "catalogue \<Rightarrow> sys \<Rightarrow> bool" where
  "manager_inv cat s \<longleftrightarrow> sys_ok s \<and> im_mode (sy_mgr s) = ClusterMode \<and> homed s \<and> catalogued cat s"

lemma placed_located: "placed rg em s \<Longrightarrow> located rg em s"
  unfolding placed_def located_def pending_key_def by blast

lemma located_cong:
  assumes "em_ring em' = em_ring em" "em_node_id em' = em_node_id em"
  shows "located rg em' s = located rg em s"
proof -
  have "need_load rg em' k = need_load rg em k" for k using assms by (simp only: need_load_def)
  then show ?thesis by (simp only: located_def owns_shard_def)
qed

text \<open>Operations that neither load nor unload anything.\<close>

definition same_places :: "sys \<Rightarrow> sys \<Rightarrow> bool" where
  "same_places s s' \<longleftrightarrow> (\<forall>k. engine s' k = None \<longleftrightarrow> engine s k = None) \<and> im_pending (sy_mgr s') = im_pending (sy_mgr s) \<and>
     im_manifests (sy_mgr s') = im_manifests (sy_mgr s) \<and> im_mode (sy_mgr s') = im_mode (sy_mgr s)"

lemma same_places_rel:
  shows same_places_refl [simp]: "same_places s s"
    and same_places_trans [trans]: "same_places s s1 \<Longrightarrow> same_places s1 s2 \<Longrightarrow> same_places s s2"
  by (simp_all add: same_places_def)

lemma same_places_keep:
  assumes "same_places s s'"
  shows "located rg em s' = located rg em s" "manager_inv cat s \<Longrightarrow> sys_ok s' \<Longrightarrow> manager_inv cat s'"
  using assms by (simp_all add: same_places_def located_def manager_inv_def homed_def catalogued_def pending_key_def)

lemma same_places_store: "engine s k \<noteq> None \<Longrightarrow> same_places s (store_shard k hf s)"
  by (simp add: same_places_def store_shard_def store_index_def)

lemma commit_shard_places: "commit_shard rv u s = Ret s' \<Longrightarrow> same_places s s'"
  by (auto simp: commit_shard_def run_map_eq_Ret same_places_def store_index_def split: option.splits index.splits if_splits)

lemma commit_shards_places: "run_fold (commit_shard rv) us s = Ret s' \<Longrightarrow> same_places s s'"
proof (induction us arbitrary: s)
  case (Cons u us)
  then obtain s1 where "commit_shard rv u s = Ret s1" "run_fold (commit_shard rv) us s1 = Ret s'"
    by (auto simp: run_bind_eq_Ret)
  with Cons.IH commit_shard_places same_places_trans show ?case by blast
qed simp

lemma commit_event_places: "handle_commit_event cd et rt cv ev s st = Ret (s', st') \<Longrightarrow> same_places s s'"
  by (auto simp: handle_commit_event_def commit_index_def Let_def run_map_eq_Ret run_bind_eq_Ret
      dest: commit_shards_places split: if_splits option.splits)

lemma fire_reload_places:
  assumes "fire_reload cd et rt cv w w' key s st = Ret (s', st', e)"
  shows "same_places s s'"
proof (cases "\<exists>fx. engine s key = Some (FaissIx fx)")
  case False
  with assms show ?thesis by (auto simp: fire_reload_def split: option.splits index.splits)
next
  case True
  then obtain fx where fx: "engine s key = Some (FaissIx fx)" by blast
  have "\<exists>hf. s' = store_shard key hf s"
  proof (cases "fx_reload_callback fx")
    case ReloadSelf
    with assms fx show ?thesis by (auto simp: fire_reload_def run_map_eq_Ret)
  next
    case (StageAndSignal name)
    with assms fx obtain h fx' r where "stage_reload w w' (sy_heap s) fx = Ret (h, fx', r)"
      by (auto simp: fire_reload_def run_bind_eq_Ret)
    with assms fx StageAndSignal show ?thesis by (cases r) (auto simp: fire_reload_def Let_def run_map_eq_Ret)
  qed
  with same_places_store [of s key] fx show ?thesis by auto
qed


section \<open>Loading and deleting\<close>

text \<open>A node owns a shard when it wants one of its replicas, which are the shards of the manifest with the same unique key.\<close>

lemma owns_wanted:
  assumes "generate_shards m = Ret shs" "manifest_ok m" "u \<in> set (unique_shards m)"
  shows "owns_shard rg em m u \<longleftrightarrow>
    (\<exists>sh \<in> set shs. unique_shard_key sh = unique_shard_key u \<and> wanted (Some (cluster_view_of rg cd et rt em st)) sh)"
proof -
  note u = generate_unique_shards_Ret [OF generate_unique_shards_eq [OF assms(2)], of u]
  have w: "wanted (Some (cluster_view_of rg cd et rt em st)) sh \<longleftrightarrow> need_load rg em (shard_key sh) = Ret True" for sh
    by (simp add: wanted_def cluster_view_of_def)
  have same: "sh = u\<lparr>sh_replica_id := sh_replica_id sh\<rparr>" if "unique_shard_key sh = unique_shard_key u" for sh
    using that by (cases sh; cases u) (simp add: unique_shard_key_eq)
  have key: "unique_shard_key (u\<lparr>sh_replica_id := i\<rparr>) = unique_shard_key u" for i by (simp add: unique_shard_key_eq)
  have mem: "u\<lparr>sh_replica_id := i\<rparr> \<in> set shs \<longleftrightarrow> i \<in> {0..<meta_replicas (mf_meta m)}" for i
    using generate_shards_Ret [OF assms(1), of "u\<lparr>sh_replica_id := i\<rparr>"] u assms(3) by auto
  show ?thesis
  proof
    assume "owns_shard rg em m u"
    then show "\<exists>sh \<in> set shs. unique_shard_key sh = unique_shard_key u \<and> wanted (Some (cluster_view_of rg cd et rt em st)) sh"
      unfolding owns_shard_def w using mem key by metis
  next
    assume "\<exists>sh \<in> set shs. unique_shard_key sh = unique_shard_key u \<and> wanted (Some (cluster_view_of rg cd et rt em st)) sh"
    then obtain sh where sh: "sh \<in> set shs" "unique_shard_key sh = unique_shard_key u" "need_load rg em (shard_key sh) = Ret True"
      unfolding w by blast
    then show "owns_shard rg em m u" using same [OF sh(2)] mem [of "sh_replica_id sh"] unfolding owns_shard_def by metis
  qed
qed

lemma shard_home:
  assumes "generate_shards m = Ret shs" "manifest_ok m" "sh \<in> set shs"
  shows "sh\<lparr>sh_replica_id := 0\<rparr> \<in> set (unique_shards m)" "unique_shard_key (sh\<lparr>sh_replica_id := 0\<rparr>) = unique_shard_key sh"
proof -
  show "sh\<lparr>sh_replica_id := 0\<rparr> \<in> set (unique_shards m)"
    using generate_shards_Ret [OF assms(1)] generate_unique_shards_Ret [OF generate_unique_shards_eq [OF assms(2)]] assms(3) by simp
  show "unique_shard_key (sh\<lparr>sh_replica_id := 0\<rparr>) = unique_shard_key sh" by (simp add: unique_shard_key_eq)
qed

text \<open>A key leads back to its manifest.\<close>

lemma key_manifest:
  assumes "sys_ok s" "sm_load (im_manifests (sy_mgr s)) name = Some m" "u \<in> set (unique_shards m)"
    and "unique_shard_key u = unique_shard_key v"
  shows "sh_index_name v = name" "meta_name (mf_meta m) = name" "manifest_ok m"
proof -
  show m: "meta_name (mf_meta m) = name" "manifest_ok m" using assms(1,2) by (auto simp: sys_ok_def manifests_ok_def)
  show "sh_index_name v = name" using unique_shards_name [OF m(2) assms(3)] m(1) assms(4) by (simp add: unique_shard_key_eq)
qed

lemma load_index_located:
  assumes "manager_inv cat s" "manifest_ok m" "cat (meta_name (mf_meta m)) = Some m"
  shows "\<exists>s' t n. load_index ws (Some (cluster_view_of rg cd et rt em st)) m s = Ret (s', t, n, None) \<and> manager_inv cat s' \<and>
    (located rg em s \<longrightarrow> located rg em s') \<and>
    im_manifests (sy_mgr s') = sm_store (meta_name (mf_meta m)) m (im_manifests (sy_mgr s))"
proof -
  let ?cv = "Some (cluster_view_of rg cd et rt em st)" and ?name = "meta_name (mf_meta m)"
  have inv: "sys_ok s" "im_mode (sy_mgr s) = ClusterMode" "homed s" "catalogued cat s"
    using assms(1) by (simp_all add: manager_inv_def)
  obtain shs where shs: "generate_shards m = Ret shs" using generate_Ret [OF assms(2)] by blast
  from load_index_ok [OF inv(1) assms(2) shs, of ?cv ws] inv(2) obtain s1 t n where
    l: "load_index ws ?cv m s = Ret (store_manifest m s1, t, n, None)" "loaded_from ?cv shs s s1 t n"
      "sys_ok (store_manifest m s1)" by auto
  let ?s = "store_manifest m s1"
  have s1: "im_manifests (sy_mgr s1) = im_manifests (sy_mgr s)" "im_mode (sy_mgr s1) = im_mode (sy_mgr s)" "pending s \<subseteq> pending s1"
    using l(2) by (simp_all add: loaded_from_def)
  have old: "engine s1 k = engine s k" if "engine s k \<noteq> None" for k using l(2) that unfolding loaded_from_def by blast
  have new: "\<exists>sh \<in> set shs. wanted ?cv sh \<and> k = unique_shard_key sh" if "engine s k = None" "engine s1 k \<noteq> None" for k
    using l(2) that unfolding loaded_from_def by blast
  have every: "engine s1 (unique_shard_key sh) \<noteq> None \<or> sh \<in> pending s1" if "sh \<in> set shs" "wanted ?cv sh" for sh
    using l(2) that unfolding loaded_from_def by blast
  have mf: "sm_load (im_manifests (sy_mgr ?s)) name = (if name = ?name then Some m else sm_load (im_manifests (sy_mgr s)) name)" for name
    using s1 by simp
  have known: "sm_load (im_manifests (sy_mgr s)) ?name = Some m'' \<Longrightarrow> m'' = m" for m''
    using inv(4) assms(3) by (auto simp: catalogued_def)
  have home: "\<exists>name m' u. sm_load (im_manifests (sy_mgr ?s)) name = Some m' \<and> u \<in> set (unique_shards m') \<and> k = unique_shard_key u"
    if "engine s1 k \<noteq> None" for k
  proof (cases "engine s k")
    case None
    from new [OF None that] obtain sh where "sh \<in> set shs" "k = unique_shard_key sh" by blast
    with shard_home [OF shs assms(2), of sh] mf show ?thesis by (metis (full_types))
  next
    case (Some ix)
    with inv(3) obtain name m' u where "sm_load (im_manifests (sy_mgr s)) name = Some m'" "u \<in> set (unique_shards m')" "k = unique_shard_key u"
      unfolding homed_def by blast
    with mf [of name] known show ?thesis by (cases "name = ?name") auto
  qed
  have inv': "manager_inv cat ?s"
    using l(3) s1 inv(2,4) assms(3) home by (auto simp: manager_inv_def homed_def catalogued_def)
  have "located rg em ?s" if loc: "located rg em s"
    unfolding located_def
  proof (intro allI impI)
    fix name m' u
    assume a: "sm_load (im_manifests (sy_mgr ?s)) name = Some m'" "u \<in> set (unique_shards m')"
    let ?k = "unique_shard_key u"
    have pend: "pending_key s ?k \<Longrightarrow> pending_key ?s ?k" using s1 by (auto simp: pending_key_def)
    have locd: "(engine s ?k \<noteq> None \<longrightarrow> owns_shard rg em m' u) \<and> (owns_shard rg em m' u \<longrightarrow> engine s ?k \<noteq> None \<or> pending_key s ?k)"
      if "sm_load (im_manifests (sy_mgr s)) name = Some m'"
      using loc that a(2) unfolding located_def by blast
    have goal: "(engine s1 ?k \<noteq> None \<longrightarrow> owns_shard rg em m' u) \<and> (owns_shard rg em m' u \<longrightarrow> engine s1 ?k \<noteq> None \<or> pending_key ?s ?k)"
    proof (cases "name = ?name")
      case False
      then have m': "sm_load (im_manifests (sy_mgr s)) name = Some m'" using a(1) s1(1) by simp
      have "engine s1 ?k = engine s ?k"
      proof (cases "engine s ?k = None \<and> engine s1 ?k \<noteq> None")
        case True
        with new obtain sh where sh: "sh \<in> set shs" "?k = unique_shard_key sh" by blast
        from key_manifest(1) [OF inv(1) m' a(2) sh(2)] generate_shards_Ret [OF shs] sh(1) False show ?thesis by simp
      qed (use old [of ?k] in argo)
      with locd [OF m'] pend show ?thesis by auto
    next
      case True
      then have m': "m' = m" using a(1) mf by simp
      note own = owns_wanted [OF shs assms(2) a(2) [unfolded m'], of rg em cd et rt st]
      have "owns_shard rg em m u" if e: "engine s1 ?k \<noteq> None"
      proof (cases "engine s ?k")
        case None
        with new [OF None e] own show ?thesis by metis
      next
        case (Some ix)
        with inv(3) obtain name0 m0 u0 where h: "sm_load (im_manifests (sy_mgr s)) name0 = Some m0" "u0 \<in> set (unique_shards m0)" "?k = unique_shard_key u0"
          unfolding homed_def by blast
        from key_manifest(1) [OF inv(1) h(1,2)] h(3) have "sh_index_name u = name0" by metis
        with unique_shards_name [OF assms(2)] a(2) m' have "name0 = ?name" by simp
        with known h(1) have "sm_load (im_manifests (sy_mgr s)) name = Some m'" using True m' by simp
        with locd Some m' show ?thesis by simp
      qed
      moreover have "engine s1 ?k \<noteq> None \<or> pending_key ?s ?k" if "owns_shard rg em m u"
      proof -
        from that own obtain sh where sh: "sh \<in> set shs" "unique_shard_key sh = ?k" "wanted ?cv sh" by blast
        with every [OF sh(1,3)] show ?thesis by (auto simp: pending_key_def)
      qed
      ultimately show ?thesis using m' by simp
    qed
    then show "(engine ?s ?k \<noteq> None \<longrightarrow> owns_shard rg em m' u) \<and> (owns_shard rg em m' u \<longrightarrow> engine ?s ?k \<noteq> None \<or> pending_key ?s ?k)"
      by simp
  qed
  moreover have "im_manifests (sy_mgr ?s) = sm_store ?name m (im_manifests (sy_mgr s))" using s1 by (simp add: store_manifest_def)
  ultimately show ?thesis using l(1) inv' by blast
qed


text \<open>A deletion leaves the other indexes where they are.\<close>

lemma delete_shards_frame:
  "delete_shards shs s = Ret (s', n) \<Longrightarrow> im_manifests (sy_mgr s') = im_manifests (sy_mgr s) \<and>
     im_pending (sy_mgr s') = im_pending (sy_mgr s) \<and> im_mode (sy_mgr s') = im_mode (sy_mgr s)"
proof (induction shs arbitrary: s n)
  case (Cons sh shs)
  show ?case
  proof (cases "engine s (unique_shard_key sh)")
    case None
    with Cons.prems have "delete_shards shs s = Ret (s', n)" by simp
    then show ?thesis by (rule Cons.IH)
  next
    case (Some ix)
    with Cons.prems obtain h n1 where "delete_shards shs (remove_index (unique_shard_key sh) h s) = Ret (s', n1)"
      by (auto simp: run_bind_eq_Ret run_map_eq_Ret)
    from Cons.IH [OF this] show ?thesis by simp
  qed
qed simp

lemma delete_index_frame:
  "delete_index name s = Ret (s', n) \<Longrightarrow> im_manifests (sy_mgr s') =
     (if sm_load (im_manifests (sy_mgr s)) name = None then im_manifests (sy_mgr s) else sm_delete name (im_manifests (sy_mgr s))) \<and>
     im_pending (sy_mgr s') = im_pending (sy_mgr s) \<and> im_mode (sy_mgr s') = im_mode (sy_mgr s)"
  by (auto simp: delete_index_def Let_def run_bind_eq_Ret dest!: delete_shards_frame split: option.splits)

lemma delete_index_located:
  assumes "manager_inv cat s"
  shows "\<exists>s' n. delete_index name s = Ret (s', n) \<and> manager_inv cat s' \<and> (located rg em s \<longrightarrow> located rg em s') \<and>
    (\<forall>name'. sm_load (im_manifests (sy_mgr s')) name' = (if name' = name then None else sm_load (im_manifests (sy_mgr s)) name'))"
proof (cases "sm_load (im_manifests (sy_mgr s)) name")
  case None
  with assms show ?thesis by (auto simp: delete_index_def)
next
  case (Some m)
  have ok: "sys_ok s" using assms by (simp add: manager_inv_def)
  from delete_index_ok [OF ok Some] obtain s' n where d: "delete_index name s = Ret (s', n)" "sys_ok s'"
    "\<And>k. engine s' k = (if k \<in> unique_shard_key ` set (unique_shards m) then None else engine s k)" by blast
  note f = delete_index_frame [OF d(1)]
  have mf: "sm_load (im_manifests (sy_mgr s')) name' = (if name' = name then None else sm_load (im_manifests (sy_mgr s)) name')" for name'
    using f Some by simp
  have other: "engine s' (unique_shard_key u) = engine s (unique_shard_key u)"
    if "sm_load (im_manifests (sy_mgr s)) name' = Some m'" "u \<in> set (unique_shards m')" "name' \<noteq> name" for name' m' u
  proof -
    have "unique_shard_key u \<notin> unique_shard_key ` set (unique_shards m)"
    proof
      assume "unique_shard_key u \<in> unique_shard_key ` set (unique_shards m)"
      then obtain v where v: "v \<in> set (unique_shards m)" "unique_shard_key u = unique_shard_key v" by blast
      from key_manifest(1) [OF ok that(1,2) v(2)] key_manifest(1) [OF ok Some v(1) refl] that(3) show False by simp
    qed
    with d(3) show ?thesis by simp
  qed
  have "homed s'"
    unfolding homed_def
  proof (intro allI impI)
    fix k assume k: "engine s' k \<noteq> None"
    then have "engine s k \<noteq> None" "k \<notin> unique_shard_key ` set (unique_shards m)" using d(3) [of k] by (auto split: if_splits)
    with assms obtain name' m' u where h: "sm_load (im_manifests (sy_mgr s)) name' = Some m'" "u \<in> set (unique_shards m')" "k = unique_shard_key u"
      unfolding manager_inv_def homed_def by blast
    with \<open>k \<notin> _\<close> Some have "name' \<noteq> name" by auto
    with h mf show "\<exists>name m u. sm_load (im_manifests (sy_mgr s')) name = Some m \<and> u \<in> set (unique_shards m) \<and> k = unique_shard_key u"
      by (intro exI [of _ name'] exI [of _ m'] exI [of _ u]) simp
  qed
  then have "manager_inv cat s'"
    using assms d(2) f mf by (auto simp: manager_inv_def catalogued_def split: if_splits)
  moreover have "pending_key s' k = pending_key s k" for k using f by (simp add: pending_key_def)
  then have "located rg em s \<longrightarrow> located rg em s'"
    using other mf unfolding located_def by (metis (full_types) option.distinct(1))
  ultimately show ?thesis using d(1) mf by blast
qed

section \<open>One operation\<close>

lemma rebalance_located:
  assumes "manager_inv cat s"
  shows "\<exists>s'. rebalance ws (cluster_view_of rg cd et rt em st) s = Ret s' \<and> manager_inv cat s' \<and> located rg em s' \<and>
    im_manifests (sy_mgr s') = im_manifests (sy_mgr s)"
proof -
  let ?cv = "cluster_view_of rg cd et rt em st"
  have ok: "sys_ok s" using assms by (simp add: manager_inv_def)
  from rebalance_ok [OF ok, of ws ?cv] obtain s' where s': "rebalance ws ?cv s = Ret s'" "sys_ok s'"
    "im_manifests (sy_mgr s') = im_manifests (sy_mgr s)" "im_mode (sy_mgr s') = im_mode (sy_mgr s)"
    "\<forall>name m u. sm_load (im_manifests (sy_mgr s)) name = Some m \<longrightarrow> u \<in> set (unique_shards m) \<longrightarrow> settled ?cv m u s'"
    "\<forall>k. (\<forall>name m. sm_load (im_manifests (sy_mgr s)) name = Some m \<longrightarrow>
             k \<notin> unique_shard_key ` set (unique_shards m)) \<longrightarrow> engine s' k = engine s k" by blast
  have "placed rg em s'"
    unfolding placed_settled [where cd = cd and et = et and rt = rt and st = st] s'(3) by (rule s'(5))
  moreover have "homed s'"
    unfolding homed_def s'(3)
  proof (intro allI impI, rule ccontr)
    fix k assume k: "engine s' k \<noteq> None"
      and no: "\<nexists>name m u. sm_load (im_manifests (sy_mgr s)) name = Some m \<and> u \<in> set (unique_shards m) \<and> k = unique_shard_key u"
    from no have "engine s' k = engine s k" using s'(6) by blast
    then have "engine s k \<noteq> None" using k by simp
    with no assms show False unfolding manager_inv_def homed_def by blast
  qed
  ultimately show ?thesis
    using s' assms placed_located by (auto simp: manager_inv_def catalogued_def)
qed

text \<open>What an operation of a node with a ring, the hook and a lease does.\<close>

definition cluster_inv :: "catalogue \<Rightarrow> 'r etcd_manager \<times> sys \<Rightarrow> bool" where
  "cluster_inv cat x \<longleftrightarrow> manager_inv cat (snd x) \<and> em_hook (fst x) \<and> em_lease (fst x) \<noteq> None"

definition knows :: "string \<Rightarrow> sys \<Rightarrow> bool" where
  "knows name s \<longleftrightarrow> sm_load (im_manifests (sy_mgr s)) name \<noteq> None"

lemma manifest_event_located:
  assumes "manager_inv cat s" "op_in cd cat (ManagerOp (ManifestEvent ev))"
  shows "\<exists>s'. handle_manifest_event ws cd (Some (cluster_view_of rg cd et rt em st)) ev s = Ret s' \<and> manager_inv cat s' \<and>
    (located rg em s \<longrightarrow> located rg em s') \<and>
    (\<forall>name. (knows name s \<or> creates cd name (ManagerOp (ManifestEvent ev))) \<and> \<not> deletes cd name (ManagerOp (ManifestEvent ev)) \<longrightarrow> knows name s')"
proof (cases "ev_is_create ev")
  case True
  with assms(2) obtain m where m: "dec_manifest cd (ev_value ev) = Some m" "manifest_ok m" "cat (meta_name (mf_meta m)) = Some m"
    by (auto split: option.splits)
  from load_index_located [OF assms(1) m(2,3), where ws = ws and rg = rg and cd = cd and et = et and rt = rt and em = em and st = st]
  obtain s' t n where l: "load_index ws (Some (cluster_view_of rg cd et rt em st)) m s = Ret (s', t, n, None)" "manager_inv cat s'"
    "located rg em s \<longrightarrow> located rg em s'" "im_manifests (sy_mgr s') = sm_store (meta_name (mf_meta m)) m (im_manifests (sy_mgr s))"
    by blast
  then have "handle_manifest_event ws cd (Some (cluster_view_of rg cd et rt em st)) ev s = Ret s'"
    using True m(1) by (simp add: handle_manifest_event_def manifest_validate_def)
  with l m(1) True show ?thesis by (auto simp: knows_def)
next
  case False
  define name where "name = meta_name (mf_meta (case dec_manifest cd (ev_value ev) of Some m \<Rightarrow> m | None \<Rightarrow> zero_manifest))"
  have del: "deletes cd name' (ManagerOp (ManifestEvent ev)) \<longleftrightarrow> ev_type ev = DeleteEvent \<and> name' = name" for name'
    using False by (auto simp: name_def zero_manifest_def split: option.splits)
  from delete_index_located [OF assms(1), of name rg em] obtain s' n where
    "delete_index name s = Ret (s', n)" "manager_inv cat s'" "located rg em s \<longrightarrow> located rg em s'"
    "\<forall>name'. sm_load (im_manifests (sy_mgr s')) name' = (if name' = name then None else sm_load (im_manifests (sy_mgr s)) name')"
    by blast
  with False assms(1) del show ?thesis
    by (auto simp: handle_manifest_event_def manifest_validate_def Let_def name_def [symmetric] knows_def)
qed


lemma cluster_step_ok:
  assumes "ring_ok rg nodes" "cluster_inv cat (em, s)" "em_ring em = Some r" "op_in cd cat p"
  shows "\<exists>em' s' r'. cluster_step rg cd et rt ws st p (em, s) = Ret (em', s') \<and> cluster_inv cat (em', s') \<and>
    em_ring em' = Some r' \<and> nodes r' = foldl (member_step cd) (nodes r) (op_members p) \<and> em_node_id em' = em_node_id em \<and>
    (located rg em s \<longrightarrow> located rg em' s') \<and> (\<forall>name. (knows name s \<or> creates cd name p) \<and> \<not> deletes cd name p \<longrightarrow> knows name s')"
proof -
  let ?cv = "cluster_view_of rg cd et rt em st"
  have inv: "manager_inv cat s" "sys_ok s" "em_hook em" using assms(2) by (simp_all add: cluster_inv_def manager_inv_def)
  obtain lease where lease: "em_lease em = Some lease" "cv_lease ?cv = Some lease"
    using assms(2) by (auto simp: cluster_inv_def cluster_view_of_def)
  have manager: ?thesis if "p = ManagerOp q" "node_step cd et rt ws ?cv q (s, st) = Ret (s', st')" "manager_inv cat s'"
      "located rg em s \<longrightarrow> located rg em s'" "\<forall>name. (knows name s \<or> creates cd name p) \<and> \<not> deletes cd name p \<longrightarrow> knows name s'"
    for q s' st'
    using that assms(3) inv(3) lease by (intro exI [of _ em] exI [of _ s'] exI [of _ r]) (simp add: cluster_inv_def)
  have steady: ?thesis if "p = ManagerOp q" "node_step cd et rt ws ?cv q (s, st) = Ret (s', st')" "sys_ok s'" "same_places s s'"
      "\<And>name. \<not> creates cd name p" for q s' st'
    using that same_places_keep [OF that(4)] inv(1) by (intro manager [OF that(1,2)]) (auto simp: same_places_def knows_def)
  show ?thesis
  proof (cases p)
    case (MemberEvent ev)
    from handle_node_event_ring [OF assms(1,3), of cd ev] obtain em' r' b where
      1: "handle_node_event rg cd ev em = Ret (em', b)" "em_ring em' = Some r'" "nodes r' = member_step cd (nodes r) ev"
        "em_node_id em' = em_node_id em" "em_lease em' = em_lease em" "em_hook em' = em_hook em" by blast
    show ?thesis
    proof (cases b)
      case False
      then have "em_ring em' = em_ring em" using handle_node_event_hook [OF 1(1)] inv(3) by auto
      from located_cong [OF this 1(4), of rg s] 1 False MemberEvent assms(2) show ?thesis
        by (simp add: membership_event_def cluster_inv_def)
    next
      case True
      from rebalance_located [OF inv(1), of ws rg cd et rt em' st] obtain s' where
        "rebalance ws (cluster_view_of rg cd et rt em' st) s = Ret s'" "manager_inv cat s'" "located rg em' s'"
        "im_manifests (sy_mgr s') = im_manifests (sy_mgr s)" by blast
      with 1 True MemberEvent inv(3) lease show ?thesis by (simp add: membership_event_def cluster_inv_def knows_def)
    qed
  next
    case (ManagerOp q)
    show ?thesis
    proof (cases q)
      case (ManifestEvent ev)
      from manifest_event_located [OF inv(1), of cd ev] assms(4) ManagerOp ManifestEvent obtain s' where
        "handle_manifest_event ws cd (Some ?cv) ev s = Ret s'" "manager_inv cat s'" "located rg em s \<longrightarrow> located rg em s'"
        "\<forall>name. (knows name s \<or> creates cd name p) \<and> \<not> deletes cd name p \<longrightarrow> knows name s'" by metis
      then show ?thesis using ManagerOp ManifestEvent by (intro manager [of q s' st]) simp_all
    next
      case RebalanceNow
      from rebalance_located [OF inv(1), of ws rg cd et rt em st] obtain s' where
        "rebalance ws ?cv s = Ret s'" "manager_inv cat s'" "located rg em s'" "im_manifests (sy_mgr s') = im_manifests (sy_mgr s)" by blast
      then show ?thesis using ManagerOp RebalanceNow by (intro manager [of q s' st]) (simp_all add: knows_def)
    next
      case (ReloadTick key w w')
      from reload_tick_ok [OF inv(2) lease(2), where cd = cd and et = et and rt = rt and w = w and w' = w' and key = key and st = st]
      obtain s' st' e where "fire_reload cd et rt (Some ?cv) w w' key s st = Ret (s', st', e)" "sys_ok s'" by blast
      then show ?thesis using ManagerOp ReloadTick fire_reload_places by (intro steady [of q s' st']) auto
    next
      case (CommitEvent ev)
      from commit_event_ok [OF inv(2), of cd et rt "Some ?cv" ev st] obtain s' st' where
        "handle_commit_event cd et rt (Some ?cv) ev s st = Ret (s', st')" "sys_ok s'" by blast
      then show ?thesis using ManagerOp CommitEvent commit_event_places by (intro steady [of q s' st']) auto
    next
      case (SearchIndex name x k)
      with manager_search_Ret [OF inv(2), of name x k] ManagerOp inv(2) show ?thesis by (intro steady [of q s st]) auto
    next
      case (SearchOne sh x k)
      with search_one_Ret(1) [OF inv(2), of sh x k] ManagerOp inv(2) show ?thesis by (intro steady [of q s st]) auto
    qed
  qed
qed

text \<open>All that is created and not deleted is known at the end.\<close>

lemma cluster_run_ok:
  assumes "ring_ok rg nodes"
  shows "cluster_inv cat (em, s) \<Longrightarrow> em_ring em = Some r \<Longrightarrow> \<forall>(st, p) \<in> set ps. op_in cd cat p \<Longrightarrow>
    \<exists>em' s' r'. cluster_run rg cd et rt ws ps (em, s) = Ret (em', s') \<and> cluster_inv cat (em', s') \<and>
      em_ring em' = Some r' \<and> nodes r' = foldl (member_step cd) (nodes r) (member_events ps) \<and> em_node_id em' = em_node_id em \<and>
      (located rg em s \<longrightarrow> located rg em' s') \<and>
      (\<forall>name. (knows name s \<or> (\<exists>(st, p) \<in> set ps. creates cd name p)) \<and> (\<forall>(st, p) \<in> set ps. \<not> deletes cd name p) \<longrightarrow> knows name s')"
proof (induction ps arbitrary: em s r)
  case Nil
  then show ?case by simp
next
  case (Cons sp ps)
  obtain st p where sp: "sp = (st, p)" by fastforce
  have "op_in cd cat p" using Cons.prems(3) sp by simp
  from cluster_step_ok [OF assms Cons.prems(1,2) this, of et rt ws st] obtain em1 s1 r1 where
    1: "cluster_step rg cd et rt ws st p (em, s) = Ret (em1, s1)" "cluster_inv cat (em1, s1)" "em_ring em1 = Some r1"
      "nodes r1 = foldl (member_step cd) (nodes r) (op_members p)" "em_node_id em1 = em_node_id em"
      "located rg em s \<longrightarrow> located rg em1 s1" "\<forall>name. (knows name s \<or> creates cd name p) \<and> \<not> deletes cd name p \<longrightarrow> knows name s1" by blast
  have "\<forall>(st, p) \<in> set ps. op_in cd cat p" using Cons.prems(3) by simp
  from Cons.IH [OF 1(2,3) this] obtain em2 s2 r2 where
    2: "cluster_run rg cd et rt ws ps (em1, s1) = Ret (em2, s2)" "cluster_inv cat (em2, s2)" "em_ring em2 = Some r2"
      "nodes r2 = foldl (member_step cd) (nodes r1) (member_events ps)" "em_node_id em2 = em_node_id em1"
      "located rg em1 s1 \<longrightarrow> located rg em2 s2"
      "\<forall>name. (knows name s1 \<or> (\<exists>(st, p) \<in> set ps. creates cd name p)) \<and> (\<forall>(st, p) \<in> set ps. \<not> deletes cd name p) \<longrightarrow> knows name s2" by blast
  have "knows name s2" if "knows name s \<or> (\<exists>(st, p) \<in> set (sp # ps). creates cd name p)" "\<forall>(st, p) \<in> set (sp # ps). \<not> deletes cd name p" for name
    using that 1(7) 2(7) sp by auto
  with 1 2 sp show ?case by (intro exI [of _ em2] exI [of _ s2] exI [of _ r2]) auto
qed


section \<open>The start\<close>

lemma load_manifests_located:
  "manager_inv cat s \<Longrightarrow> located rg em s \<Longrightarrow> \<forall>m \<in> set ms. manifest_ok m \<and> cat (meta_name (mf_meta m)) = Some m \<Longrightarrow>
    \<exists>s' x. load_manifests ws (Some (cluster_view_of rg cd et rt em st)) ms s = Ret (s', x) \<and> manager_inv cat s' \<and> located rg em s'"
proof (induction ms arbitrary: s)
  case Nil
  then show ?case by simp
next
  case (Cons m ms)
  have m: "manifest_ok m" "cat (meta_name (mf_meta m)) = Some m" using Cons.prems(3) by simp_all
  from load_index_located [OF Cons.prems(1) m, where ws = ws and rg = rg and cd = cd and et = et and rt = rt and em = em and st = st]
  obtain s1 t n where
    1: "load_index ws (Some (cluster_view_of rg cd et rt em st)) m s = Ret (s1, t, n, None)" "manager_inv cat s1" "located rg em s1"
    using Cons.prems(2) by blast
  from Cons.IH [OF 1(2,3)] Cons.prems(3) obtain s2 x where
    "load_manifests ws (Some (cluster_view_of rg cd et rt em st)) ms s1 = Ret (s2, x)" "manager_inv cat s2" "located rg em s2" by auto
  with 1(1) show ?case by (cases x) auto
qed

lemma init_manager_located:
  assumes "ch_ok (sy_heap s)"
    and "\<And>v m. v \<in> set vs \<Longrightarrow> decode v = Some m \<Longrightarrow> manifest_ok m \<and> cat (meta_name (mf_meta m)) = Some m"
  shows "\<exists>s' e. init_manager ws decode (Some (cluster_view_of rg cd et rt em st)) ClusterMode (Inr vs) s = Ret (s', e) \<and>
    manager_inv cat s' \<and> located rg em s'"
proof -
  let ?s0 = "s\<lparr>sy_mgr := new_index_manager ClusterMode\<rparr>" and ?ms = "List.map_filter decode vs"
  have 0: "manager_inv cat ?s0" "located rg em ?s0"
    using assms(1)
    by (simp_all add: manager_inv_def homed_def catalogued_def located_def sys_ok_def store_ok_def manifests_ok_def new_index_manager_def)
  have mem: "\<exists>v \<in> set vs. decode v = Some m" if "m \<in> set ?ms" for m
    using that by (induction vs) (auto simp: map_filter_simps split: option.splits)
  have "\<forall>m \<in> set ?ms. manifest_ok m \<and> cat (meta_name (mf_meta m)) = Some m"
    using mem assms(2) by blast
  from load_manifests_located [OF 0 this, where ws = ws and cd = cd and et = et and rt = rt and st = st] show ?thesis
    by (auto simp: init_manager_def)
qed

lemma change_status_frame:
  "change_status cd et rt status (s, Some em, st) = Ret (s', emo', st') \<Longrightarrow>
    \<exists>em'. emo' = Some em' \<and> em_ring em' = em_ring em \<and> em_node_id em' = em_node_id em \<and> em_hook em' = em_hook em \<and>
      em_lease em' = em_lease em \<and> sy_mgr s' = sy_mgr s \<and> sy_heap s' = sy_heap s"
  by (auto simp: change_status_def set_node_status_def Let_def put_status_def split: if_splits sum.splits option.splits)

lemma located_frame:
  assumes "sy_mgr s' = sy_mgr s" "sy_heap s' = sy_heap s"
  shows "located rg em s' = located rg em s" "manager_inv cat s' = manager_inv cat s"
  using assms by (simp_all add: located_def pending_key_def manager_inv_def homed_def catalogued_def sys_ok_def)

lemma start_engine_located:
  assumes "start_engine rg cd et rt ws bt (s, Some em, st) = Ret ((s', emo', st'), None)"
    and "ch_ok (sy_heap s)" "em_lease em \<noteq> None"
    and mok: "\<And>st vs v m. raw_manifests et rt True bt st = Inr vs \<Longrightarrow> v \<in> set vs \<Longrightarrow> dec_manifest cd v = Some m \<Longrightarrow>
      manifest_ok m \<and> cat (meta_name (mf_meta m)) = Some m"
  shows "\<exists>em'. emo' = Some em' \<and> cluster_inv cat (em', s') \<and> located rg em' s' \<and> em_ring em' = em_ring em \<and> em_node_id em' = em_node_id em"
proof -
  obtain s1 emo1 st1 where c1: "change_status cd et rt Init (s, Some em, st) = Ret (s1, emo1, st1)"
    using assms(1) by (auto simp: start_engine_def run_bind_eq_Ret)
  from change_status_frame [OF this] obtain em1 where 1: "emo1 = Some em1" "em_ring em1 = em_ring em" "em_node_id em1 = em_node_id em"
    "em_lease em1 = em_lease em" "sy_heap s1 = sy_heap s" by blast
  let ?raw = "raw_manifests et rt True bt st1" and ?cv = "cluster_view_of rg cd et rt em1 st1"
  show ?thesis
  proof (cases ?raw)
    case (Inl e)
    with assms(1) c1 1(1) show ?thesis by (auto simp: start_engine_def init_manager_def final_status_def run_map_eq_Ret)
  next
    case (Inr vs)
    have "ch_ok (sy_heap s1)" using assms(2) 1(5) by simp
    from init_manager_located [OF this, of vs "dec_manifest cd" cat ws rg cd et rt em1 st1] mok [OF Inr] obtain s2 e where
      2: "init_manager ws (dec_manifest cd) (Some ?cv) ClusterMode (Inr vs) s1 = Ret (s2, e)" "manager_inv cat s2" "located rg em1 s2"
      by blast
    with assms(1) c1 1(1) Inr have "change_status cd et rt (final_status e) (s2, Some (set_rebalance_hook em1), st1) = Ret (s', emo', st')"
      by (auto simp: start_engine_def run_map_eq_Ret)
    from change_status_frame [OF this] obtain em' where 3: "emo' = Some em'" "em_ring em' = em_ring em1" "em_node_id em' = em_node_id em1"
      "em_hook em'" "em_lease em' = em_lease em1" "sy_mgr s' = sy_mgr s2" "sy_heap s' = sy_heap s2"
      by (auto simp: set_rebalance_hook_def)
    with 1 2 assms(3) located_frame(1) [OF 3(6,7), of rg em1] located_frame(2) [OF 3(6,7), of cat] located_cong [OF 3(2,3), of rg s'] show ?thesis by (simp add: cluster_inv_def)
  qed
qed

lemma join_cluster_node:
  assumes "join_cluster rg cd et rt cl node_id addr bt st = (em, st1, None)"
  shows "em_node_id em = node_id" "em_lease em \<noteq> None"
  using assms
  by (auto simp: join_cluster_def register_def sync_cluster_def report_load_def Let_def init_etcd_manager_def
      split: prod.splits option.splits sum.splits if_splits)

text \<open>A node that has started without an error in cluster mode has its shards where the ring wants them.\<close>

lemma start_located:
  assumes "start rg cd et rt ws conf node_id bt s st = Ret ((s', Some em', st'), None)" "ch_ok (sy_heap s)"
    and "\<And>st vs v m. raw_manifests et rt True bt st = Inr vs \<Longrightarrow> v \<in> set vs \<Longrightarrow> dec_manifest cd v = Some m \<Longrightarrow>
      manifest_ok m \<and> cat (meta_name (mf_meta m)) = Some m"
  shows "cluster_inv cat (em', s')" "located rg em' s'" "em_node_id em' = node_id"
proof -
  obtain addr where addr: "bt_listen bt = Inr addr" using assms(1) by (auto simp: start_def split: sum.splits)
  have alone: "\<not> start_engine rg cd et rt ws bt (s, None, st) = Ret ((s', Some em', st'), None)"
    by (auto simp: start_engine_def change_status_def run_bind_eq_Ret run_map_eq_Ret Let_def split: sum.splits)
  with assms(1) addr have "cl_enabled (cm_cluster_mode conf)" by (auto simp: start_def split: if_splits)
  with assms(1) addr obtain em st1 where j: "join_cluster rg cd et rt (cm_cluster_mode conf) node_id addr bt st = (em, st1, None)"
    "start_engine rg cd et rt ws bt (s, Some em, st1) = Ret ((s', Some em', st'), None)"
    by (auto simp: start_def split: prod.splits option.splits)
  from start_engine_located [OF j(2) assms(2) join_cluster_node(2) [OF j(1)] assms(3)] join_cluster_node(1) [OF j(1)]
  show "cluster_inv cat (em', s')" "located rg em' s'" "em_node_id em' = node_id" by auto
qed


section \<open>Properties\<close>

lemma located_cluster:
  assumes rg: "ring_ok rg nodes" "\<And>r r' k. nodes r = nodes r' \<Longrightarrow> rg_get rg r k = rg_get rg r' k"
    and N: "finite N" "N \<noteq> {}"
    and em: "\<And>n. n \<in> N \<Longrightarrow> em_node_id (em n) = n" "\<And>n. n \<in> N \<Longrightarrow> \<exists>r. em_ring (em n) = Some r \<and> nodes r = N"
    and loc: "\<And>n. n \<in> N \<Longrightarrow> located rg (em n) (s n)"
    and m: "\<And>n. n \<in> N \<Longrightarrow> sm_load (im_manifests (sy_mgr (s n))) name = Some m" "u \<in> set (unique_shards m)"
      "0 < meta_replicas (mf_meta m)"
  shows "(\<exists>n \<in> N. engine (s n) (unique_shard_key u) \<noteq> None \<or> pending_key (s n) (unique_shard_key u)) \<and>
    card {n \<in> N. engine (s n) (unique_shard_key u) \<noteq> None} \<le> nat (meta_replicas (mf_meta m))"
proof -
  note own = owners_cover [OF rg N em m(3), of u]
  have at: "(engine (s n) (unique_shard_key u) \<noteq> None \<longrightarrow> owns_shard rg (em n) m u) \<and>
      (owns_shard rg (em n) m u \<longrightarrow> engine (s n) (unique_shard_key u) \<noteq> None \<or> pending_key (s n) (unique_shard_key u))"
    if "n \<in> N" for n
    using loc [OF that] m(1) [OF that] m(2) unfolding located_def by blast
  have "{n \<in> N. engine (s n) (unique_shard_key u) \<noteq> None} \<subseteq> {n \<in> N. owns_shard rg (em n) m u}" using at by blast
  from card_mono [OF own(2) this] own(1,3) at show ?thesis by fastforce
qed

text \<open>C7: A running cluster loses no shard.  Let the nodes of a cluster start, each with whatever settings and whatever is in etcd then,
  and afterwards handle membership changes, manifest creations and deletions, rebalances, scheduled reloads, commits and
  searches, each node its own sequence in its own order, so that the rings end with exactly these nodes as members.  If all
  manifests that are created under a name are the same, then no operation faults, and every shard of an index that each
  node has been told of and none was told to delete is loaded on one of the nodes or pending there, and loaded on at
  most as many as it has replicas.\<close>

theorem cluster_keeps_shards:
  assumes "ring_ok rg nodes" "\<And>r r' k. nodes r = nodes r' \<Longrightarrow> rg_get rg r k = rg_get rg r' k"
    and "finite N" "N \<noteq> {}" "\<And>n. n \<in> N \<Longrightarrow> ch_ok (sy_heap (s n))"
    and "\<And>n. n \<in> N \<Longrightarrow> start rg cd et rt (ws n) (conf n) n (bt n) (s n) (st n) = Ret ((s0 n, Some (em0 n), st0 n), None)"
    and "\<And>e kvs k v m. et_get_prefix et (index_manifest_path_prefix rt) e = Inr kvs \<Longrightarrow> (k, v) \<in> set kvs \<Longrightarrow> dec_manifest cd v = Some m \<Longrightarrow>
      manifest_ok m \<and> cat (meta_name (mf_meta m)) = Some m"
    and "\<And>n. n \<in> N \<Longrightarrow> \<forall>(e, p) \<in> set (ops n). op_in cd cat p"
    and "\<And>n. n \<in> N \<Longrightarrow> \<exists>r. em_ring (em0 n) = Some r \<and> foldl (member_step cd) (nodes r) (member_events (ops n)) = N"
    and "\<And>n. n \<in> N \<Longrightarrow> knows name (s0 n) \<or> (\<exists>(e, p) \<in> set (ops n). creates cd name p)"
    and "\<And>n. n \<in> N \<Longrightarrow> \<forall>(e, p) \<in> set (ops n). \<not> deletes cd name p"
    and "cat name = Some m" "u \<in> set (unique_shards m)" "0 < meta_replicas (mf_meta m)"
  shows "\<exists>em' s'. (\<forall>n \<in> N. cluster_run rg cd et rt (ws n) (ops n) (em0 n, s0 n) = Ret (em' n, s' n) \<and> sys_ok (s' n)) \<and>
    (\<exists>n \<in> N. engine (s' n) (unique_shard_key u) \<noteq> None \<or> pending_key (s' n) (unique_shard_key u)) \<and>
    card {n \<in> N. engine (s' n) (unique_shard_key u) \<noteq> None} \<le> nat (meta_replicas (mf_meta m))"
proof -
  have "\<exists>x. cluster_run rg cd et rt (ws n) (ops n) (em0 n, s0 n) = Ret x \<and> sys_ok (snd x) \<and> em_node_id (fst x) = n \<and>
      (\<exists>r. em_ring (fst x) = Some r \<and> nodes r = N) \<and> located rg (fst x) (snd x) \<and>
      sm_load (im_manifests (sy_mgr (snd x))) name = Some m" if n: "n \<in> N" for n
  proof -
    have mok: "manifest_ok m \<and> cat (meta_name (mf_meta m)) = Some m"
      if "raw_manifests et rt True (bt n) e = Inr vs" "v \<in> set vs" "dec_manifest cd v = Some m" for e vs v m
      using that assms(7) [of e] by (auto simp: raw_manifests_def split: sum.splits)
    have st: "cluster_inv cat (em0 n, s0 n)" "located rg (em0 n) (s0 n)" "em_node_id (em0 n) = n"
      by (rule start_located [OF assms(6) [OF n] assms(5) [OF n]], erule (2) mok)+
    obtain r where r: "em_ring (em0 n) = Some r" "foldl (member_step cd) (nodes r) (member_events (ops n)) = N"
      using assms(9) [OF n] by blast
    from cluster_run_ok [OF assms(1) st(1) r(1) assms(8) [OF n], where et = et and rt = rt and ws = "ws n"] obtain em' s' r' where
      run: "cluster_run rg cd et rt (ws n) (ops n) (em0 n, s0 n) = Ret (em', s')" "cluster_inv cat (em', s')" "em_ring em' = Some r'"
        "nodes r' = N" "em_node_id em' = em_node_id (em0 n)" "located rg (em0 n) (s0 n) \<longrightarrow> located rg em' s'"
      and "knows name s'"
      unfolding r(2) using assms(10,11) [OF n] by blast
    then have "sm_load (im_manifests (sy_mgr s')) name = Some m"
      using assms(12) by (auto simp: cluster_inv_def manager_inv_def catalogued_def knows_def)
    with run st(2,3) show ?thesis by (intro exI [of _ "(em', s')"]) (simp add: cluster_inv_def manager_inv_def)
  qed
  then have "\<forall>n \<in> N. \<exists>x. cluster_run rg cd et rt (ws n) (ops n) (em0 n, s0 n) = Ret x \<and> sys_ok (snd x) \<and> em_node_id (fst x) = n \<and>
      (\<exists>r. em_ring (fst x) = Some r \<and> nodes r = N) \<and> located rg (fst x) (snd x) \<and>
      sm_load (im_manifests (sy_mgr (snd x))) name = Some m" by blast
  from bchoice [OF this] obtain f where f: "\<And>n. n \<in> N \<Longrightarrow>
      cluster_run rg cd et rt (ws n) (ops n) (em0 n, s0 n) = Ret (f n) \<and> sys_ok (snd (f n)) \<and> em_node_id (fst (f n)) = n \<and>
      (\<exists>r. em_ring (fst (f n)) = Some r \<and> nodes r = N) \<and> located rg (fst (f n)) (snd (f n)) \<and>
      sm_load (im_manifests (sy_mgr (snd (f n)))) name = Some m" by blast
  have "(\<exists>n \<in> N. engine (snd (f n)) (unique_shard_key u) \<noteq> None \<or> pending_key (snd (f n)) (unique_shard_key u)) \<and>
    card {n \<in> N. engine (snd (f n)) (unique_shard_key u) \<noteq> None} \<le> nat (meta_replicas (mf_meta m))"
    by (rule located_cluster [OF assms(1-4), where em = "\<lambda>n. fst (f n)" and name = name]) (use f assms(13,14) in auto)
  with f show ?thesis by (intro exI [of _ "\<lambda>n. fst (f n)"] exI [of _ "\<lambda>n. snd (f n)"]) simp
qed

section \<open>Witness\<close>

text \<open>Two nodes that find each other; then both are told of an index, one rebalances and the other searches.\<close>

definition ex_pair_store :: "(nat, node_meta + index_manifest) etcd_ops" where
  "ex_pair_store = \<lparr>et_get = (\<lambda>k e. Inr []),
     et_get_prefix = (\<lambda>p e. if p = node_meta_path_prefix ''/v'' then Inr [(p, Inl (ex_node ''n1'' Start)), (p, Inl (ex_node ''n2'' Start))]
       else Inr []),
     et_put = (\<lambda>k v l e. (Suc e, None)), et_delete = (\<lambda>k e. (Suc e, None))\<rparr>"

definition ex_told :: "(node_meta + index_manifest) cluster_op" where
  "ex_told = ManagerOp (ManifestEvent \<lparr>ev_type = PutEvent, ev_create = True, ev_key = '''', ev_value = Inr ex_mock_manifest\<rparr>)"

definition ex_ops :: "string \<Rightarrow> (nat \<times> (node_meta + index_manifest) cluster_op) list" where
  "ex_ops n = [(3, ex_told), (4, ManagerOp (if n = ''n1'' then RebalanceNow else SearchIndex ''docs'' [F_num 1] 3))]"

definition ex_catalogue :: catalogue where
  "ex_catalogue = [''docs'' \<mapsto> ex_mock_manifest]"

lemma change_status_Ret:
  "em_lease em \<noteq> None \<Longrightarrow> \<exists>s' em' st'. change_status cd et rt status (s, Some em, st) = Ret (s', Some em', st')"
  by (auto simp: change_status_def set_node_status_def get_node_meta_def Let_def split: option.splits)

lemma start_engine_empty:
  assumes "em_lease em \<noteq> None" "\<And>e. raw_manifests et rt True bt e = Inr []"
  shows "\<exists>s' em' st'. start_engine rg cd et rt ws bt (s, Some em, st) = Ret ((s', Some em', st'), None) \<and> em_ring em' = em_ring em"
proof -
  obtain s1 em1 st1 where 1: "change_status cd et rt Init (s, Some em, st) = Ret (s1, Some em1, st1)"
    using change_status_Ret [OF assms(1), where cd = cd and et = et and rt = rt and status = Init and s = s and st = st] by blast
  note f1 = change_status_frame [OF 1]
  let ?s2 = "s1\<lparr>sy_mgr := new_index_manager ClusterMode\<rparr>"
  have 2: "init_manager ws (dec_manifest cd) cv ClusterMode (Inr []) s1 = Ret (?s2, None)" for cv
    by (simp add: init_manager_def map_filter_simps init_result_def)
  have "em_lease (set_rebalance_hook em1) \<noteq> None" using f1 assms(1) by (simp add: set_rebalance_hook_def)
  from change_status_Ret [OF this, where cd = cd and et = et and rt = rt and status = Healthy and s = ?s2 and st = st1] obtain s3 em3 st3 where
    3: "change_status cd et rt Healthy (?s2, Some (set_rebalance_hook em1), st1) = Ret (s3, Some em3, st3)" by blast
  have "em_ring em3 = em_ring em" using change_status_frame [OF 3] f1 by (simp add: set_rebalance_hook_def)
  then show ?thesis using 1 2 3 assms(2) by (simp add: start_engine_def final_status_def)
qed

lemma ex_pair_raw: "raw_manifests ex_pair_store ''/v'' True b e = Inr []"
  by (simp add: raw_manifests_def ex_pair_store_def index_manifest_path_prefix_def node_meta_path_prefix_def)

lemma ex_pair_start:
  "\<exists>s' em' st'. start ex_least_ring ex_boot_codec ex_pair_store ''/v'' ws ex_conf n ex_boot (ex_sys Single [] []) e =
     Ret ((s', Some em', st'), None) \<and> em_ring em' = Some [''n1'', ''n2'']"
proof -
  have "\<exists>em st. join_cluster ex_least_ring ex_boot_codec ex_pair_store ''/v'' (cm_cluster_mode ex_conf) n ''10.0.0.1:1'' ex_boot e =
      (em, st, None) \<and> em_lease em \<noteq> None \<and> em_ring em = Some [''n1'', ''n2'']"
    by (simp add: join_cluster_def register_def ex_boot_def ex_pair_store_def sync_cluster_def ex_boot_codec_def ex_node_def
        ex_least_ring_def init_etcd_manager_def report_load_def Let_def)
  then obtain em st where j: "join_cluster ex_least_ring ex_boot_codec ex_pair_store ''/v'' (cm_cluster_mode ex_conf) n ''10.0.0.1:1'' ex_boot e =
      (em, st, None)" "em_lease em \<noteq> None" "em_ring em = Some [''n1'', ''n2'']" by blast
  from start_engine_empty [OF j(2) ex_pair_raw, where cd = ex_boot_codec and bt = ex_boot and rg = ex_least_ring and ws = ws] j show ?thesis
    by (simp add: start_def ex_conf_def) (simp add: ex_boot_def)
qed

theorem cluster_keeps_shards_witness:
  "\<exists>s0 em0 st0 em' s'. (\<forall>n \<in> {''n1'', ''n2''}.
     start ex_least_ring ex_boot_codec ex_pair_store ''/v'' (\<lambda>sh. ex_world ''5'') ex_conf n ex_boot (ex_sys Single [] []) 0 =
       Ret ((s0 n, Some (em0 n), st0 n), None) \<and>
     cluster_run ex_least_ring ex_boot_codec ex_pair_store ''/v'' (\<lambda>sh. ex_world ''5'') (ex_ops n) (em0 n, s0 n) = Ret (em' n, s' n)) \<and>
     (\<exists>n \<in> {''n1'', ''n2''}. engine (s' n) ''docs:0'' \<noteq> None \<or> pending_key (s' n) ''docs:0'')"
proof -
  let ?N = "{''n1'', ''n2''}" and ?ws = "\<lambda>sh. ex_world ''5''"
  have "\<forall>n. \<exists>x. start ex_least_ring ex_boot_codec ex_pair_store ''/v'' ?ws ex_conf n ex_boot (ex_sys Single [] []) 0 =
      Ret ((fst x, Some (fst (snd x)), snd (snd x)), None) \<and> em_ring (fst (snd x)) = Some [''n1'', ''n2'']"
    using ex_pair_start [where e = 0] by (metis fst_conv snd_conv)
  from choice [OF this] obtain f where f: "\<And>n. start ex_least_ring ex_boot_codec ex_pair_store ''/v'' ?ws ex_conf n ex_boot (ex_sys Single [] []) 0 =
      Ret ((fst (f n), Some (fst (snd (f n))), snd (snd (f n))), None)" "\<And>n. em_ring (fst (snd (f n))) = Some [''n1'', ''n2'']" by blast
  have det: "rg_get ex_least_ring r k = rg_get ex_least_ring r' k" if "set r = set r'" for r r' k
    using that by (simp only: ex_least_ring_def ring_ops.simps)
  have ch: "ch_ok (sy_heap (ex_sys Single [] []))" by (simp add: ex_sys_def ch_ok_def empty_heap_def ch_handles_def)
  have pre: "et_get_prefix ex_pair_store (index_manifest_path_prefix ''/v'') e = Inr []" for e
    by (simp add: ex_pair_store_def index_manifest_path_prefix_def node_meta_path_prefix_def)
  have dec: "dec_manifest ex_boot_codec (Inr m) = Some m" for m by (simp add: ex_boot_codec_def)
  have name: "meta_name (mf_meta ex_mock_manifest) = ''docs''" "0 < meta_replicas (mf_meta ex_mock_manifest)"
    by (simp_all add: ex_mock_manifest_def)
  have told: "op_in ex_boot_codec ex_catalogue ex_told" "creates ex_boot_codec ''docs'' ex_told" "\<not> deletes ex_boot_codec ''docs'' ex_told"
    using ex_mock_manifest_ok name(1) dec by (simp_all add: ex_told_def ex_catalogue_def ev_is_create_def)
  have ops: "\<forall>(e, p) \<in> set (ex_ops n). op_in ex_boot_codec ex_catalogue p" "\<exists>(e, p) \<in> set (ex_ops n). creates ex_boot_codec ''docs'' p"
    "\<forall>(e, p) \<in> set (ex_ops n). \<not> deletes ex_boot_codec ''docs'' p" for n
    using told by (simp_all add: ex_ops_def)
  have ev: "member_events (ex_ops n) = []" for n by (simp add: ex_ops_def ex_told_def)
  have cat: "ex_catalogue ''docs'' = Some ex_mock_manifest" by (simp add: ex_catalogue_def)
  have u: "ex_shard \<in> set (unique_shards ex_mock_manifest)" by (simp add: ex_unique_shards)
  have "\<exists>em' s'. (\<forall>n \<in> ?N. cluster_run ex_least_ring ex_boot_codec ex_pair_store ''/v'' ?ws (ex_ops n) (fst (snd (f n)), fst (f n)) =
      Ret (em' n, s' n) \<and> sys_ok (s' n)) \<and>
    (\<exists>n \<in> ?N. engine (s' n) (unique_shard_key ex_shard) \<noteq> None \<or> pending_key (s' n) (unique_shard_key ex_shard)) \<and>
    card {n \<in> ?N. engine (s' n) (unique_shard_key ex_shard) \<noteq> None} \<le> nat (meta_replicas (mf_meta ex_mock_manifest))"
    by (rule cluster_keeps_shards [OF ex_least_ring_ok det, where N = ?N and name = "''docs''" and m = ex_mock_manifest
        and cat = ex_catalogue and st = "\<lambda>n. 0" and s = "\<lambda>n. ex_sys Single [] []" and bt = "\<lambda>n. ex_boot" and conf = "\<lambda>n. ex_conf"
        and ws = "\<lambda>n. ?ws" and ?s0.0 = "\<lambda>n. fst (f n)" and ?em0.0 = "\<lambda>n. fst (snd (f n))" and ?st0.0 = "\<lambda>n. snd (snd (f n))" and ops = ex_ops])
      (use f ch pre ops ev cat u name(2) in simp_all)
  then obtain em' s' where "\<forall>n \<in> ?N. cluster_run ex_least_ring ex_boot_codec ex_pair_store ''/v'' ?ws (ex_ops n)
      (fst (snd (f n)), fst (f n)) = Ret (em' n, s' n)"
    "\<exists>n \<in> ?N. engine (s' n) ''docs:0'' \<noteq> None \<or> pending_key (s' n) ''docs:0''"
    unfolding ex_shard_key by blast
  with f(1) show ?thesis
    by (intro exI [of _ "\<lambda>n. fst (f n)"] exI [of _ "\<lambda>n. fst (snd (f n))"] exI [of _ "\<lambda>n. snd (snd (f n))"]
        exI [of _ em'] exI [of _ s']) simp
qed

end
