(* ===== verification/Protocol.thy ===== *)
theory Protocol
  imports Commit
begin

text \<open>
  The nodes together.  A step relation on the nodes of a cluster and the store they share: a scheduled reload
  fires on a node, a node is told of a commit key, a ready key expires with its lease.  Each step runs the operations of
  \<open>internal/engine/manager.go\<close> on one node; steps of different nodes come in any order, and a watch may
  deliver a value long after the store has moved on.  What is proved is that no node activates a revision by itself.
\<close>

section \<open>Steps\<close>

text \<open>
  \<open>nt_seen\<close> and \<open>nt_staged\<close> are history: every pair the store has held (what a watch may deliver), and
  which node has had all its FAISS shards of an index staged at which revision.
\<close>

record ('e, 'v) net =
  nt_store :: 'e
  nt_node :: "string \<Rightarrow> sys"
  nt_seen :: "(string \<times> 'v) set"
  nt_staged :: "(string \<times> string \<times> int) set"

definition node_staged :: "sys \<Rightarrow> string \<Rightarrow> int \<Rightarrow> bool" where
  "node_staged s name rv \<longleftrightarrow>
     (\<exists>m. sm_load (im_manifests (sy_mgr s)) name = Some m \<and>
       (\<forall>u \<in> set (unique_shards m). served s (unique_shard_key u) \<noteq> None \<longrightarrow> staged_at s rv (unique_shard_key u)))"

definition observe :: "('e \<Rightarrow> string \<Rightarrow> 'v option) \<Rightarrow> ('e, 'v) net \<Rightarrow> ('e, 'v) net" where
  "observe contents c =
     c\<lparr>nt_seen := nt_seen c \<union> {(k, v). contents (nt_store c) k = Some v},
       nt_staged := nt_staged c \<union> {(name, n, rv). node_staged (nt_node c n) name rv}\<rparr>"

text \<open>\<open>views n\<close> is what node \<open>n\<close> knows of the cluster; only nodes that have a view take steps.\<close>

inductive net_step ::
    "'v codec \<Rightarrow> ('e, 'v) etcd_ops \<Rightarrow> ('e \<Rightarrow> string \<Rightarrow> 'v option) \<Rightarrow> string \<Rightarrow> (string \<Rightarrow> cluster_view option) \<Rightarrow>
     ('e, 'v) net \<Rightarrow> ('e, 'v) net \<Rightarrow> bool"
  for cd et contents rt views where
  reload: "views n = Some cv \<Longrightarrow> engine (nt_node c n) key = Some (FaissIx fx) \<Longrightarrow>
    fx_reload_callback fx = StageAndSignal name \<Longrightarrow>
    fire_reload cd et rt (Some cv) w w' key (nt_node c n) (nt_store c) = Ret (s', st', e) \<Longrightarrow>
    net_step cd et contents rt views c (observe contents (c\<lparr>nt_node := (nt_node c)(n := s'), nt_store := st'\<rparr>))"
| deliver: "views n = Some cv \<Longrightarrow> (k, v) \<in> nt_seen c \<Longrightarrow>
    handle_commit_event cd et rt (Some cv) \<lparr>ev_type = PutEvent, ev_create = b, ev_key = k, ev_value = v\<rparr>
      (nt_node c n) (nt_store c) = Ret (s', st') \<Longrightarrow>
    net_step cd et contents rt views c (observe contents (c\<lparr>nt_node := (nt_node c)(n := s'), nt_store := st'\<rparr>))"
| expire: "et_delete et (revision_ready_path rt name n) (nt_store c) = (st', e) \<Longrightarrow>
    net_step cd et contents rt views c (observe contents (c\<lparr>nt_store := st'\<rparr>))"

inductive net_reach ::
    "'v codec \<Rightarrow> ('e, 'v) etcd_ops \<Rightarrow> ('e \<Rightarrow> string \<Rightarrow> 'v option) \<Rightarrow> string \<Rightarrow> (string \<Rightarrow> cluster_view option) \<Rightarrow>
     ('e, 'v) net \<Rightarrow> ('e, 'v) net \<Rightarrow> bool"
  for cd et contents rt views c0 where
  init: "net_reach cd et contents rt views c0 c0"
| next_step: "net_reach cd et contents rt views c0 c \<Longrightarrow> net_step cd et contents rt views c c' \<Longrightarrow>
    net_reach cd et contents rt views c0 c'"

inductive_cases net_stepE: "net_step cd et contents rt views c c'"

section \<open>Paths\<close>

lemma first_separator:
  "c \<notin> set xs \<Longrightarrow> c \<notin> set xs' \<Longrightarrow> xs @ c # ys = xs' @ c # ys' \<Longrightarrow> xs = xs' \<and> ys = ys'"
proof (induction xs arbitrary: xs')
  case Nil
  then show ?case by (cases xs') auto
next
  case (Cons x xs)
  then show ?case by (cases xs') auto
qed

definition slashless :: "string \<Rightarrow> bool" where
  "slashless s \<longleftrightarrow> CHR ''/'' \<notin> set s"

lemma ready_path_eq:
  assumes "slashless name" "slashless name'" "revision_ready_path rt name n = revision_ready_path rt name' n'"
  shows "name = name' \<and> n = n'"
proof -
  have "name @ CHR ''/'' # (''ready/'' @ n) = name' @ CHR ''/'' # (''ready/'' @ n')"
    using assms(3) by (simp add: revision_ready_path_def revision_ready_path_prefix_def)
  with first_separator [of "CHR ''/''" name name'] assms(1,2) show ?thesis by (auto simp: slashless_def)
qed

lemma commit_path_eq:
  assumes "revision_commit_path rt name = revision_commit_path rt name'"
  shows "name = name'"
  using assms by (simp add: revision_commit_path_def)

lemma ready_prefix_paths:
  assumes "slashless name" "slashless name'"
  shows "prefix (revision_ready_path_prefix rt name) (revision_ready_path rt name' n) \<Longrightarrow> name = name'"
    and "\<not> prefix (revision_ready_path_prefix rt name) (revision_commit_path rt name')"
proof -
  have sep: "name = name' \<and> ''ready'' @ zs = ys" if "name @ CHR ''/'' # (''ready'' @ zs) = name' @ CHR ''/'' # ys" for zs ys
    using first_separator [OF _ _ that] assms by (simp add: slashless_def)
  show "name = name'" if "prefix (revision_ready_path_prefix rt name) (revision_ready_path rt name' n)"
    using that sep [of _ "''ready/'' @ n"]
    by (auto simp: prefix_def revision_ready_path_def revision_ready_path_prefix_def)
  show "\<not> prefix (revision_ready_path_prefix rt name) (revision_commit_path rt name')"
    using sep [of _ "''commit''"] by (auto simp: prefix_def revision_commit_path_def revision_ready_path_prefix_def)
qed

lemma revision_paths:
  "prefix (revision_commit_path_prefix rt) (revision_ready_path rt name n)"
  "prefix (revision_commit_path_prefix rt) (revision_commit_path rt name)"
  "prefix (revision_ready_path_prefix rt name) k \<Longrightarrow> prefix (revision_commit_path_prefix rt) k"
  "plain_prefix (revision_ready_path_prefix rt name)"
  by (auto simp: revision_commit_path_prefix_def revision_ready_path_def revision_ready_path_prefix_def
      revision_commit_path_def prefix_def plain_prefix_def)

section \<open>What one operation does to the store\<close>

lemma signal_ready_outcome:
  assumes "sys_ok s" "signal_ready cd et rt (Some c) s name rv st = Ret (st', e)"
  shows "st' = st \<or> (\<exists>lease st1. cv_lease c = Some lease \<and> (rv \<noteq> 0 \<longrightarrow> node_staged s name rv) \<and>
    sm_load (im_manifests (sy_mgr s)) name \<noteq> None \<and>
    st1 = fst (et_put et (revision_ready_path rt name (cv_node_id c)) (enc_revision cd rv) (Some lease) st) \<and>
    (st' = st1 \<or> (\<exists>e'. check_and_commit cd et rt (Some c) s name rv st1 = Ret (st', e'))))"
proof (cases "sm_load (im_manifests (sy_mgr s)) name")
  case None
  with assms(2) show ?thesis by (simp add: signal_ready_def)
next
  case (Some m)
  then have us: "generate_unique_shards m = Ret (unique_shards m)"
    using assms(1) generate_unique_shards_eq [of m] by (auto simp: sys_ok_def manifests_ok_def)
  show ?thesis
  proof (cases "list_ex (not_staged_at s rv) (unique_shards m)")
    case True
    with assms(2) Some us show ?thesis by (simp add: signal_ready_def)
  next
    case False
    then have st: "rv \<noteq> 0 \<longrightarrow> node_staged s name rv"
      using Some not_staged_at_iff [OF assms(1)] by (auto simp: node_staged_def list_ex_iff)
    from assms(2) Some us False obtain lease where l: "cv_lease c = Some lease"
      by (auto simp: signal_ready_def split: option.splits)
    obtain st1 oe where p: "et_put et (revision_ready_path rt name (cv_node_id c)) (enc_revision cd rv) (Some lease) st = (st1, oe)"
      by fastforce
    from assms(2) Some us False l p have "st' = st1 \<or> check_and_commit cd et rt (Some c) s name rv st1 = Ret (st', e)"
      by (auto simp: signal_ready_def split: option.splits)
    with l p st Some show ?thesis by auto
  qed
qed

context kv_store
begin

lemma put_contents: "contents (fst (et_put et k v l st)) k' = Some v' \<Longrightarrow> k' = k \<and> v' = v \<or> contents st k' = Some v'"
  using put_ok [of k v l st] put_err [of k v l st] by (cases "et_put et k v l st"; cases "snd (et_put et k v l st)") (auto split: if_splits)

lemma delete_contents: "contents (fst (et_delete et k st)) k' = Some v' \<Longrightarrow> contents st k' = Some v'"
  using delete_ok [of k st] delete_err [of k st] by (cases "et_delete et k st"; cases "snd (et_delete et k st)") (auto split: if_splits)

lemma check_and_commit_outcome:
  assumes "inv st" "check_and_commit cd et rt cv s name rv st = Ret (st', e)"
    and keys: "\<And>k v. contents st k = Some v \<Longrightarrow> prefix (revision_ready_path_prefix rt name) k \<Longrightarrow>
      \<exists>n. k = revision_ready_path rt name n \<and> slashless n"
  shows "st' = st \<or> (st' = fst (et_put et (revision_commit_path rt name) (enc_revision cd rv) None st) \<and>
    (\<exists>os. nodes_owning_index cv s name = Ret os \<and> os \<noteq> [] \<and>
      (\<forall>n \<in> set os. \<exists>v. contents st (revision_ready_path rt name n) = Some v \<and> dec_revision cd v = Some rv)))"
proof -
  obtain os where os: "nodes_owning_index cv s name = Ret os"
    using assms(2) by (auto simp: check_and_commit_def run_bind_eq_Ret)
  show ?thesis
  proof (cases "st' = st")
    case False
    with assms(2) os obtain kvs where kvs: "os \<noteq> []" "et_get_prefix et (revision_ready_path_prefix rt name) st = Inr kvs"
      "list_all (\<lambda>n. sm_load (ready_nodes cd kvs) n = Some rv) os"
      "st' = fst (et_put et (revision_commit_path rt name) (enc_revision cd rv) None st)"
      by (auto simp: check_and_commit_def split: if_splits sum.splits prod.splits option.splits)
    note g = get_prefix_ok [OF assms(1) kvs(2) revision_paths(4)]
    have mem: "(k, v) \<in> set kvs \<longleftrightarrow> prefix (revision_ready_path_prefix rt name) k \<and> contents st k = Some v" for k v
      using g map_of_eq_Some_iff [of kvs k v] by (auto split: if_splits)
    have rk: "\<exists>n. k = revision_ready_path rt name n \<and> CHR ''/'' \<notin> set n" if "(k, v) \<in> set kvs" for k v
      using keys [of k v] mem [of k v] that by (auto simp: slashless_def)
    have "\<exists>v. contents st (revision_ready_path rt name n) = Some v \<and> dec_revision cd v = Some rv" if "n \<in> set os" for n
    proof -
      have "sm_load (ready_nodes cd kvs) n = Some rv" using kvs(3) that by (simp add: list_all_iff)
      then obtain v where "(revision_ready_path rt name n, v) \<in> set kvs" "dec_revision cd v = Some rv"
        using ready_nodes_load [where kvs = kvs and rt = rt and name = name and cd = cd and n = n and r = rv] rk conjunct1 [OF g]
        by blast
      then show ?thesis using mem by blast
    qed
    with kvs(1,4) os show ?thesis by blast
  qed simp
qed

end

section \<open>The invariant\<close>

definition nodes_ok :: "(string \<Rightarrow> cluster_view option) \<Rightarrow> (string \<Rightarrow> string set) \<Rightarrow> ('e, 'v) net \<Rightarrow> bool" where
  "nodes_ok views owners c \<longleftrightarrow>
     (\<forall>n cv. views n = Some cv \<longrightarrow> cv_node_id cv = n \<and> slashless n \<and> cv_lease cv \<noteq> None \<and> sys_ok (nt_node c n) \<and>
       (\<forall>name. sm_load (im_manifests (sy_mgr (nt_node c n))) name \<noteq> None \<longrightarrow> slashless name) \<and>
       (\<forall>name os. nodes_owning_index (Some cv) (nt_node c n) name = Ret os \<longrightarrow> os = [] \<or> set os = owners name))"

text \<open>
  A pair below the revision path is justified: a ready key by the staging of its node, a commit key by
  the staging of all owners.  Revision zero is what an empty staging reports, so it claims nothing.
\<close>

definition justified ::
    "'v codec \<Rightarrow> string \<Rightarrow> (string \<Rightarrow> string set) \<Rightarrow> (string \<times> string \<times> int) set \<Rightarrow> string \<times> 'v \<Rightarrow> bool" where
  "justified cd rt owners staged kv \<longleftrightarrow>
     (\<exists>name n rv. kv = (revision_ready_path rt name n, snd kv) \<and> slashless name \<and> slashless n \<and>
        dec_revision cd (snd kv) = Some rv \<and> (rv \<noteq> 0 \<longrightarrow> (name, n, rv) \<in> staged)) \<or>
     (\<exists>name rv. kv = (revision_commit_path rt name, snd kv) \<and> slashless name \<and>
        dec_revision cd (snd kv) = Some rv \<and> (rv \<noteq> 0 \<longrightarrow> (\<forall>n \<in> owners name. (name, n, rv) \<in> staged)))"

definition store_justified ::
    "'v codec \<Rightarrow> ('e \<Rightarrow> string \<Rightarrow> 'v option) \<Rightarrow> string \<Rightarrow> (string \<Rightarrow> string set) \<Rightarrow> (string \<times> string \<times> int) set \<Rightarrow> 'e \<Rightarrow> bool" where
  "store_justified cd contents rt owners staged st \<longleftrightarrow>
     (\<forall>k v. contents st k = Some v \<longrightarrow> prefix (revision_commit_path_prefix rt) k \<longrightarrow> justified cd rt owners staged (k, v))"

definition net_inv ::
    "'v codec \<Rightarrow> ('e \<Rightarrow> string \<Rightarrow> 'v option) \<Rightarrow> ('e \<Rightarrow> bool) \<Rightarrow> string \<Rightarrow> (string \<Rightarrow> cluster_view option) \<Rightarrow> (string \<Rightarrow> string set) \<Rightarrow>
     ('e, 'v) net \<Rightarrow> bool" where
  "net_inv cd contents st_ok rt views owners c \<longleftrightarrow>
     st_ok (nt_store c) \<and> nodes_ok views owners c \<and>
     (\<forall>k v. contents (nt_store c) k = Some v \<longrightarrow> (k, v) \<in> nt_seen c) \<and>
     (\<forall>k v. (k, v) \<in> nt_seen c \<longrightarrow> prefix (revision_commit_path_prefix rt) k \<longrightarrow> justified cd rt owners (nt_staged c) (k, v))"

lemma commit_is_not_ready:
  assumes "slashless name" "slashless name'"
  shows "revision_commit_path rt name \<noteq> revision_ready_path rt name' n"
proof
  assume "revision_commit_path rt name = revision_ready_path rt name' n"
  then have "name @ CHR ''/'' # ''commit'' = name' @ CHR ''/'' # ''ready/'' @ n"
    by (simp add: revision_commit_path_def revision_ready_path_def revision_ready_path_prefix_def)
  from first_separator [OF _ _ this] assms show False by (simp add: slashless_def)
qed

lemma justified_commit:
  assumes "justified cd rt owners staged (revision_commit_path rt name, v)" "slashless name"
    "dec_revision cd v = Some rv" "rv \<noteq> 0"
  shows "\<forall>n \<in> owners name. (name, n, rv) \<in> staged"
  using assms commit_path_eq commit_is_not_ready unfolding justified_def by fastforce

lemma justified_mono: "justified cd rt owners staged kv \<Longrightarrow> staged \<subseteq> staged' \<Longrightarrow> justified cd rt owners staged' kv"
  unfolding justified_def by (elim disjE) blast+

lemma store_justified_mono:
  "store_justified cd contents rt owners staged st \<Longrightarrow> staged \<subseteq> staged' \<Longrightarrow> store_justified cd contents rt owners staged' st"
  using justified_mono unfolding store_justified_def by blast

lemma nodes_owning_cong:
  "im_manifests (sy_mgr s') = im_manifests (sy_mgr s) \<Longrightarrow> nodes_owning_index cv s' name = nodes_owning_index cv s name"
  by (simp add: nodes_owning_index_def)

lemma nodes_ok_update:
  assumes "nodes_ok views owners c" "sys_ok s'" "im_manifests (sy_mgr s') = im_manifests (sy_mgr (nt_node c n))"
  shows "nodes_ok views owners (c\<lparr>nt_node := (nt_node c)(n := s'), nt_store := st\<rparr>)"
  using assms nodes_owning_cong [OF assms(3)] unfolding nodes_ok_def by simp

lemma net_inv_observe:
  assumes "net_inv cd contents st_ok rt views owners c" "st_ok st'" "nodes_ok views owners (c\<lparr>nt_node := ns, nt_store := st'\<rparr>)"
    and "store_justified cd contents rt owners (nt_staged (observe contents (c\<lparr>nt_node := ns, nt_store := st'\<rparr>))) st'"
  shows "net_inv cd contents st_ok rt views owners (observe contents (c\<lparr>nt_node := ns, nt_store := st'\<rparr>))"
proof -
  let ?c = "observe contents (c\<lparr>nt_node := ns, nt_store := st'\<rparr>)"
  have "nt_staged c \<subseteq> nt_staged ?c" by (auto simp: observe_def)
  then have "justified cd rt owners (nt_staged ?c) (k, v)" if "(k, v) \<in> nt_seen c" "prefix (revision_commit_path_prefix rt) k" for k v
    using assms(1) that justified_mono unfolding net_inv_def by blast
  moreover have "nodes_ok views owners ?c" using assms(3) by (simp add: observe_def nodes_ok_def)
  moreover have "(k, v) \<in> nt_seen ?c \<longleftrightarrow> (k, v) \<in> nt_seen c \<or> contents st' k = Some v" for k v by (simp add: observe_def)
  moreover have "nt_store ?c = st'" by (simp add: observe_def)
  ultimately show ?thesis using assms(2,4) unfolding net_inv_def store_justified_def by metis
qed

context kv_store
begin

lemma signal_justified:
  assumes codec: "codec_ok cd" and st: "inv st" "store_justified cd contents rt owners staged st"
    and s: "sys_ok s" "\<And>m. sm_load (im_manifests (sy_mgr s)) name \<noteq> None \<Longrightarrow> slashless name"
    and c: "slashless (cv_node_id c)" "\<And>os. nodes_owning_index (Some c) s name = Ret os \<Longrightarrow> os = [] \<or> set os = owners name"
    and staged: "\<And>rv. node_staged s name rv \<Longrightarrow> (name, cv_node_id c, rv) \<in> staged"
    and sig: "signal_ready cd et rt (Some c) s name rv st = Ret (st', e)"
  shows "inv st' \<and> store_justified cd contents rt owners staged st'"
proof -
  from signal_ready_outcome [OF s(1) sig] consider "st' = st"
    | lease st1 where "rv \<noteq> 0 \<longrightarrow> node_staged s name rv" "slashless name"
      "st1 = fst (et_put et (revision_ready_path rt name (cv_node_id c)) (enc_revision cd rv) (Some lease) st)"
      "st' = st1 \<or> (\<exists>e'. check_and_commit cd et rt (Some c) s name rv st1 = Ret (st', e'))"
    using s(2) by blast
  then show ?thesis
  proof cases
    case 1
    with st show ?thesis by simp
  next
    case (2 lease st1)
    note sl = 2(2)
    have i1: "inv st1" using put_inv [OF st(1)] 2(3) by simp
    have j1: "store_justified cd contents rt owners staged st1"
      unfolding store_justified_def
    proof (intro allI impI)
      fix k v assume a: "contents st1 k = Some v" "prefix (revision_commit_path_prefix rt) k"
      then consider "k = revision_ready_path rt name (cv_node_id c)" "v = enc_revision cd rv" | "contents st k = Some v"
        using put_contents 2(3) by blast
      then show "justified cd rt owners staged (k, v)"
      proof cases
        case 1
        then show ?thesis using codec_okD(3) [OF codec] 2(1,2) c(1) staged unfolding justified_def by auto
      next
        case 2
        then show ?thesis using st(2) a(2) by (simp add: store_justified_def)
      qed
    qed
    have ready: "\<exists>n rv. k = revision_ready_path rt name n \<and> slashless n \<and> dec_revision cd v = Some rv \<and>
        (rv \<noteq> 0 \<longrightarrow> (name, n, rv) \<in> staged)"
      if k: "contents st1 k = Some v" "prefix (revision_ready_path_prefix rt name) k" for k v
    proof -
      have "justified cd rt owners staged (k, v)"
        using j1 k revision_paths(3) [OF k(2)] by (simp add: store_justified_def)
      then show ?thesis
        using ready_prefix_paths [OF 2(2)] k(2) unfolding justified_def by fastforce
    qed
    from 2(4) show ?thesis
    proof
      assume "st' = st1"
      with i1 j1 show ?thesis by simp
    next
      assume "\<exists>e'. check_and_commit cd et rt (Some c) s name rv st1 = Ret (st', e')"
      then obtain e' where "check_and_commit cd et rt (Some c) s name rv st1 = Ret (st', e')" by blast
      from check_and_commit_outcome [OF i1 this] ready consider "st' = st1"
        | os where "st' = fst (et_put et (revision_commit_path rt name) (enc_revision cd rv) None st1)"
          "nodes_owning_index (Some c) s name = Ret os" "os \<noteq> []"
          "\<forall>n \<in> set os. \<exists>v. contents st1 (revision_ready_path rt name n) = Some v \<and> dec_revision cd v = Some rv"
        by blast
      then show ?thesis
      proof cases
        case 1
        with i1 j1 show ?thesis by simp
      next
        case (2 os)
        have all: "rv \<noteq> 0 \<longrightarrow> (\<forall>n \<in> owners name. (name, n, rv) \<in> staged)"
        proof (intro impI ballI)
          fix n assume n: "rv \<noteq> 0" "n \<in> owners name"
          with 2(2,3) c(2) have "n \<in> set os" by blast
          with 2(4) obtain v where v: "contents st1 (revision_ready_path rt name n) = Some v" "dec_revision cd v = Some rv" by blast
          have "prefix (revision_ready_path_prefix rt name) (revision_ready_path rt name n)"
            by (simp add: revision_ready_path_def)
          from ready [OF v(1) this] v(2) n(1) ready_path_eq [OF sl sl] show "(name, n, rv) \<in> staged" by fastforce
        qed
        have "justified cd rt owners staged (k, v)"
          if "contents st' k = Some v" "prefix (revision_commit_path_prefix rt) k" for k v
        proof -
          from that(1) 2(1) put_contents consider "k = revision_commit_path rt name" "v = enc_revision cd rv" | "contents st1 k = Some v"
            by blast
          then show ?thesis
          proof cases
            case 1
            then show ?thesis using codec_okD(3) [OF codec] sl all unfolding justified_def by auto
          next
            case 2
            then show ?thesis using j1 that(2) by (simp add: store_justified_def)
          qed
        qed
        moreover have "inv st'" using put_inv [OF i1] 2(1) by simp
        ultimately show ?thesis by (simp add: store_justified_def)
      qed
    qed
  qed
qed

end


lemma nodes_okD:
  assumes "nodes_ok views owners c" "views n = Some cv"
  shows "cv_node_id cv = n" "slashless n" "\<exists>lease. cv_lease cv = Some lease" "sys_ok (nt_node c n)"
    "sm_load (im_manifests (sy_mgr (nt_node c n))) name \<noteq> None \<Longrightarrow> slashless name"
    "nodes_owning_index (Some cv) (nt_node c n) name = Ret os \<Longrightarrow> os = [] \<or> set os = owners name"
  using assms unfolding nodes_ok_def by blast+

text \<open>What a node does with a delivered pair of the store that is justified.\<close>

lemma deliver_outcome:
  assumes "sys_ok s" "prefix (revision_commit_path_prefix rt) k \<Longrightarrow> justified cd rt owners staged (k, v)"
    and "handle_commit_event cd et rt (Some c) \<lparr>ev_type = PutEvent, ev_create = b, ev_key = k, ev_value = v\<rparr> s st = Ret (s', st')"
  shows "s' = s \<and> st' = st \<or>
    (\<exists>name rv m. k = revision_commit_path rt name \<and> slashless name \<and> dec_revision cd v = Some rv \<and>
      sm_load (im_manifests (sy_mgr s)) name = Some m \<and>
      st' = fst (et_delete et (revision_ready_path rt name (cv_node_id c)) st) \<and>
      committed rv s s' (unique_shard_key ` set (unique_shards m)))"
proof (cases "parse_index_name_from_commit_key rt k = ''''")
  case True
  with assms(3) show ?thesis by (simp add: handle_commit_event_def)
next
  case False
  then have "prefix (revision_commit_path_prefix rt) k" unfolding parse_index_name_from_commit_key_def Let_def by (simp split: if_splits)
  with assms(2) False obtain name rv where k: "k = revision_commit_path rt name" "slashless name" "dec_revision cd v = Some rv"
    by (auto simp: justified_def parse_ready_path)
  then have "parse_index_name_from_commit_key rt k = name" by (simp add: parse_commit_path slashless_def)
  with False k(3) assms(3) have ci: "commit_index et rt (Some c) name rv s st = Ret (s', st')"
    by (simp add: handle_commit_event_def Let_def)
  show ?thesis
  proof (cases "sm_load (im_manifests (sy_mgr s)) name")
    case None
    with ci show ?thesis by (simp add: commit_index_def)
  next
    case (Some m)
    from commit_index_ok [OF assms(1) Some, of et rt "Some c" rv st] ci k Some show ?thesis by auto
  qed
qed

text \<open>A shard of a node with manifests \<open>mans\<close> has its revision from a commit key of its own index.\<close>

definition activated ::
    "'v codec \<Rightarrow> string \<Rightarrow> (string \<times> 'v) set \<Rightarrow> (string, index_manifest) smap \<Rightarrow> string \<Rightarrow> int \<Rightarrow> bool" where
  "activated cd rt seen mans key rv \<longleftrightarrow>
     (\<exists>name m v. sm_load mans name = Some m \<and> key \<in> unique_shard_key ` set (unique_shards m) \<and> slashless name \<and>
        (revision_commit_path rt name, v) \<in> seen \<and> dec_revision cd v = Some rv)"

lemma activated_mono: "activated cd rt seen mans key rv \<Longrightarrow> seen \<subseteq> seen' \<Longrightarrow> activated cd rt seen' mans key rv"
  unfolding activated_def by blast

text \<open>How far a node's serving has moved between two states of the net.\<close>

definition moved :: "'v codec \<Rightarrow> string \<Rightarrow> (string \<times> 'v) set \<Rightarrow> sys \<Rightarrow> sys \<Rightarrow> bool" where
  "moved cd rt seen s s' \<longleftrightarrow> im_manifests (sy_mgr s') = im_manifests (sy_mgr s) \<and>
     (\<forall>k. served s' k = served s k \<or>
       (\<exists>rv d. served s' k = Some (rv, d) \<and> activated cd rt seen (im_manifests (sy_mgr s)) k rv))"

lemma moved_refl: "moved cd rt seen s s"
  by (simp add: moved_def)

lemma moved_trans:
  assumes "moved cd rt seen s s1" "moved cd rt seen' s1 s2" "seen \<subseteq> seen'"
  shows "moved cd rt seen' s s2"
  using assms activated_mono [OF _ assms(3)] unfolding moved_def by metis

lemma committed_served:
  assumes "committed rv s s' ks"
  shows "served s' k = served s k \<or> k \<in> ks \<and> (\<exists>d. served s' k = Some (rv, d))"
  using assms by (auto simp: committed_def staged_at_def)

lemma committed_moved:
  assumes "committed rv s s' ks" "\<And>k. k \<in> ks \<Longrightarrow> activated cd rt seen (im_manifests (sy_mgr s)) k rv"
  shows "sys_ok s'" "im_manifests (sy_mgr s') = im_manifests (sy_mgr s)" "moved cd rt seen s s'"
proof -
  show ok: "sys_ok s'" "im_manifests (sy_mgr s') = im_manifests (sy_mgr s)"
    using assms(1) by (simp_all add: committed_def)
  have "served s' k = served s k \<or>
      (\<exists>rv d. served s' k = Some (rv, d) \<and> activated cd rt seen (im_manifests (sy_mgr s)) k rv)" for k
    using committed_served [OF assms(1), of k] assms(2) [of k] by auto
  with ok(2) show "moved cd rt seen s s'" by (simp add: moved_def)
qed

lemma observe_simps [simp]:
  "nt_node (observe contents c) = nt_node c" "nt_store (observe contents c) = nt_store c"
  "nt_seen c \<subseteq> nt_seen (observe contents c)" "nt_staged c \<subseteq> nt_staged (observe contents c)"
  by (auto simp: observe_def)

context kv_store
begin

lemma net_step_inv:
  assumes codec: "codec_ok cd" and inv: "net_inv cd contents inv rt views owners c"
    and step: "net_step cd et contents rt views c c'"
  shows "net_inv cd contents inv rt views owners c' \<and> nt_seen c \<subseteq> nt_seen c' \<and>
    (\<forall>n. moved cd rt (nt_seen c) (nt_node c n) (nt_node c' n))"
proof -
  have ok: "nodes_ok views owners c" "inv (nt_store c)" using inv by (simp_all add: net_inv_def)
  have sj: "store_justified cd contents rt owners (nt_staged c) (nt_store c)"
    using inv by (simp add: net_inv_def store_justified_def)
  show ?thesis
  proof (cases rule: net_stepE [OF step, case_names reload deliver expire])
    case (reload n cv key fx name w w' s' st' e)
    note nd = nodes_okD [OF ok(1) reload(2)]
    let ?c = "c\<lparr>nt_node := (nt_node c)(n := s'), nt_store := st'\<rparr>"
    obtain lease where lease: "cv_lease cv = Some lease" using nd(3) by blast
    have fire: "sys_ok s' \<and> served s' = served (nt_node c n) \<and> im_manifests (sy_mgr s') = im_manifests (sy_mgr (nt_node c n)) \<and>
        (st' = nt_store c \<or> (\<exists>r e'. signal_ready cd et rt (Some cv) s' name r (nt_store c) = Ret (st', e')))"
      using fire_reload_staging [OF nd(4) reload(3,4) lease, where cd = cd and et = et and rt = rt and w = w and w' = w' and st = "nt_store c"]
        reload(5) by auto
    have sub: "nt_staged c \<subseteq> nt_staged (observe contents ?c)" by (auto simp: observe_def)
    have sj': "store_justified cd contents rt owners (nt_staged (observe contents ?c)) (nt_store c)"
      by (rule store_justified_mono [OF sj sub])
    have st: "inv st' \<and> store_justified cd contents rt owners (nt_staged (observe contents ?c)) st'"
    proof (cases "st' = nt_store c")
      case True
      with ok(2) sj' show ?thesis by simp
    next
      case False
      with fire obtain r e' where sig: "signal_ready cd et rt (Some cv) s' name r (nt_store c) = Ret (st', e')" by blast
      have o: "os = [] \<or> set os = owners name" if "nodes_owning_index (Some cv) s' name = Ret os" for os
        using nd(6) that nodes_owning_cong [of s' "nt_node c n"] fire by metis
      show ?thesis
        by (rule signal_justified [OF codec ok(2) sj' _ _ _ o _ sig])
          (use fire nd in \<open>auto simp: observe_def\<close>)
    qed
    have "nodes_ok views owners ?c" using nodes_ok_update [OF ok(1)] fire by blast
    with net_inv_observe [OF inv _ this] st have "net_inv cd contents inv rt views owners c'" using reload(1) by blast
    moreover have "moved cd rt (nt_seen c) (nt_node c m) (nt_node c' m)" for m
      using fire reload(1) by (simp add: moved_def)
    moreover have "nt_seen c \<subseteq> nt_seen c'" using reload(1) by (auto simp: observe_def)
    ultimately show ?thesis by blast
  next
    case (deliver n cv k v b s' st')
    note nd = nodes_okD [OF ok(1) deliver(2)]
    let ?c = "c\<lparr>nt_node := (nt_node c)(n := s'), nt_store := st'\<rparr>"
    have j: "justified cd rt owners (nt_staged c) (k, v)" if "prefix (revision_commit_path_prefix rt) k"
      using inv deliver(3) that by (simp add: net_inv_def)
    have out: "sys_ok s' \<and> im_manifests (sy_mgr s') = im_manifests (sy_mgr (nt_node c n)) \<and>
        (st' = nt_store c \<or> (\<exists>k. st' = fst (et_delete et k (nt_store c)))) \<and>
        moved cd rt (nt_seen c) (nt_node c n) s'"
    proof (rule disjE [OF deliver_outcome [OF nd(4) _ deliver(4)]]; (elim exE conjE)?)
      show "justified cd rt owners (nt_staged c) (k, v)" if "prefix (revision_commit_path_prefix rt) k"
        using j that .
    next
      assume "s' = nt_node c n" "st' = nt_store c"
      with nd(4) show ?thesis by (simp add: moved_refl)
    next
      fix name rv m
      assume a: "k = revision_commit_path rt name" "slashless name" "dec_revision cd v = Some rv"
        "sm_load (im_manifests (sy_mgr (nt_node c n))) name = Some m"
        "st' = fst (et_delete et (revision_ready_path rt name (cv_node_id cv)) (nt_store c))"
        "committed rv (nt_node c n) s' (unique_shard_key ` set (unique_shards m))"
      have "activated cd rt (nt_seen c) (im_manifests (sy_mgr (nt_node c n))) key rv"
        if "key \<in> unique_shard_key ` set (unique_shards m)" for key
        using a(1-4) deliver(3) that unfolding activated_def by blast
      from committed_moved [OF a(6) this] a(5) show ?thesis by blast
    qed
    have st: "inv st'" "store_justified cd contents rt owners (nt_staged c) st'"
      using out ok(2) sj delete_inv delete_contents unfolding store_justified_def by blast+
    have "nt_staged c \<subseteq> nt_staged (observe contents ?c)" by (auto simp: observe_def)
    note sj' = store_justified_mono [OF st(2) this]
    have "nodes_ok views owners ?c" using nodes_ok_update [OF ok(1)] out by blast
    with net_inv_observe [OF inv st(1) this] sj' have "net_inv cd contents inv rt views owners c'" using deliver(1) by blast
    moreover have "nt_seen c \<subseteq> nt_seen c'" using deliver(1) by (auto simp: observe_def)
    ultimately show ?thesis using out deliver(1) by (simp add: moved_refl)
  next
    case (expire name n st' e)
    have d: "st' = fst (et_delete et (revision_ready_path rt name n) (nt_store c))" using expire(2) by simp
    let ?c = "c\<lparr>nt_node := nt_node c, nt_store := st'\<rparr>"
    have st: "inv st'" "store_justified cd contents rt owners (nt_staged c) st'"
      using d ok(2) sj delete_inv delete_contents unfolding store_justified_def by blast+
    have "nt_staged c \<subseteq> nt_staged (observe contents ?c)" by (auto simp: observe_def)
    note sj' = store_justified_mono [OF st(2) this]
    have "nodes_ok views owners ?c" using ok(1) by (simp add: nodes_ok_def)
    with net_inv_observe [OF inv st(1) this] sj' have "net_inv cd contents inv rt views owners c'" using expire(1) by simp
    moreover have "nt_seen c \<subseteq> nt_seen c'" using expire(1) by (auto simp: observe_def)
    ultimately show ?thesis using expire(1) by (simp add: moved_refl)
  qed
qed

end


context kv_store
begin

lemma net_reach_inv:
  assumes codec: "codec_ok cd" and inv0: "net_inv cd contents inv rt views owners c0"
    and "net_reach cd et contents rt views c0 c"
  shows "net_inv cd contents inv rt views owners c \<and> nt_seen c0 \<subseteq> nt_seen c \<and>
    (\<forall>n. moved cd rt (nt_seen c) (nt_node c0 n) (nt_node c n))"
  using assms(3)
proof (induction rule: net_reach.induct)
  case init
  with inv0 show ?case by (simp add: moved_refl)
next
  case (next_step c c')
  then have inv: "net_inv cd contents inv rt views owners c" by blast
  have st: "net_inv cd contents inv rt views owners c'" "nt_seen c \<subseteq> nt_seen c'"
    "moved cd rt (nt_seen c) (nt_node c n) (nt_node c' n)" for n
    using net_step_inv [OF codec inv next_step.hyps(2)] by blast+
  have "moved cd rt (nt_seen c') (nt_node c0 n) (nt_node c' n)" for n
  proof (rule moved_trans [OF _ _ subset_refl])
    show "moved cd rt (nt_seen c') (nt_node c0 n) (nt_node c n)"
      using next_step.IH moved_trans [OF _ moved_refl st(2)] by blast
    show "moved cd rt (nt_seen c') (nt_node c n) (nt_node c' n)"
      using moved_trans [OF st(3) moved_refl st(2)] .
  qed
  with st next_step.IH show ?case by blast
qed

end

text \<open>The history of stagings is about states that were reached.\<close>

lemma staged_history:
  assumes "net_reach cd et contents rt views c0 c" "(name, n, rv) \<in> nt_staged c" "(name, n, rv) \<notin> nt_staged c0"
  shows "\<exists>c1. net_reach cd et contents rt views c0 c1 \<and> net_reach cd et contents rt views c1 c \<and> node_staged (nt_node c1 n) name rv"
  using assms
proof (induction rule: net_reach.induct)
  case init
  then show ?case by blast
next
  case (next_step c c')
  show ?case
  proof (cases "(name, n, rv) \<in> nt_staged c")
    case True
    with next_step show ?thesis using net_reach.next_step by blast
  next
    case False
    from next_step.hyps(2) False next_step.prems(1) have "node_staged (nt_node c' n) name rv"
      by (cases rule: net_step.cases) (auto simp: observe_def)
    moreover have "net_reach cd et contents rt views c0 c'" using next_step.hyps by (rule net_reach.next_step)
    ultimately show ?thesis using net_reach.init by blast
  qed
qed

section \<open>Properties\<close>

text \<open>C1: No node activates a revision by itself.  In a cluster whose nodes agree on the owners of every index, whatever reloads
  fire, whatever commit keys are delivered, early or late, and whatever ready keys expire, in any order: a shard that serves a revision it did not serve at the
  start got it from a commit key of its own index, and before that every owner of the index had been in a state where all
  the FAISS shards of the index it serves were staged at that revision.\<close>

theorem activation_needs_all_owners:
  assumes "kv_store et contents st_ok" "codec_ok cd" "st_ok (nt_store c0)" "nodes_ok views owners c0"
    and "nt_seen c0 = {(k, v). contents (nt_store c0) k = Some v}" "nt_staged c0 = {}"
    and "\<And>k. prefix (revision_commit_path_prefix rt) k \<Longrightarrow> contents (nt_store c0) k = None"
    and "net_reach cd et contents rt views c0 c"
    and "served (nt_node c n) key = Some (rv, d)" "served (nt_node c0 n) key \<noteq> Some (rv, d)" "rv \<noteq> 0"
  shows "\<exists>name m v. sm_load (im_manifests (sy_mgr (nt_node c0 n))) name = Some m \<and>
    key \<in> unique_shard_key ` set (unique_shards m) \<and>
    (revision_commit_path rt name, v) \<in> nt_seen c \<and> dec_revision cd v = Some rv \<and>
    (\<forall>n' \<in> owners name. \<exists>c1. net_reach cd et contents rt views c0 c1 \<and> net_reach cd et contents rt views c1 c \<and>
       node_staged (nt_node c1 n') name rv)"
proof -
  have inv0: "net_inv cd contents st_ok rt views owners c0"
    using assms(3-5,7) by (auto simp: net_inv_def)
  note r = kv_store.net_reach_inv [OF assms(1,2) inv0 assms(8)]
  have "activated cd rt (nt_seen c) (im_manifests (sy_mgr (nt_node c0 n))) key rv"
  proof -
    have "served (nt_node c n) key = served (nt_node c0 n) key \<or> (\<exists>rv d. served (nt_node c n) key = Some (rv, d) \<and>
        activated cd rt (nt_seen c) (im_manifests (sy_mgr (nt_node c0 n))) key rv)"
      using r by (simp add: moved_def)
    with assms(9,10) show ?thesis by auto
  qed
  then obtain name m v where a: "sm_load (im_manifests (sy_mgr (nt_node c0 n))) name = Some m"
    "key \<in> unique_shard_key ` set (unique_shards m)" "slashless name"
    "(revision_commit_path rt name, v) \<in> nt_seen c" "dec_revision cd v = Some rv"
    unfolding activated_def by blast
  have "justified cd rt owners (nt_staged c) (revision_commit_path rt name, v)"
    using r a(4) revision_paths(2) by (auto simp: net_inv_def)
  then have "\<forall>n' \<in> owners name. (name, n', rv) \<in> nt_staged c"
    by (rule justified_commit [OF _ a(3,5) assms(11)])
  then have h: "\<exists>c1. net_reach cd et contents rt views c0 c1 \<and> net_reach cd et contents rt views c1 c \<and>
      node_staged (nt_node c1 n') name rv" if "n' \<in> owners name" for n'
    using staged_history [OF assms(8), of name n' rv] assms(6) that by simp
  show ?thesis
    by (rule exI [of _ name], rule exI [of _ m], rule exI [of _ v]) (use a(1,2,4,5) h in simp)
qed


section \<open>Witnesses\<close>

text \<open>A cluster of one node that has staged one shard; a store without a server around it.\<close>

definition ex_net_codec :: "((node_meta + node_load) + int) codec" where
  "ex_net_codec = \<lparr>enc_meta = (\<lambda>m. Inl (Inl m)), dec_meta = (\<lambda>v. case v of Inl (Inl m) \<Rightarrow> Some m | _ \<Rightarrow> None),
     enc_load = (\<lambda>l. Inl (Inr l)), dec_load = (\<lambda>v. case v of Inl (Inr l) \<Rightarrow> Some l | _ \<Rightarrow> None),
     enc_revision = Inr, dec_revision = (\<lambda>v. case v of Inr r \<Rightarrow> Some r | _ \<Rightarrow> None), dec_manifest = (\<lambda>v. None)\<rparr>"

definition ex_net_store :: "((string, 'v) smap, 'v) etcd_ops" where
  "ex_net_store = \<lparr>et_get = (\<lambda>k e. Inr (filter (\<lambda>(k', v). k' = k) e)), et_get_prefix = (\<lambda>p e. Inr (filter (\<lambda>(k, v). prefix p k) e)),
     et_put = (\<lambda>k v l e. (sm_store k v e, None)), et_delete = (\<lambda>k e. (sm_delete k e, None))\<rparr>"

definition ex_net_views :: "string \<Rightarrow> cluster_view option" where
  "ex_net_views n = (if n = ''n1'' then Some (ex_view True) else None)"

definition ex_net :: "((string, (node_meta + node_load) + int) smap, (node_meta + node_load) + int) net" where
  "ex_net = \<lparr>nt_store = [], nt_node = (\<lambda>n. ex_csys True), nt_seen = {}, nt_staged = {}\<rparr>"

lemma ex_net_kv: "kv_store ex_net_store sm_load sm_wf"
proof unfold_locales
  fix st :: "(string, 'v) smap" and p kvs
  assume "sm_wf st" "et_get_prefix ex_net_store p st = Inr kvs"
  then show "distinct (map fst kvs) \<and> map_of kvs = (\<lambda>k. if prefix p k then sm_load st k else None)"
    by (auto simp: ex_net_store_def sm_wf_def distinct_filter_keys map_of_filter_key sm_load_def)
next
  fix k :: string and st kvs :: "(string, 'v) smap"
  assume "et_get ex_net_store k st = Inr kvs"
  then show "map_of kvs k = sm_load st k"
    using map_of_filter_key [of "\<lambda>k'. k' = k" st k] by (auto simp: ex_net_store_def sm_load_def)
qed (auto simp: ex_net_store_def fun_eq_iff)

lemma ex_net_nodes: "nodes_ok ex_net_views (\<lambda>name. {''n1''}) ex_net"
proof -
  have "nodes_owning_index (Some (ex_view True)) (ex_csys True) ''docs'' = Ret [''n1'']"
    by (simp add: nodes_owning_index_def ex_csys_manifest generate_shards_def ex_manifest_def wrap32_def ex_view_def upto.simps)
  moreover have m: "sm_load (im_manifests (sy_mgr (ex_csys True))) name = (if name = ''docs'' then Some ex_manifest else None)" for name
    by (simp add: ex_csys_def sm_load_Cons)
  moreover have "nodes_owning_index (Some (ex_view True)) (ex_csys True) name = Ret []" if "name \<noteq> ''docs''" for name
    using m that by (simp add: nodes_owning_index_def)
  ultimately have "nodes_owning_index (Some (ex_view True)) (ex_csys True) name = Ret os \<longrightarrow> os = [] \<or> set os = {''n1''}" for name os
    by (cases "name = ''docs''") auto
  moreover have "cv_node_id (ex_view True) = ''n1''" "slashless ''n1''" "slashless ''docs''"
    by (simp_all add: ex_view_def slashless_def)
  ultimately show ?thesis
    using ex_csys_ok m ex_view_lease by (auto simp: nodes_ok_def ex_net_views_def ex_net_def split: if_splits)
qed

lemma ex_net_run:
  "\<exists>c d. net_reach ex_net_codec ex_net_store sm_load ''/v'' ex_net_views ex_net c \<and>
     served (nt_node c ''n1'') ''docs:0'' = Some (5, d)"
proof -
  let ?key = "revision_commit_path ''/v'' ''docs''"
  let ?ev = "\<lparr>ev_type = PutEvent, ev_create = True, ev_key = ?key, ev_value = Inr 5\<rparr> :: ((node_meta + node_load) + int) event"
  let ?fire = "fire_reload ex_net_codec ex_net_store ''/v'' (Some (ex_view True)) (ex_world ''5'') (ex_world ''5'') ''docs:0'' (ex_csys True) []"
  have five: "(case x of Some (Inr r) \<Rightarrow> r = 5 | _ \<Rightarrow> False) \<longleftrightarrow> x = Some (Inr 5)" for x :: "((node_meta + node_load) + int) option"
    by (cases x; cases "the x") auto
  have "case ?fire of Panic p \<Rightarrow> False | Ret (s1, st1, e) \<Rightarrow>
      (case sm_load st1 ?key of Some (Inr r) \<Rightarrow> r = 5 | _ \<Rightarrow> False) \<and>
      (case handle_commit_event ex_net_codec ex_net_store ''/v'' (Some (ex_view True)) ?ev s1 st1 of Panic p \<Rightarrow> False
       | Ret (s2, st2) \<Rightarrow> (case served s2 ''docs:0'' of None \<Rightarrow> False | Some (r, d) \<Rightarrow> r = 5))"
    by code_simp
  then obtain s1 st1 e s2 st2 d where
    1: "?fire = Ret (s1, st1, e)" "sm_load st1 ?key = Some (Inr 5)" and
    2: "handle_commit_event ex_net_codec ex_net_store ''/v'' (Some (ex_view True)) ?ev s1 st1 = Ret (s2, st2)"
      "served s2 ''docs:0'' = Some (5, d)"
    unfolding five by (auto split: run.splits option.splits prod.splits)
  let ?c1 = "observe sm_load (ex_net\<lparr>nt_node := (nt_node ex_net)(''n1'' := s1), nt_store := st1\<rparr>)"
  let ?c2 = "observe sm_load (?c1\<lparr>nt_node := (nt_node ?c1)(''n1'' := s2), nt_store := st2\<rparr>)"
  have v: "ex_net_views ''n1'' = Some (ex_view True)" by (simp add: ex_net_views_def)
  have s1: "net_step ex_net_codec ex_net_store sm_load ''/v'' ex_net_views ex_net ?c1"
    by (rule net_step.reload [where n = "''n1''" and cv = "ex_view True" and key = "''docs:0''" and fx = "ex_gx True" and name = "''docs''"
        and w = "ex_world ''5''" and w' = "ex_world ''5''" and e = e])
      (use v 1(1) ex_csys_engine [of True] ex_gx_simps(2) in \<open>simp_all add: ex_net_def\<close>)
  have s2: "net_step ex_net_codec ex_net_store sm_load ''/v'' ex_net_views ?c1 ?c2"
    by (rule net_step.deliver [where n = "''n1''" and cv = "ex_view True" and k = ?key and v = "Inr 5" and b = True])
      (use v 1(2) 2(1) in \<open>simp_all add: observe_def\<close>)
  have "net_reach ex_net_codec ex_net_store sm_load ''/v'' ex_net_views ex_net ?c2"
    by (rule net_reach.next_step [OF net_reach.next_step [OF net_reach.init s1] s2])
  moreover have "served (nt_node ?c2 ''n1'') ''docs:0'' = Some (5, d)" using 2(2) by simp
  ultimately show ?thesis by blast
qed

theorem activation_needs_all_owners_witness:
  "\<exists>c c1 d. net_reach ex_net_codec ex_net_store sm_load ''/v'' ex_net_views ex_net c1 \<and>
     net_reach ex_net_codec ex_net_store sm_load ''/v'' ex_net_views c1 c \<and>
     served (nt_node c ''n1'') ''docs:0'' = Some (5, d) \<and> (\<exists>name. node_staged (nt_node c1 ''n1'') name 5)"
proof -
  obtain c d where c: "net_reach ex_net_codec ex_net_store sm_load ''/v'' ex_net_views ex_net c"
    "served (nt_node c ''n1'') ''docs:0'' = Some (5, d)" using ex_net_run by blast
  have cd: "codec_ok ex_net_codec" by (simp add: codec_ok_def ex_net_codec_def)
  have i: "sm_wf (nt_store ex_net)" "nt_seen ex_net = {(k, v). sm_load (nt_store ex_net) k = Some v}" "nt_staged ex_net = {}"
    "sm_load (nt_store ex_net) k = None" for k
    by (simp_all add: ex_net_def sm_wf_def)
  have "served (nt_node ex_net ''n1'') ''docs:0'' \<noteq> Some (5, d)" by (simp add: ex_net_def ex_csys_views)
  from activation_needs_all_owners [OF ex_net_kv cd i(1) ex_net_nodes i(2,3) i(4) c this] c show ?thesis by auto
qed

end
