(* ===== verification/Atomic_Commit.thy ===== *)
theory Atomic_Commit
  imports Protocol
begin

text \<open>
  The specification of the activation of revisions, and that the nodes keep it.  The specification knows no
  keys of etcd and no handles: nodes prepare a revision of an index, a revision that all owners have prepared is
  decided, and a node activates decided revisions only.  Every step of \<open>Protocol\<close> is a sequence of its steps.
\<close>

section \<open>The specification\<close>

record commit_spec =
  ac_prepared :: "(string \<times> string \<times> int) set"
  ac_decided :: "(string \<times> int) set"
  ac_active :: "string \<Rightarrow> string \<Rightarrow> int option"

inductive ac_step ::
    "(string \<Rightarrow> string set) \<Rightarrow> (string \<Rightarrow> string \<Rightarrow> string set) \<Rightarrow> commit_spec \<Rightarrow> commit_spec \<Rightarrow> bool"
  for owners shards where
  prepare: "ac_step owners shards a (a\<lparr>ac_prepared := ac_prepared a \<union> ps\<rparr>)"
| decide: "\<forall>(name, rv) \<in> ds. \<forall>n \<in> owners name. (name, n, rv) \<in> ac_prepared a \<Longrightarrow>
    ac_step owners shards a (a\<lparr>ac_decided := ac_decided a \<union> ds\<rparr>)"
| activate: "(\<And>n key. act n key \<noteq> ac_active a n key \<Longrightarrow>
      \<exists>name rv. (name, rv) \<in> ac_decided a \<and> key \<in> shards n name \<and> act n key = Some rv) \<Longrightarrow>
    ac_step owners shards a (a\<lparr>ac_active := act\<rparr>)"

inductive_simps ac_step_simps: "ac_step owners shards a b"

text \<open>What the specification promises by itself: decided revisions were prepared by all owners, and stay so.\<close>

definition ac_agreed :: "(string \<Rightarrow> string set) \<Rightarrow> commit_spec \<Rightarrow> bool" where
  "ac_agreed owners a \<longleftrightarrow> (\<forall>(name, rv) \<in> ac_decided a. \<forall>n \<in> owners name. (name, n, rv) \<in> ac_prepared a)"

lemma ac_step_agreed: "ac_step owners shards a b \<Longrightarrow> ac_agreed owners a \<Longrightarrow> ac_agreed owners b"
  unfolding ac_step_simps ac_agreed_def by (elim disjE exE conjE) force+

lemma ac_steps_agreed: "(ac_step owners shards)\<^sup>*\<^sup>* a b \<Longrightarrow> ac_agreed owners a \<Longrightarrow> ac_agreed owners b"
  by (induction rule: rtranclp_induct) (auto intro: ac_step_agreed)

section \<open>The abstraction\<close>

text \<open>
  A revision counts as decided once its commit key has been in the store.  Revision zero is what an empty
  staging reports: it counts as prepared everywhere.
\<close>

definition abs_of :: "'v codec \<Rightarrow> string \<Rightarrow> ('e, 'v) net \<Rightarrow> commit_spec" where
  "abs_of cd rt c =
     \<lparr>ac_prepared = nt_staged c \<union> {(name, n, rv). rv = 0},
      ac_decided = {(name, rv). slashless name \<and>
        (\<exists>v. (revision_commit_path rt name, v) \<in> nt_seen c \<and> dec_revision cd v = Some rv)},
      ac_active = (\<lambda>n key. map_option fst (served (nt_node c n) key))\<rparr>"

definition shards_of :: "('e, 'v) net \<Rightarrow> string \<Rightarrow> string \<Rightarrow> string set" where
  "shards_of c n name =
     (case sm_load (im_manifests (sy_mgr (nt_node c n))) name of
       None \<Rightarrow> {} | Some m \<Rightarrow> unique_shard_key ` set (unique_shards m))"

lemma abs_agreed:
  assumes "net_inv cd contents st_ok rt views owners c"
  shows "ac_agreed owners (abs_of cd rt c)"
proof -
  have "rv = 0 \<or> (name, n, rv) \<in> nt_staged c"
    if "slashless name" "(revision_commit_path rt name, v) \<in> nt_seen c" "dec_revision cd v = Some rv" "n \<in> owners name"
    for name rv v n
  proof -
    have "justified cd rt owners (nt_staged c) (revision_commit_path rt name, v)"
      using assms that(2) revision_paths(2) unfolding net_inv_def by blast
    then show ?thesis using justified_commit [OF _ that(1,3)] that(4) by blast
  qed
  then show ?thesis by (auto simp: ac_agreed_def abs_of_def)
qed

lemma net_step_staged: "net_step cd et contents rt views c c' \<Longrightarrow> nt_staged c \<subseteq> nt_staged c'"
  by (cases rule: net_step.cases) (auto simp: observe_def)

lemma two_steps: "r x y \<Longrightarrow> r y z \<Longrightarrow> r\<^sup>*\<^sup>* x z"
  by (rule rtranclp.rtrancl_into_rtrancl [OF r_into_rtranclp])

text \<open>From one state to another that the invariant, the history and the serving relate: prepare, decide, activate.\<close>

lemma abs_steps:
  assumes inv: "net_inv cd contents st_ok rt views owners c'" and st: "nt_staged c \<subseteq> nt_staged c'"
    and sn: "nt_seen c \<subseteq> nt_seen c'" and mv: "\<And>n. moved cd rt (nt_seen c) (nt_node c n) (nt_node c' n)"
  shows "(ac_step owners (shards_of c))\<^sup>*\<^sup>* (abs_of cd rt c) (abs_of cd rt c')"
proof -
  let ?a = "abs_of cd rt c" and ?b = "abs_of cd rt c'"
  let ?a1 = "?a\<lparr>ac_prepared := ac_prepared ?a \<union> ac_prepared ?b\<rparr>"
  let ?a2 = "?a1\<lparr>ac_decided := ac_decided ?a1 \<union> ac_decided ?b\<rparr>"
  let ?a3 = "?a2\<lparr>ac_active := ac_active ?b\<rparr>"
  have s1: "ac_step owners (shards_of c) ?a ?a1" by (rule ac_step.prepare)
  have s2: "ac_step owners (shards_of c) ?a1 ?a2"
    using abs_agreed [OF inv] by (intro ac_step.decide) (auto simp: ac_agreed_def)
  have s3: "ac_step owners (shards_of c) ?a2 ?a3"
  proof (rule ac_step.activate)
    fix n key assume "ac_active ?b n key \<noteq> ac_active ?a2 n key"
    then have "served (nt_node c' n) key \<noteq> served (nt_node c n) key" by (auto simp: abs_of_def)
    with mv [of n] obtain rv d where d: "served (nt_node c' n) key = Some (rv, d)"
      "activated cd rt (nt_seen c) (im_manifests (sy_mgr (nt_node c n))) key rv"
      unfolding moved_def by blast
    from d(2) obtain name m v where "sm_load (im_manifests (sy_mgr (nt_node c n))) name = Some m"
      "key \<in> unique_shard_key ` set (unique_shards m)" "slashless name" "(revision_commit_path rt name, v) \<in> nt_seen c"
      "dec_revision cd v = Some rv" unfolding activated_def by blast
    then have "(name, rv) \<in> ac_decided ?a2" "key \<in> shards_of c n name" by (auto simp: abs_of_def shards_of_def)
    moreover have "ac_active ?b n key = Some rv" using d(1) by (simp add: abs_of_def)
    ultimately show "\<exists>name rv. (name, rv) \<in> ac_decided ?a2 \<and> key \<in> shards_of c n name \<and> ac_active ?b n key = Some rv"
      by blast
  qed
  have "?a3 = ?b" using st sn by (auto simp: abs_of_def)
  have "(ac_step owners (shards_of c))\<^sup>*\<^sup>* ?a ?a2" using s1 s2 by (rule two_steps)
  then have "(ac_step owners (shards_of c))\<^sup>*\<^sup>* ?a ?a3" using s3 by (rule rtranclp.rtrancl_into_rtrancl)
  with \<open>?a3 = ?b\<close> show ?thesis by (simp only:)
qed

lemma shards_of_moved: "(\<And>n. moved cd rt seen (nt_node c n) (nt_node c' n)) \<Longrightarrow> shards_of c' = shards_of c"
  by (intro ext) (simp add: shards_of_def moved_def)

context kv_store
begin

lemma net_reach_refines:
  assumes codec: "codec_ok cd" and inv0: "net_inv cd contents inv rt views owners c0"
    and "net_reach cd et contents rt views c0 c"
  shows "(ac_step owners (shards_of c0))\<^sup>*\<^sup>* (abs_of cd rt c0) (abs_of cd rt c)"
  using assms(3)
proof (induction rule: net_reach.induct)
  case init
  then show ?case by simp
next
  case (next_step c c')
  note r = net_reach_inv [OF codec inv0 next_step.hyps(1)]
  then have inv: "net_inv cd contents inv rt views owners c" by blast
  note s = net_step_inv [OF codec inv next_step.hyps(2)]
  have "shards_of c = shards_of c0" by (rule shards_of_moved) (use r in blast)
  moreover have "(ac_step owners (shards_of c))\<^sup>*\<^sup>* (abs_of cd rt c) (abs_of cd rt c')"
    by (rule abs_steps) (use s net_step_staged [OF next_step.hyps(2)] in blast)+
  ultimately show ?case using next_step.IH by (metis rtranclp_trans)
qed

lemma last_signal:
  assumes codec: "codec_ok cd" and st: "inv st" and s: "sys_ok s" "sm_load (im_manifests (sy_mgr s)) name \<noteq> None"
    and never: "\<And>k v l st. snd (et_put et k v l st) = None" "\<And>p st. \<exists>kvs. et_get_prefix et p st = Inr kvs"
    and keys: "\<And>k v. contents st k = Some v \<Longrightarrow> prefix (revision_ready_path_prefix rt name) k \<Longrightarrow>
      \<exists>n. k = revision_ready_path rt name n \<and> slashless n"
    and c: "cv_lease c = Some lease" "slashless (cv_node_id c)"
    and os: "nodes_owning_index (Some c) s name = Ret os" "os \<noteq> []"
    and staged: "rv \<noteq> 0" "node_staged s name rv"
    and others: "\<And>n. n \<in> set os \<Longrightarrow> n \<noteq> cv_node_id c \<Longrightarrow>
      \<exists>v. contents st (revision_ready_path rt name n) = Some v \<and> dec_revision cd v = Some rv \<and> slashless n"
  shows "\<exists>st'. signal_ready cd et rt (Some c) s name rv st = Ret (st', None) \<and>
    contents st' (revision_commit_path rt name) = Some (enc_revision cd rv)"
proof -
  let ?me = "revision_ready_path rt name (cv_node_id c)"
  obtain m where m: "sm_load (im_manifests (sy_mgr s)) name = Some m" using s(2) by blast
  then have us: "generate_unique_shards m = Ret (unique_shards m)"
    using s(1) generate_unique_shards_eq [of m] by (auto simp: sys_ok_def manifests_ok_def)
  have ready: "\<not> list_ex (not_staged_at s rv) (unique_shards m)"
    using staged not_staged_at_iff [OF s(1) staged(1)] m by (auto simp: node_staged_def list_ex_iff)
  obtain st1 where st1: "et_put et ?me (enc_revision cd rv) (Some lease) st = (st1, None)"
    using never(1) [of ?me "enc_revision cd rv" "Some lease" st] by (cases "et_put et ?me (enc_revision cd rv) (Some lease) st") simp
  have ct1: "contents st1 = (contents st)(?me \<mapsto> enc_revision cd rv)" by (rule put_ok [OF st1])
  have i1: "inv st1" using put_inv [OF st, of ?me "enc_revision cd rv" "Some lease"] st1 by simp
  obtain kvs where kvs: "et_get_prefix et (revision_ready_path_prefix rt name) st1 = Inr kvs" using never(2) by blast
  note g = get_prefix_ok [OF i1 kvs revision_paths(4)]
  have mem: "(k, v) \<in> set kvs \<longleftrightarrow> prefix (revision_ready_path_prefix rt name) k \<and> contents st1 k = Some v" for k v
    using g map_of_eq_Some_iff [of kvs k v] by (auto split: if_splits)
  have rk: "\<exists>n. k = revision_ready_path rt name n \<and> CHR ''/'' \<notin> set n" if "(k, v) \<in> set kvs" for k v
    using that keys [of k v] c(2) mem [of k v] by (cases "k = ?me") (auto simp: ct1 slashless_def)
  have pre: "prefix (revision_ready_path_prefix rt name) (revision_ready_path rt name n)" for n
    by (simp add: revision_ready_path_def)
  have "sm_load (ready_nodes cd kvs) n = Some rv" if "n \<in> set os" for n
  proof -
    have "\<exists>v. contents st1 (revision_ready_path rt name n) = Some v \<and> dec_revision cd v = Some rv \<and> slashless n"
    proof (cases "n = cv_node_id c")
      case True
      then show ?thesis using ct1 codec_okD(3) [OF codec] c(2) by simp
    next
      case False
      then have "revision_ready_path rt name n \<noteq> ?me" by (simp add: revision_ready_path_def)
      then show ?thesis using others [OF that False] ct1 by simp
    qed
    then show ?thesis
      using ready_nodes_load [where kvs = kvs and rt = rt and name = name and cd = cd and n = n and r = rv] rk conjunct1 [OF g]
        mem pre by (auto simp: slashless_def)
  qed
  then have all: "list_all (\<lambda>n. sm_load (ready_nodes cd kvs) n = Some rv) os" by (simp add: list_all_iff)
  obtain st2 where st2: "et_put et (revision_commit_path rt name) (enc_revision cd rv) None st1 = (st2, None)"
    using never(1) [of "revision_commit_path rt name" "enc_revision cd rv" None st1]
    by (cases "et_put et (revision_commit_path rt name) (enc_revision cd rv) None st1") simp
  have "check_and_commit cd et rt (Some c) s name rv st1 = Ret (st2, None)"
    using os kvs all st2 by (simp add: check_and_commit_def)
  then have "signal_ready cd et rt (Some c) s name rv st = Ret (st2, None)"
    using m us ready c(1) st1 by (simp add: signal_ready_def)
  moreover have "contents st2 (revision_commit_path rt name) = Some (enc_revision cd rv)"
    using put_ok [OF st2] by simp
  ultimately show ?thesis by blast
qed

end


section \<open>Properties\<close>


section \<open>Witnesses\<close>

lemma ex_net_codec_ok: "codec_ok ex_net_codec"
  by (simp add: codec_ok_def ex_net_codec_def)


end
