(* ===== verification/Completion.thy ===== *)
theory Completion
  imports Atomic_Commit
begin

text \<open>
  That an activation can complete.  \<open>Protocol\<close> and \<open>Atomic_Commit\<close> say that nothing wrong is activated; here is
  the other half: when the last owner of an index stages the new revision, its scheduled reload alone writes the commit
  key, and delivering the key to the owners, one by one, makes every one of them serve the revision.
\<close>

definition node_serves :: "sys \<Rightarrow> string \<Rightarrow> int \<Rightarrow> bool" where
  "node_serves s name rv \<longleftrightarrow>
     (\<exists>m. sm_load (im_manifests (sy_mgr s)) name = Some m \<and>
       (\<forall>u \<in> set (unique_shards m). served s (unique_shard_key u) \<noteq> None \<longrightarrow>
          (\<exists>d. served s (unique_shard_key u) = Some (rv, d))))"

lemma net_reach_trans:
  "net_reach cd et contents rt views c1 c2 \<Longrightarrow> net_reach cd et contents rt views c0 c1 \<Longrightarrow>
   net_reach cd et contents rt views c0 c2"
  by (induction rule: net_reach.induct) (auto intro: net_reach.next_step)

lemma net_reach_step:
  "net_step cd et contents rt views c0 c1 \<Longrightarrow> net_reach cd et contents rt views c1 c2 \<Longrightarrow>
   net_reach cd et contents rt views c0 c2"
  by (rule net_reach_trans, assumption) (rule net_reach.next_step [OF net_reach.init])

text \<open>A commit of a revision at which everything is staged leaves a node that serves it.\<close>

lemma committed_serves:
  assumes "node_staged s name rv" "sm_load (im_manifests (sy_mgr s)) name = Some m"
    and "committed rv s s' (unique_shard_key ` set (unique_shards m))"
  shows "node_serves s' name rv"
proof -
  have "\<exists>d. served s' k = Some (rv, d)" if u: "u \<in> set (unique_shards m)" "k = unique_shard_key u" "served s' k \<noteq> None" for u k
  proof -
    have s': "served s' k = (if staged_at s rv k then staged_of s k else served s k)"
      using assms(3) u(1,2) unfolding committed_def by auto
    have st: "served s k \<noteq> None \<longrightarrow> staged_at s rv k"
      using assms(1,2) u(1,2) by (auto simp: node_staged_def)
    show ?thesis using s' st u(3) by (auto simp: staged_at_def)
  qed
  moreover have "sm_load (im_manifests (sy_mgr s')) name = Some m"
    using assms(2,3) by (simp add: committed_def)
  ultimately show ?thesis unfolding node_serves_def by blast
qed

text \<open>Delivering the commit key to one node, and to all the nodes of a list.\<close>

lemma deliver_one:
  assumes "views n = Some cv" "sys_ok (nt_node c n)" "node_staged (nt_node c n) name rv"
    and "name \<noteq> ''''" "slashless name" "(revision_commit_path rt name, v) \<in> nt_seen c" "dec_revision cd v = Some rv"
  shows "\<exists>c'. net_step cd et contents rt views c c' \<and> node_serves (nt_node c' n) name rv \<and>
    (\<forall>n'. n' \<noteq> n \<longrightarrow> nt_node c' n' = nt_node c n') \<and> nt_seen c \<subseteq> nt_seen c'"
proof -
  let ?ev = "\<lparr>ev_type = PutEvent, ev_create = True, ev_key = revision_commit_path rt name, ev_value = v\<rparr>"
  obtain m where m: "sm_load (im_manifests (sy_mgr (nt_node c n))) name = Some m"
    using assms(3) by (auto simp: node_staged_def)
  have e: "CHR ''/'' \<notin> set name" "ev_type ?ev = PutEvent" "ev_key ?ev = revision_commit_path rt name"
    "dec_revision cd (ev_value ?ev) = Some rv"
    using assms(5,7) by (simp_all add: slashless_def)
  from commit_event_committed [OF assms(2) m assms(4) e, of et cv "nt_store c"] obtain s' st' where
    s: "handle_commit_event cd et rt (Some cv) ?ev (nt_node c n) (nt_store c) = Ret (s', st')"
      "committed rv (nt_node c n) s' (unique_shard_key ` set (unique_shards m))" by blast
  let ?c = "observe contents (c\<lparr>nt_node := (nt_node c)(n := s'), nt_store := st'\<rparr>)"
  have "net_step cd et contents rt views c ?c"
    by (rule net_step.deliver [where n = n and cv = cv and c = c and s' = s' and st' = st']) (fact assms(1) assms(6) s(1))+
  moreover have "node_serves (nt_node ?c n) name rv"
    using committed_serves [OF assms(3) m s(2)] by simp
  moreover have "nt_seen c \<subseteq> nt_seen ?c" by (auto simp: observe_def)
  ultimately show ?thesis by (intro exI [of _ ?c]) simp
qed

lemma deliver_all:
  assumes "distinct ns" "\<And>n. n \<in> set ns \<Longrightarrow> views n \<noteq> None \<and> sys_ok (nt_node c n) \<and> node_staged (nt_node c n) name rv"
    and "name \<noteq> ''''" "slashless name" "(revision_commit_path rt name, v) \<in> nt_seen c" "dec_revision cd v = Some rv"
  shows "\<exists>c'. net_reach cd et contents rt views c c' \<and> (\<forall>n \<in> set ns. node_serves (nt_node c' n) name rv) \<and>
    (\<forall>n. n \<notin> set ns \<longrightarrow> nt_node c' n = nt_node c n)"
  using assms(1,2,5)
proof (induction ns arbitrary: c)
  case Nil
  then show ?case by (auto intro: net_reach.init)
next
  case (Cons n ns)
  obtain cv where cv: "views n = Some cv" using Cons.prems(2) [of n] by auto
  have "\<exists>c1. net_step cd et contents rt views c c1 \<and> node_serves (nt_node c1 n) name rv \<and>
      (\<forall>n'. n' \<noteq> n \<longrightarrow> nt_node c1 n' = nt_node c n') \<and> nt_seen c \<subseteq> nt_seen c1"
    by (rule deliver_one [where cv = cv and v = v]) (use cv Cons.prems assms(3,4,6) in auto)
  then obtain c1 where c1: "net_step cd et contents rt views c c1" "node_serves (nt_node c1 n) name rv"
      "\<And>n'. n' \<noteq> n \<Longrightarrow> nt_node c1 n' = nt_node c n'" "nt_seen c \<subseteq> nt_seen c1" by blast
  have "views n' \<noteq> None \<and> sys_ok (nt_node c1 n') \<and> node_staged (nt_node c1 n') name rv" if "n' \<in> set ns" for n'
  proof -
    have "n' \<noteq> n" using that Cons.prems(1) by auto
    then show ?thesis using Cons.prems(2) [of n'] that c1(3) by simp
  qed
  with Cons.IH [of c1] Cons.prems(1,3) c1(4) obtain c2 where
    c2: "net_reach cd et contents rt views c1 c2" "\<forall>n \<in> set ns. node_serves (nt_node c2 n) name rv"
      "\<And>n. n \<notin> set ns \<Longrightarrow> nt_node c2 n = nt_node c1 n" by auto
  have "node_serves (nt_node c2 n) name rv" using c2(3) [of n] c1(2) Cons.prems(1) by simp
  with c2 c1(3) show ?case using net_reach_step [OF c1(1) c2(1)] by (intro exI [of _ c2]) auto
qed

text \<open>The reload that stages the last shard writes the commit key.\<close>

lemma last_reload:
  assumes kv: "kv_store et contents st_ok" "codec_ok cd" "st_ok (nt_store c)" "nodes_ok views owners c"
    and never: "\<And>k v l st. snd (et_put et k v l st) = None" "\<And>p st. \<exists>kvs. et_get_prefix et p st = Inr kvs"
    and keys: "\<And>k v. contents (nt_store c) k = Some v \<Longrightarrow> prefix (revision_ready_path_prefix rt name) k \<Longrightarrow>
      \<exists>n. k = revision_ready_path rt name n \<and> slashless n"
    and l: "views l = Some cv" "engine (nt_node c l) key = Some (FaissIx fx)" "fx_reload_callback fx = StageAndSignal name"
    and sg: "stage_reload w w' (sy_heap (nt_node c l)) fx = Ret (h, fx', Inr rv)"
      "node_staged (store_shard key (h, fx') (nt_node c l)) name rv" "rv \<noteq> 0"
    and os: "nodes_owning_index (Some cv) (nt_node c l) name = Ret os" "os \<noteq> []"
    and others: "\<And>n. n \<in> set os \<Longrightarrow> n \<noteq> l \<Longrightarrow> views n \<noteq> None \<and>
      (\<exists>v. contents (nt_store c) (revision_ready_path rt name n) = Some v \<and> dec_revision cd v = Some rv)"
  shows "\<exists>c1. net_step cd et contents rt views c c1 \<and> nt_node c1 = (nt_node c)(l := store_shard key (h, fx') (nt_node c l)) \<and>
    sys_ok (nt_node c1 l) \<and> (revision_commit_path rt name, enc_revision cd rv) \<in> nt_seen c1"
proof -
  let ?s = "store_shard key (h, fx') (nt_node c l)"
  note nd = nodes_okD [OF kv(4) l(1)]
  obtain lease where ls: "cv_lease cv = Some lease" using nd(3) by blast
  from fire_reload_staging [OF nd(4) l(2,3) ls, of cd et rt w w' "nt_store c"] sg(1) l(2,3)
  have sok: "sys_ok ?s" and man: "im_manifests (sy_mgr ?s) = im_manifests (sy_mgr (nt_node c l))"
    by (auto simp: fire_reload_def Let_def run_map_eq_Ret store_shard_def)
  have o: "nodes_owning_index (Some cv) ?s name = Ret os" using os(1) nodes_owning_cong [OF man] by simp
  have ready: "\<exists>v. contents (nt_store c) (revision_ready_path rt name n) = Some v \<and> dec_revision cd v = Some rv \<and> slashless n"
    if "n \<in> set os" "n \<noteq> cv_node_id cv" for n
  proof -
    have "n \<noteq> l" using that(2) nd(1) by simp
    then show ?thesis using others [OF that(1)] nodes_okD(2) [OF kv(4)] by blast
  qed
  have m: "sm_load (im_manifests (sy_mgr ?s)) name \<noteq> None"
    using sg(2) by (auto simp: node_staged_def)
  have "\<exists>st'. signal_ready cd et rt (Some cv) ?s name rv (nt_store c) = Ret (st', None) \<and>
      contents st' (revision_commit_path rt name) = Some (enc_revision cd rv)"
    by (rule kv_store.last_signal [OF kv(1-3) sok m never _ ls _ o os(2) sg(3,2) ready])
      (use keys nd(1,2) in auto)
  then obtain st' where st': "signal_ready cd et rt (Some cv) ?s name rv (nt_store c) = Ret (st', None)"
    "contents st' (revision_commit_path rt name) = Some (enc_revision cd rv)" by blast
  have f: "fire_reload cd et rt (Some cv) w w' key (nt_node c l) (nt_store c) = Ret (?s, st', None)"
    using l(2,3) sg(1) st'(1) by (simp add: fire_reload_def Let_def)
  let ?c = "observe contents (c\<lparr>nt_node := (nt_node c)(l := ?s), nt_store := st'\<rparr>)"
  have "net_step cd et contents rt views c ?c"
    by (rule net_step.reload [where n = l and cv = cv and key = key and fx = fx and name = name]) (fact l f)+
  moreover have "(revision_commit_path rt name, enc_revision cd rv) \<in> nt_seen ?c"
    using st'(2) by (simp add: observe_def)
  ultimately show ?thesis using sok by (intro exI [of _ ?c]) simp
qed

section \<open>Properties\<close>


section \<open>Witness\<close>

lemma staged_result:
  "(case x of Ret (h, fx, Inr r) \<Rightarrow> P h fx r | _ \<Rightarrow> False) \<Longrightarrow> \<exists>h fx r. x = Ret (h, fx, Inr r) \<and> P h fx r"
proof (cases x)
  case (Ret y)
  then show "case x of Ret (h, fx, Inr r) \<Rightarrow> P h fx r | _ \<Rightarrow> False \<Longrightarrow> \<exists>h fx r. x = Ret (h, fx, Inr r) \<and> P h fx r"
    by (cases y; cases "snd (snd y)") auto
qed simp


end
