(* ===== verification/Metrics.thy ===== *)
theory Metrics
  imports Config "HOL-Library.Word"
begin

text \<open>
  \<open>internal/utils/monitor\<close>, the reporters of \<open>internal/utils/func_builder\<close>, the route of
  \<open>internal/http_handler\<close> and the level functions of \<open>internal/utils/logger/logger.go\<close>: what a
  node tells about itself.  Prometheus, zap, OpenTelemetry and gin are outside the repository: what they
  answer is the record \<open>metrics_lib\<close>, and what the code asks of them is a list of calls, in the order made.
\<close>

section \<open>The metrics\<close>

text \<open>The name is the triple (namespace, subsystem, name) of the options; only a histogram has buckets.\<close>

record metric_vec =
  mv_name :: "string \<times> string \<times> string"
  mv_buckets :: "rat list"
  mv_labels :: "string list"

text \<open>\<open>ml_gather\<close> is \<open>DefaultGatherer.Gather\<close>, \<open>ml_register\<close> the error \<open>MustRegister\<close> panics with when
  it does not accept a name.\<close>

record metrics_lib =
  ml_gather :: "error option"
  ml_register :: "string \<times> string \<times> string \<Rightarrow> error option"

record monitor =
  mo_done :: bool
  mo_counter :: "metric_vec option"
  mo_error_code :: "metric_vec option"
  mo_latency :: "metric_vec option"
  mo_registered :: "metric_vec list"

definition no_monitor :: monitor where
  "no_monitor = \<lparr>mo_done = False, mo_counter = None, mo_error_code = None, mo_latency = None, mo_registered = []\<rparr>"

definition counter_vec :: "string \<Rightarrow> metric_vec" where
  "counter_vec cluster = \<lparr>mv_name = (''vectory'', cluster, ''count''), mv_buckets = [], mv_labels = [''scenario'', ''key'']\<rparr>"

definition error_code_vec :: "string \<Rightarrow> metric_vec" where
  "error_code_vec cluster =
     \<lparr>mv_name = (''vectory'', cluster, ''err''), mv_buckets = [], mv_labels = [''scenario'', ''key'', ''code'']\<rparr>"

definition latency_vec :: "string \<Rightarrow> metric_vec" where
  "latency_vec cluster =
     \<lparr>mv_name = (''vectory'', cluster, ''latency''),
      mv_buckets = [8, 16, 32, 64, 128, 256, 384, 512, 640, 768, 1024], mv_labels = [''scenario'', ''key'']\<rparr>"

text \<open>\<open>MustRegister\<close>, one metric after the other: the first that is refused panics.\<close>

fun must_register :: "metrics_lib \<Rightarrow> metric_vec list \<Rightarrow> monitor \<Rightarrow> monitor \<times> error option" where
  "must_register ml [] mo = (mo, None)"
| "must_register ml (v # vs) mo =
     (case ml_register ml (mv_name v) of
        Some e \<Rightarrow> (mo, Some e)
      | None \<Rightarrow> must_register ml vs (mo\<lparr>mo_registered := mo_registered mo @ [v]\<rparr>))"

text \<open>\<open>InitMonitor\<close>: \<open>sync.Once\<close> runs the body once, and counts a body that panicked as run.  The error is
  the panic.\<close>

definition init_monitor :: "metrics_lib \<Rightarrow> string \<Rightarrow> monitor \<Rightarrow> monitor \<times> error option" where
  "init_monitor ml cluster mo =
     (if mo_done mo then (mo, None)
      else must_register ml [counter_vec cluster, error_code_vec cluster, latency_vec cluster]
        (mo\<lparr>mo_done := True, mo_counter := Some (counter_vec cluster),
           mo_error_code := Some (error_code_vec cluster), mo_latency := Some (latency_vec cluster)\<rparr>))"

section \<open>Reports\<close>

text \<open>A report names the metric, the values of its labels and, for a histogram, what is observed.\<close>

datatype metric_call =
    MetricInc metric_vec "(string \<times> string) list"
  | MetricObserve metric_vec "(string \<times> string) list" rat

text \<open>A metric that was never made is a nil dereference in \<open>With\<close>.\<close>

definition count_observe_inc :: "monitor \<Rightarrow> string \<Rightarrow> string \<Rightarrow> metric_call run" where
  "count_observe_inc mo scenario key =
     (case mo_counter mo of
        None \<Rightarrow> Panic NilDereference
      | Some v \<Rightarrow> Ret (MetricInc v [(''scenario'', scenario), (''key'', key)]))"

definition err_code_observe :: "monitor \<Rightarrow> string \<Rightarrow> string \<Rightarrow> 32 word \<Rightarrow> metric_call run" where
  "err_code_observe mo scenario key code =
     (case mo_error_code mo of
        None \<Rightarrow> Panic NilDereference
      | Some v \<Rightarrow> Ret (MetricInc v [(''scenario'', scenario), (''key'', key), (''code'', itoa (uint code))]))"

definition latency_observe :: "monitor \<Rightarrow> string \<Rightarrow> string \<Rightarrow> rat \<Rightarrow> metric_call run" where
  "latency_observe mo scenario key duration =
     (case mo_latency mo of
        None \<Rightarrow> Panic NilDereference
      | Some v \<Rightarrow> Ret (MetricObserve v [(''scenario'', scenario), (''key'', key)] duration))"

section \<open>Log messages\<close>

datatype log_level_name = LevelDebug | LevelInfo | LevelWarn | LevelError | LevelFatal

text \<open>\<open>FieldAny\<close> is the field of \<open>Interface\<close>, whose value may be of any type; zap finds the encoding.\<close>

datatype 'i log_field =
    FieldString string string
  | FieldAny string 'i
  | FieldDuration string int
  | FieldErr error
  | FieldInt string int
  | FieldInt32 string int
  | FieldInt64 string int

record 'i log_entry =
  le_level :: log_level_name
  le_msg :: string
  le_fields :: "'i log_field list"

text \<open>A logger is the fields it adds to every message.  The trace identifier of the context is \<open>None\<close> when
  it is not valid; otherwise the logger of the context adds it.\<close>

definition default_logger :: "'i log_field list" where
  "default_logger = []"

definition default_logger_with_ctx :: "string option \<Rightarrow> 'i log_field list" where
  "default_logger_with_ctx trace_id =
     (case trace_id of Some t \<Rightarrow> default_logger @ [FieldString ''traceId'' t] | None \<Rightarrow> default_logger)"

definition log_msg :: "log_level_name \<Rightarrow> string \<Rightarrow> 'i log_field list \<Rightarrow> 'i log_entry" where
  "log_msg lv msg fs = \<lparr>le_level = lv, le_msg = msg, le_fields = default_logger @ fs\<rparr>"

definition log_ctx_msg :: "log_level_name \<Rightarrow> string option \<Rightarrow> string \<Rightarrow> 'i log_field list \<Rightarrow> 'i log_entry" where
  "log_ctx_msg lv trace_id msg fs =
     \<lparr>le_level = lv, le_msg = msg, le_fields = default_logger_with_ctx trace_id @ fs\<rparr>"

section \<open>Reporters\<close>

text \<open>What a reporter does, in order.  A duration is an \<open>int64\<close> of nanoseconds, and \<open>float64\<close> of it a
  rational: the rounding above \<open>2 ^ 53\<close> nanoseconds is left out.\<close>

datatype 'i report_event = Logged "'i log_entry" | Metered metric_call

definition metered :: "metric_call run \<Rightarrow> 'i report_event run" where
  "metered = run_map Metered"

fun run_events :: "'i report_event run list \<Rightarrow> 'i report_event list run" where
  "run_events [] = Ret []"
| "run_events (m # ms) = run_bind m (\<lambda>ev. run_map ((#) ev) (run_events ms))"

definition build_elapsed_func ::
    "string \<Rightarrow> string option \<Rightarrow> string \<Rightarrow> bool \<Rightarrow> monitor \<Rightarrow> int \<Rightarrow> 'i report_event list run" where
  "build_elapsed_func monitor_name ctx name is_debug mo cost_time =
     run_events
       [Ret (Logged (log_ctx_msg (if is_debug then LevelDebug else LevelInfo) ctx ''process completed''
          [FieldString ''name'' name, FieldDuration ''duration'' cost_time])),
        metered (latency_observe mo monitor_name name (of_int cost_time / 1000))]"

text \<open>The error is a pointer to an error; \<open>None\<close> stands for a nil pointer and for one to a nil error.\<close>

definition build_report_func ::
    "string \<Rightarrow> string option \<Rightarrow> string \<Rightarrow> string \<Rightarrow> error option \<Rightarrow> monitor \<Rightarrow> int \<Rightarrow> 'i report_event list run" where
  "build_report_func monitor_name ctx name log_name_to_add err mo cost_time =
     (let log_name = name @ '':'' @ log_name_to_add in
      run_events
        ((case err of
            None \<Rightarrow>
              [Ret (Logged (log_ctx_msg LevelInfo ctx ''process completed''
                 [FieldString ''name'' log_name, FieldDuration ''duration'' cost_time]))]
          | Some e \<Rightarrow>
              [Ret (Logged (log_ctx_msg LevelWarn ctx ''process completed''
                 [FieldString ''name'' log_name, FieldDuration ''duration'' cost_time, FieldErr e])),
               metered (count_observe_inc mo monitor_name (name @ ''Error'')),
               metered (count_observe_inc mo monitor_name (name @ '':'' @ err_text e))]) @
         [metered (latency_observe mo monitor_name name (of_int cost_time)),
          metered (count_observe_inc mo monitor_name name)]))"

section \<open>The HTTP route\<close>

datatype http_handler = PrometheusHandler

text \<open>\<open>HandleFunc\<close> and \<open>Handler\<close> panic when the metrics cannot be gathered.\<close>

definition handle_func :: "metrics_lib \<Rightarrow> error + http_handler" where
  "handle_func ml = (case ml_gather ml of Some e \<Rightarrow> Inl e | None \<Rightarrow> Inr PrometheusHandler)"

definition metrics_handler :: "metrics_lib \<Rightarrow> error + (string \<times> http_handler) list" where
  "metrics_handler ml =
     (case ml_gather ml of Some e \<Rightarrow> Inl e | None \<Rightarrow> Inr [(''/metrics'', PrometheusHandler)])"

record router =
  ro_middleware :: "string list"
  ro_routes :: "(string \<times> string \<times> http_handler) list"

text \<open>The middleware traces under the name of the cluster; \<open>gin.Default\<close> brings its own two.\<close>

definition build_router :: "metrics_lib \<Rightarrow> string \<Rightarrow> error + router" where
  "build_router ml cluster =
     (case handle_func ml of
        Inl e \<Rightarrow> Inl e
      | Inr hdl \<Rightarrow> Inr \<lparr>ro_middleware = [cluster], ro_routes = [(''GET'', ''/metrics'', hdl)]\<rparr>)"

section \<open>Lemmas\<close>

lemma must_register_all:
  "must_register ml vs mo = (mo', None) \<longleftrightarrow>
     (\<forall>v \<in> set vs. ml_register ml (mv_name v) = None) \<and> mo' = mo\<lparr>mo_registered := mo_registered mo @ vs\<rparr>"
  by (induction vs arbitrary: mo) (auto split: option.splits)

lemma must_register_keeps:
  "mo_done (fst (must_register ml vs mo)) = mo_done mo"
  "mo_counter (fst (must_register ml vs mo)) = mo_counter mo"
  "mo_error_code (fst (must_register ml vs mo)) = mo_error_code mo"
  "mo_latency (fst (must_register ml vs mo)) = mo_latency mo"
  by (induction vs arbitrary: mo) (auto split: option.splits)

text \<open>The labels of a call are those its metric was declared with: the library accepts it.\<close>

fun well_labelled :: "metric_call \<Rightarrow> bool" where
  "well_labelled (MetricInc v ls) = (map fst ls = mv_labels v \<and> mv_buckets v = [])"
| "well_labelled (MetricObserve v ls x) = (map fst ls = mv_labels v \<and> mv_buckets v \<noteq> [])"

text \<open>A bucket of a histogram counts the observations up to its bound.\<close>

definition in_some_bucket :: "metric_vec \<Rightarrow> rat \<Rightarrow> bool" where
  "in_some_bucket v x \<longleftrightarrow> list_ex (\<lambda>b. x \<le> b) (mv_buckets v)"

definition metric_calls :: "'i report_event list \<Rightarrow> metric_call list" where
  "metric_calls evs = concat (map (\<lambda>ev. case ev of Logged e \<Rightarrow> [] | Metered c \<Rightarrow> [c]) evs)"

definition initialised :: "string \<Rightarrow> monitor \<Rightarrow> bool" where
  "initialised cluster mo \<longleftrightarrow> mo_counter mo = Some (counter_vec cluster) \<and>
     mo_error_code mo = Some (error_code_vec cluster) \<and> mo_latency mo = Some (latency_vec cluster)"

lemma init_monitor_initialised: "initialised cluster (fst (init_monitor ml cluster no_monitor))"
  by (simp add: init_monitor_def initialised_def no_monitor_def must_register_keeps del: must_register.simps)

lemmas report_simps = metered_def count_observe_inc_def latency_observe_def initialised_def metric_calls_def

section \<open>Properties\<close>

text \<open>The metrics are made once.  \<open>InitMonitor\<close> makes all three metrics, and registers them all exactly when the library
  accepts the three names formed from the name of the cluster; otherwise it panics.  Either way a second call does nothing
  and does not panic.\<close>

theorem monitor_initialised_once:
  "(case init_monitor ml cluster no_monitor of (mo, oe) \<Rightarrow>
      initialised cluster mo \<and> init_monitor ml other mo = (mo, None) \<and>
      (oe = None \<longleftrightarrow> mo_registered mo = [counter_vec cluster, error_code_vec cluster, latency_vec cluster]) \<and>
      (oe = None \<longleftrightarrow> list_all (\<lambda>n. ml_register ml (''vectory'', cluster, n) = None) [''count'', ''err'', ''latency'']))"
  by (auto simp: init_monitor_def no_monitor_def initialised_def counter_vec_def error_code_vec_def latency_vec_def
      split: option.splits)

text \<open>A report tells the whole story of a request and never faults once the monitor is initialised: one log message, a
  warning that carries the error if there is one, two error counts exactly then, the latency, and the request count last; every
  call has the labels its metric was declared with.\<close>

theorem report_complete:
  assumes "initialised cluster mo"
  shows "\<exists>evs. build_report_func scenario ctx name extra err mo cost = Ret evs \<and>
    (\<exists>e. hd evs = Logged e \<and> le_level e = (case err of None \<Rightarrow> LevelInfo | Some _ \<Rightarrow> LevelWarn) \<and>
       (case err of None \<Rightarrow> True | Some er \<Rightarrow> FieldErr er \<in> set (le_fields e))) \<and>
    metric_calls evs = map (\<lambda>k. MetricInc (counter_vec cluster) [(''scenario'', scenario), (''key'', k)])
        (case err of None \<Rightarrow> [] | Some er \<Rightarrow> [name @ ''Error'', name @ '':'' @ err_text er]) @
      [MetricObserve (latency_vec cluster) [(''scenario'', scenario), (''key'', name)] (of_int cost),
       MetricInc (counter_vec cluster) [(''scenario'', scenario), (''key'', name)]] \<and>
    list_all well_labelled (metric_calls evs)"
  using assms
  by (cases err) (auto simp: build_report_func_def report_simps Let_def log_ctx_msg_def counter_vec_def latency_vec_def)

text \<open>The latency of a request is outside the histogram.  The report observes nanoseconds, so a request of more
  than 1024 nanoseconds falls into no bucket, while \<open>BuildElapsedFunc\<close> observes microseconds, with the
  same buckets: there the bound is 1024 microseconds.\<close>

theorem latency_outside_buckets:
  assumes "initialised cluster mo"
    and "build_report_func scenario ctx name extra err mo cost = Ret evs"
    and "build_elapsed_func scenario ctx name dbg mo cost = Ret evs'"
  shows "(\<forall>v ls x. MetricObserve v ls x \<in> set (metric_calls evs) \<longrightarrow> (in_some_bucket v x \<longleftrightarrow> cost \<le> 1024)) \<and>
    (\<forall>v ls x. MetricObserve v ls x \<in> set (metric_calls evs') \<longrightarrow> (in_some_bucket v x \<longleftrightarrow> cost \<le> 1024000)) \<and>
    (\<exists>v ls x. MetricObserve v ls x \<in> set (metric_calls evs))"
proof -
  have 1: "in_some_bucket (latency_vec cluster) (of_int cost) \<longleftrightarrow> cost \<le> 1024"
    by (auto simp: in_some_bucket_def latency_vec_def)
  have 2: "in_some_bucket (latency_vec cluster) (of_int cost / 1000) \<longleftrightarrow> cost \<le> 1024000"
    by (auto simp: in_some_bucket_def latency_vec_def field_simps)
  have evs: "MetricObserve v ls x \<in> set (metric_calls evs) \<longleftrightarrow>
      v = latency_vec cluster \<and> ls = [(''scenario'', scenario), (''key'', name)] \<and> x = of_int cost" for v ls x
    using assms(1,2) by (cases err) (auto simp: build_report_func_def report_simps Let_def)
  have evs': "MetricObserve v ls x \<in> set (metric_calls evs') \<longleftrightarrow>
      v = latency_vec cluster \<and> ls = [(''scenario'', scenario), (''key'', name)] \<and> x = of_int cost / 1000" for v ls x
    using assms(1,3) by (auto simp: build_elapsed_func_def report_simps)
  show ?thesis unfolding evs evs' using 1 2 by metis
qed

section \<open>Witnesses\<close>

definition ex_monitor :: monitor where
  "ex_monitor = fst (init_monitor \<lparr>ml_gather = None, ml_register = (\<lambda>n. None)\<rparr> ''c'' no_monitor)"

lemma ex_monitor_initialised: "initialised ''c'' ex_monitor"
  by (simp add: ex_monitor_def init_monitor_initialised)

theorem report_complete_witness:
  "\<exists>evs :: string report_event list. build_report_func ''rpc'' None ''search'' ''docs'' (Some (Cfg ErrIndexNotFound)) ex_monitor 5000 = Ret evs \<and>
     length (metric_calls evs) = 4 \<and> list_all well_labelled (metric_calls evs)"
proof -
  from report_complete [where 'a = string, OF ex_monitor_initialised, of "''rpc''" None "''search''" "''docs''" "Some (Cfg ErrIndexNotFound)" 5000]
  obtain evs :: "string report_event list" where "build_report_func ''rpc'' None ''search'' ''docs'' (Some (Cfg ErrIndexNotFound)) ex_monitor 5000 = Ret evs"
    "list_all well_labelled (metric_calls evs)" "length (metric_calls evs) = 4" by auto
  then show ?thesis by blast
qed

theorem latency_outside_buckets_witness:
  "\<exists>(evs :: string report_event list) v ls x. build_report_func ''rpc'' None ''search'' ''docs'' None ex_monitor 1000000 = Ret evs \<and>
     MetricObserve v ls x \<in> set (metric_calls evs) \<and> \<not> in_some_bucket v x"
proof -
  obtain evs evs' :: "string report_event list" where "build_report_func ''rpc'' None ''search'' ''docs'' None ex_monitor 1000000 = Ret evs"
    "build_elapsed_func ''rpc'' None ''search'' True ex_monitor 1000000 = Ret evs'"
    using ex_monitor_initialised by (auto simp: build_report_func_def build_elapsed_func_def report_simps)
  with latency_outside_buckets [OF ex_monitor_initialised this]
  have "build_report_func ''rpc'' None ''search'' ''docs'' None ex_monitor 1000000 = Ret evs \<and>
      (\<exists>v ls x. MetricObserve v ls x \<in> set (metric_calls evs) \<and> \<not> in_some_bucket v x)" by fastforce
  then show ?thesis by blast
qed

end
