(* ===== verification/Bootstrap.thy ===== *)
theory Bootstrap
  imports Lifecycle Metrics
begin

text \<open>
  How the process comes up: \<open>cmd/server/main.go\<close> reads the configuration
  (\<open>internal/utils/config_manager\<close>, \<open>internal/config\<close>), opens the log files
  (\<open>internal/utils/logger\<close>) and sets the server up (\<open>internal/core\<close>), in this order, and then
  starts it.  viper, zap, OpenTelemetry, gRPC, the etcd client and the operating system are code outside
  the repository: what they answer is the record \<open>platform\<close>.
\<close>

section \<open>Configuration values\<close>

record logger_config =
  lc_level :: string
  lc_default_path :: string
  lc_level_path :: "string \<Rightarrow> string option"

record remote_provider =
  rp_provider :: string
  rp_endpoint :: string
  rp_path :: string

record meta_config =
  mc_enable_remote :: bool
  mc_remote :: "remote_provider list"

text \<open>
  A decoded section has the Go type of its registered schema; a value without one is \<open>PlainConf\<close>.
  The getters assert the type, and answer \<open>nil\<close> for another.
\<close>

datatype conf_value =
    ClusterConf cluster_meta_config | LoggerConf logger_config | MetaConf meta_config | PlainConf string

definition get_meta_config :: "conf_value config_manager \<Rightarrow> meta_config option" where
  "get_meta_config cfg =
     (case vp_get (local_viper cfg) ''config_manager'' of Some (MetaConf m) \<Rightarrow> Some m | _ \<Rightarrow> None)"

definition get_logger_conf :: "conf_value config_manager \<Rightarrow> logger_config option" where
  "get_logger_conf cfg = (case cm_get cfg ''logger'' of Some (LoggerConf c) \<Rightarrow> Some c | _ \<Rightarrow> None)"

definition get_cluster_meta_config :: "conf_value config_manager \<Rightarrow> cluster_meta_config option" where
  "get_cluster_meta_config cfg = (case cm_get cfg ''cluster'' of Some (ClusterConf c) \<Rightarrow> Some c | _ \<Rightarrow> None)"

section \<open>What the libraries answer\<close>

text \<open>
  A registered section is its key and whether it may be missing.  \<open>vl_read\<close> is \<open>ReadInConfig\<close> on a fresh
  instance with the file and the sections, \<open>vl_provider\<close> is \<open>AddRemoteProvider\<close>, \<open>vl_remote\<close> is
  \<open>ReadRemoteConfig\<close> and \<open>vl_watch\<close> is \<open>WatchRemoteConfigOnChannel\<close>.
\<close>

type_synonym conf_schema = "(string \<times> bool) list"

record viper_lib =
  vl_read :: "string \<Rightarrow> conf_schema \<Rightarrow> conf_value viper \<times> error option"
  vl_provider :: "remote_provider \<Rightarrow> error option"
  vl_remote :: "remote_provider list \<Rightarrow> conf_schema \<Rightarrow> conf_value viper \<times> error option"
  vl_watch :: "error option"

text \<open>zap's levels are small integers with names; \<open>zl_parse\<close> is \<open>UnmarshalText\<close>.\<close>

record zap_levels =
  zl_info :: int
  zl_invalid :: int
  zl_name :: "int \<Rightarrow> string"
  zl_parse :: "string \<Rightarrow> int option"

record platform =
  pf_viper :: viper_lib
  pf_zap :: zap_levels
  pf_open :: "string \<Rightarrow> error option"
  pf_env :: os_env
  pf_sid :: string
  pf_resource :: "error option"
  pf_trace_exporter :: "error option"
  pf_metric_exporter :: "error option"
  pf_etcd_client :: "string list \<Rightarrow> error option"
  pf_metrics :: metrics_lib

section \<open>config_manager.Init\<close>

definition new_viper :: "conf_value viper" where
  "new_viper = \<lparr>vp_get = (\<lambda>k. None), vp_get_string = (\<lambda>k. '''')\<rparr>"

fun add_providers :: "viper_lib \<Rightarrow> remote_provider list \<Rightarrow> error option" where
  "add_providers vl [] = None"
| "add_providers vl (p # ps) =
     (case vl_provider vl p of Some e \<Rightarrow> Some e | None \<Rightarrow> add_providers vl ps)"

definition init_remote ::
    "viper_lib \<Rightarrow> remote_provider list \<Rightarrow> conf_schema \<Rightarrow> conf_value viper \<times> error option" where
  "init_remote vl ps schema =
     (case add_providers vl ps of
        Some e \<Rightarrow> (new_viper, Some e)
      | None \<Rightarrow> (case vl_remote vl ps schema of
          (rv, Some e) \<Rightarrow> (rv, Some e)
        | (rv, None) \<Rightarrow> (rv, vl_watch vl)))"

text \<open>The package variable \<open>cfg\<close> is set even when the result is an error.\<close>

definition init_config ::
    "viper_lib \<Rightarrow> string \<Rightarrow> conf_schema \<Rightarrow> conf_value config_manager \<times> error option" where
  "init_config vl path sections =
     (let schema = sections @ [(''config_manager'', False)];
          (lv, oe) = vl_read vl path schema;
          cfg = \<lparr>local_viper = lv, remote_viper = None\<rparr>
      in case oe of
           Some e \<Rightarrow> (cfg, Some e)
         | None \<Rightarrow> (case get_meta_config cfg of
             None \<Rightarrow> (cfg, None)
           | Some meta \<Rightarrow>
               if mc_enable_remote meta
               then (let (rv, oe') = init_remote vl (mc_remote meta) schema
                     in (cfg\<lparr>remote_viper := Some rv\<rparr>, oe'))
               else (cfg, None)))"

section \<open>logger.Init\<close>

text \<open>A core writes the messages of exactly one level to its file.\<close>

type_synonym log_core = "int \<times> string"

definition level_out :: "zap_levels \<Rightarrow> (string \<Rightarrow> error option) \<Rightarrow> logger_config \<Rightarrow> int \<Rightarrow> string" where
  "level_out zl op c i =
     (case lc_level_path c (zl_name zl i) of
        Some path \<Rightarrow> if op path = None then path else lc_default_path c
      | None \<Rightarrow> lc_default_path c)"

definition log_level :: "zap_levels \<Rightarrow> logger_config \<Rightarrow> int" where
  "log_level zl c = (case zl_parse zl (lc_level c) of Some l \<Rightarrow> l | None \<Rightarrow> zl_info zl)"

definition init_logger ::
    "zap_levels \<Rightarrow> (string \<Rightarrow> error option) \<Rightarrow> logger_config option \<Rightarrow> error + log_core list" where
  "init_logger zl op oc =
     (case oc of
        None \<Rightarrow> Inl (ErrText ''logger config empty'')
      | Some c \<Rightarrow>
          (case op (lc_default_path c) of
             Some e \<Rightarrow> Inl e
           | None \<Rightarrow> Inr (map (\<lambda>i. (i, level_out zl op c i)) [log_level zl c .. zl_invalid zl - 1])))"

definition level_enabled :: "int \<Rightarrow> int \<Rightarrow> bool" where
  "level_enabled lv lvl \<longleftrightarrow> lvl = lv"

text \<open>The files a message of a level is written to: zap's tee asks every core.\<close>

definition log_files :: "log_core list \<Rightarrow> int \<Rightarrow> string list" where
  "log_files cores lvl = map snd (filter (\<lambda>(lv, f). level_enabled lv lvl) cores)"

section \<open>Setup\<close>

datatype grpc_service = CoreService | ClusterService

record app =
  app_conf :: cluster_meta_config
  app_cluster_name :: string
  app_id :: string
  app_addr :: string
  app_router :: router
  app_grpc :: "grpc_service list option"
  app_etcd :: "string list option"

text \<open>Registering on a server that was never made calls a method of a nil \<open>grpc.Server\<close>, which takes its lock.\<close>

text \<open>\<open>ListProtoMethods\<close>: the names of a service's methods, for the log.\<close>

definition list_proto_methods :: "string list \<Rightarrow> string" where
  "list_proto_methods methods = ''['' @ join_with (CHR '','') methods @ '']''"

definition register_service ::
    "grpc_service \<Rightarrow> grpc_service list option \<Rightarrow> grpc_service list option run" where
  "register_service svc srv =
     (case srv of None \<Rightarrow> Panic NilDereference | Some svcs \<Rightarrow> Ret (Some (svcs @ [svc])))"

text \<open>\<open>initOTel\<close>: the error of the resource is overwritten by the next call.\<close>

definition init_otel :: "platform \<Rightarrow> error option" where
  "init_otel pf =
     (case pf_trace_exporter pf of Some e \<Rightarrow> Some e | None \<Rightarrow> pf_metric_exporter pf)"

definition gen_instance_id :: "string \<Rightarrow> string \<Rightarrow> string" where
  "gen_instance_id sid name = name @ ''-'' @ sid"

text \<open>Without its section \<open>Setup\<close> logs a fatal message, which ends the process; when the metrics cannot be
  gathered, the router panics.\<close>

datatype setup_end = SetupExits | SetupPanics error | SetupFails error | SetupReady app

definition setup_app :: "platform \<Rightarrow> conf_value config_manager \<Rightarrow> setup_end run" where
  "setup_app pf cfg =
     (case get_cluster_meta_config cfg of
        None \<Rightarrow> Ret SetupExits
      | Some conf \<Rightarrow>
          (case build_router (pf_metrics pf) (cm_cluster_name conf) of
             Inl e \<Rightarrow> Ret (SetupPanics e)
           | Inr routes \<Rightarrow>
               (let a = \<lparr>app_conf = conf, app_cluster_name = cm_cluster_name conf,
                         app_id = gen_instance_id (pf_sid pf) (cm_cluster_name conf),
                         app_addr = get_pod_ip (pf_env pf) cfg @ '':'' @ itoa (get_port (pf_env pf) cfg),
                         app_router = routes, app_grpc = None, app_etcd = None\<rparr>
                in case init_otel pf of
                     Some e \<Rightarrow> Ret (SetupFails e)
                   | None \<Rightarrow>
                       run_bind (if cm_grpc_enabled conf then register_service CoreService (Some []) else Ret None) (\<lambda>srv.
                         (if cl_enabled (cm_cluster_mode conf) then
                            (let eps = cl_endpoints (cm_cluster_mode conf)
                             in case pf_etcd_client pf eps of
                                  Some e \<Rightarrow> Ret (SetupFails e)
                                | None \<Rightarrow> run_map (\<lambda>srv'. SetupReady (a\<lparr>app_grpc := srv', app_etcd := Some eps\<rparr>))
                                    (register_service ClusterService srv))
                          else Ret (SetupReady (a\<lparr>app_grpc := srv\<rparr>)))))))"

section \<open>The process\<close>

text \<open>\<open>init\<close> of the main package: every error is a panic with its own message, and the metrics come last.\<close>

datatype init_end =
    InitPanics error | InitExits | InitReady "conf_value config_manager" "log_core list" app

definition main_init :: "platform \<Rightarrow> init_end run" where
  "main_init pf =
     (case init_config (pf_viper pf) ''./etc/config.yml''
             [(''cluster'', False), (''logger'', False), (''env'', True)] of
        (cfg, Some e) \<Rightarrow> Ret (InitPanics (ErrWrap ''config init failed'' e))
      | (cfg, None) \<Rightarrow>
          (case init_logger (pf_zap pf) (pf_open pf) (get_logger_conf cfg) of
             Inl e \<Rightarrow> Ret (InitPanics (ErrWrap ''logger init failed'' e))
           | Inr cores \<Rightarrow>
               run_map (\<lambda>r. case r of
                   SetupExits \<Rightarrow> InitExits
                 | SetupPanics e \<Rightarrow> InitPanics e
                 | SetupFails e \<Rightarrow> InitPanics (ErrWrap ''server setup failed'' e)
                 | SetupReady a \<Rightarrow>
                     (case snd (init_monitor (pf_metrics pf) (app_cluster_name a) no_monitor) of
                        Some e \<Rightarrow> InitPanics e
                      | None \<Rightarrow> InitReady cfg cores a)) (setup_app pf cfg)))"

text \<open>\<open>main\<close>: what \<open>init\<close> made is started; an error of the start is a panic too.\<close>

datatype 'a process_end = ProcessPanics error | ProcessExits | Serves 'a

definition run_main ::
    "platform \<Rightarrow> 'r ring_ops \<Rightarrow> 'v codec \<Rightarrow> ('e, 'v) etcd_ops \<Rightarrow> (shard \<Rightarrow> world) \<Rightarrow> ('e, 'v) boot \<Rightarrow> sys \<Rightarrow> 'e \<Rightarrow>
     (sys \<times> 'r etcd_manager option \<times> 'e) process_end run" where
  "run_main pf rg cd et ws bt s st =
     run_bind (main_init pf) (\<lambda>r. case r of
         InitPanics e \<Rightarrow> Ret (ProcessPanics e)
       | InitExits \<Rightarrow> Ret ProcessExits
       | InitReady cfg cores a \<Rightarrow>
           run_map (\<lambda>(y, oe). case oe of None \<Rightarrow> Serves y | Some e \<Rightarrow> ProcessPanics e)
             (start rg cd et (get_env_etcd_root (pf_env pf) cfg (app_cluster_name a)) ws (app_conf a) (app_id a) bt s st))"

section \<open>Lemmas\<close>

lemma filter_level: "filter (\<lambda>i. i = l) [a..b] = (if a \<le> l \<and> l \<le> b then [l] else [])" for l a b :: int
proof (cases "a \<le> l \<and> l \<le> b")
  case True
  then have "[a..b] = [a..l - 1] @ l # [l + 1..b]"
    using upto_split2 [of a l b] upto_rec1 [of l b] upto_split1 [of a l b] by simp
  moreover have "filter (\<lambda>i. i = l) [a..l - 1] = []" "filter (\<lambda>i. i = l) [l + 1..b] = []"
    by (simp_all add: filter_empty_conv)
  ultimately show ?thesis using True by simp
next
  case False
  then have "filter (\<lambda>i. i = l) [a..b] = []" by (auto simp: filter_empty_conv)
  with False show ?thesis by simp
qed

lemma log_files_map: "log_files (map (\<lambda>i. (i, f i)) ls) lvl = map f (filter (\<lambda>i. i = lvl) ls)"
  by (induction ls) (auto simp: log_files_def level_enabled_def)

lemma level_out_opens: "op (lc_default_path c) = None \<Longrightarrow> op (level_out zl op c i) = None"
  by (simp add: level_out_def split: option.splits)

text \<open>What \<open>Setup\<close> leaves, when it leaves anything.\<close>

lemma setup_ready:
  "setup_app pf cfg = Ret (SetupReady a) \<longleftrightarrow>
     (\<exists>conf. get_cluster_meta_config cfg = Some conf \<and> ml_gather (pf_metrics pf) = None \<and> init_otel pf = None \<and>
        (if cl_enabled (cm_cluster_mode conf)
         then cm_grpc_enabled conf \<and> pf_etcd_client pf (cl_endpoints (cm_cluster_mode conf)) = None else True) \<and>
        a = \<lparr>app_conf = conf, app_cluster_name = cm_cluster_name conf,
             app_id = gen_instance_id (pf_sid pf) (cm_cluster_name conf),
             app_addr = get_pod_ip (pf_env pf) cfg @ '':'' @ itoa (get_port (pf_env pf) cfg),
             app_router = \<lparr>ro_middleware = [cm_cluster_name conf], ro_routes = [(''GET'', ''/metrics'', PrometheusHandler)]\<rparr>,
             app_grpc = (if cm_grpc_enabled conf
               then Some (CoreService # (if cl_enabled (cm_cluster_mode conf) then [ClusterService] else [])) else None),
             app_etcd = (if cl_enabled (cm_cluster_mode conf) then Some (cl_endpoints (cm_cluster_mode conf)) else None)\<rparr>)"
  by (auto simp: setup_app_def build_router_def handle_func_def register_service_def Let_def split: option.splits if_splits)

lemma setup_faults:
  "setup_app pf cfg = Panic p \<longleftrightarrow>
     p = NilDereference \<and> ml_gather (pf_metrics pf) = None \<and> init_otel pf = None \<and>
     (\<exists>conf. get_cluster_meta_config cfg = Some conf \<and> cl_enabled (cm_cluster_mode conf) \<and>
        \<not> cm_grpc_enabled conf \<and> pf_etcd_client pf (cl_endpoints (cm_cluster_mode conf)) = None)"
  by (auto simp: setup_app_def build_router_def handle_func_def register_service_def Let_def split: option.splits if_splits)

text \<open>A start that returns without an error leaves a cluster manager exactly in cluster mode.\<close>

lemma change_status_mode:
  "change_status cd et rt status (s, emo, st) = Ret (s', emo', st') \<Longrightarrow> emo' = None \<longleftrightarrow> emo = None"
  by (auto simp: change_status_def run_map_eq_Ret split: option.splits if_splits)

lemma hook_mode:
  "(case raw of Inl e \<Rightarrow> emo | Inr vs \<Rightarrow> map_option set_rebalance_hook emo) = None \<longleftrightarrow> emo = None"
  by (cases raw) simp_all

lemma start_engine_mode:
  fixes cd :: "'v codec"
  assumes "start_engine rg cd et rt ws bt (s, emo, st) = Ret ((s', emo', st'), oe)"
  shows "emo' = None \<longleftrightarrow> emo = None"
proof -
  obtain s1 emo1 st1 where 1: "change_status cd et rt Init (s, emo, st) = Ret (s1, emo1, st1)"
    using assms unfolding start_engine_def by (cases "change_status cd et rt Init (s, emo, st)") auto
  then obtain s2 x and raw :: "error + 'v list" where
    "change_status cd et rt x (s2, (case raw of Inl e \<Rightarrow> emo1 | Inr vs \<Rightarrow> map_option set_rebalance_hook emo1), st1) =
      Ret (s', emo', st')"
    using assms unfolding start_engine_def Let_def by (auto simp: run_bind_eq_Ret run_map_eq_Ret simp del: not_None_eq)
  from change_status_mode [OF 1] change_status_mode [OF this] show ?thesis
    unfolding hook_mode by simp
qed

text \<open>What a start without an error leaves.\<close>

lemma start_serves:
  assumes "ch_ok (sy_heap s)" "sy_pkg s = init_pkg"
    and "\<And>c st vs v m. raw_manifests et rt c bt st = Inr vs \<Longrightarrow> v \<in> set vs \<Longrightarrow> dec_manifest cd v = Some m \<Longrightarrow> manifest_ok m"
    and "start rg cd et rt ws conf node_id bt s st = Ret ((s', emo', st'), None)"
  shows "ps_status (sy_pkg s') = (if pending s' = {} then Healthy else Unhealthy)"
    and "sys_ok s'" "own_status emo' (ps_status (sy_pkg s'))" "emo' = None \<longleftrightarrow> \<not> cl_enabled (cm_cluster_mode conf)"
proof -
  obtain emo st1 where e: "start_engine rg cd et rt ws bt (s, emo, st1) = Ret ((s', emo', st'), None)"
    "\<And>em. emo = Some em \<Longrightarrow> em_lease em \<noteq> None" "emo = None \<longleftrightarrow> \<not> cl_enabled (cm_cluster_mode conf)"
  proof (cases "cl_enabled (cm_cluster_mode conf)")
    case True
    with assms(4) obtain addr em st1 where j:
      "join_cluster rg cd et rt (cm_cluster_mode conf) node_id addr bt st = (em, st1, None)"
      "start_engine rg cd et rt ws bt (s, Some em, st1) = Ret ((s', emo', st'), None)"
      by (auto simp: start_def split: sum.splits prod.splits option.splits)
    with True join_cluster_lease [OF j(1)] show thesis by (intro that [of "Some em" st1]) simp_all
  next
    case False
    with assms(4) show thesis by (intro that [of None st]) (auto simp: start_def split: sum.splits)
  qed
  from start_engine_ok [OF assms(1,2) e(2), of emo et rt bt cd rg ws st1] assms(3) e(1)
  show "ps_status (sy_pkg s') = (if pending s' = {} then Healthy else Unhealthy)" "sys_ok s'"
    "own_status emo' (ps_status (sy_pkg s'))" by fastforce+
  from start_engine_mode [OF e(1)] e(3) show "emo' = None \<longleftrightarrow> \<not> cl_enabled (cm_cluster_mode conf)" by simp
qed

text \<open>The outcome of \<open>init\<close> in terms of what \<open>Setup\<close> makes.\<close>

abbreviation read_config :: "platform \<Rightarrow> conf_value config_manager \<times> error option" where
  "read_config pf \<equiv> init_config (pf_viper pf) ''./etc/config.yml''
     [(''cluster'', False), (''logger'', False), (''env'', True)]"

lemma init_ready_case:
  "InitReady cfg cores a = (case r of SetupExits \<Rightarrow> InitExits | SetupPanics e \<Rightarrow> InitPanics e | SetupFails e \<Rightarrow> InitPanics (g e)
      | SetupReady b \<Rightarrow> (case m b of Some e \<Rightarrow> InitPanics e | None \<Rightarrow> InitReady cfg' cores' b)) \<longleftrightarrow>
   r = SetupReady a \<and> cfg' = cfg \<and> cores' = cores \<and> m a = None"
  by (cases r) (auto split: option.splits)

text \<open>The names of the metrics, which the library has to accept.\<close>

abbreviation metrics_accepted :: "metrics_lib \<Rightarrow> string \<Rightarrow> bool" where
  "metrics_accepted ml cluster \<equiv> (\<forall>n \<in> {''count'', ''err'', ''latency''}. ml_register ml (''vectory'', cluster, n) = None)"

lemma init_monitor_accepted: "snd (init_monitor ml cluster no_monitor) = None \<longleftrightarrow> metrics_accepted ml cluster"
  by (auto simp: init_monitor_def no_monitor_def counter_vec_def error_code_vec_def latency_vec_def split: option.splits)

lemma serves_case:
  "(case r of InitPanics e \<Rightarrow> Ret (ProcessPanics e) | InitExits \<Rightarrow> Ret ProcessExits
      | InitReady cfg cores a \<Rightarrow>
          run_map (\<lambda>(y, oe). case oe of None \<Rightarrow> Serves y | Some e \<Rightarrow> ProcessPanics e) (f cfg a)) = Ret (Serves z) \<longleftrightarrow>
   (\<exists>cfg cores a. r = InitReady cfg cores a \<and> f cfg a = Ret (z, None))"
  by (cases r) (auto simp: run_map_eq_Ret split: option.splits)

lemma main_init_ready:
  "main_init pf = Ret (InitReady cfg cores a) \<longleftrightarrow>
     read_config pf = (cfg, None) \<and> init_logger (pf_zap pf) (pf_open pf) (get_logger_conf cfg) = Inr cores \<and>
     setup_app pf cfg = Ret (SetupReady a) \<and> metrics_accepted (pf_metrics pf) (app_cluster_name a)"
  unfolding init_monitor_accepted [symmetric]
  by (auto simp: main_init_def run_map_eq_Ret init_ready_case split: prod.splits option.splits sum.splits)

lemma run_map_eq_Panic: "run_map f m = Panic p \<longleftrightarrow> m = Panic p"
  by (cases m) auto

lemma main_init_faults:
  "main_init pf = Panic p \<longleftrightarrow>
     (\<exists>cfg cores. read_config pf = (cfg, None) \<and>
        init_logger (pf_zap pf) (pf_open pf) (get_logger_conf cfg) = Inr cores \<and> setup_app pf cfg = Panic p)"
  by (auto simp: main_init_def run_map_eq_Panic split: prod.splits option.splits sum.splits)

section \<open>Properties\<close>

text \<open>A key is looked up in the local file first.  After a successful initialisation a lookup answers what the
  local file has for the key; only a key without a local value is looked up in the remote configuration, and
  only when the local file itself enables it.\<close>

theorem config_local_first:
  assumes "init_config vl path sections = (cfg, None)"
    and "lv = fst (vl_read vl path (sections @ [(''config_manager'', False)]))"
  shows "cm_get cfg key =
    (case vp_get lv key of
       Some v \<Rightarrow> Some v
     | None \<Rightarrow> (case vp_get lv ''config_manager'' of
         Some (MetaConf m) \<Rightarrow>
           if mc_enable_remote m
           then vp_get (fst (vl_remote vl (mc_remote m) (sections @ [(''config_manager'', False)]))) key else None
       | _ \<Rightarrow> None))"
  using assms
  by (auto simp: init_config_def init_remote_def get_meta_config_def cm_get_def Let_def
      split: prod.splits option.splits conf_value.splits if_splits)

text \<open>Every log message has one file.  When the logger comes up, a message at or above the configured level is written to
  exactly one file, which could be opened (the file of its level, or the default one when that fails); a message
  below it is written nowhere.\<close>

theorem one_file_per_message:
  assumes "init_logger zl op (Some c) = Inr cores"
  shows "(if log_level zl c \<le> lvl \<and> lvl < zl_invalid zl
          then (\<exists>f. log_files cores lvl = [f] \<and> op f = None \<and> f = level_out zl op c lvl) else log_files cores lvl = [])"
proof -
  from assms have o: "op (lc_default_path c) = None"
    and c: "cores = map (\<lambda>i. (i, level_out zl op c i)) [log_level zl c .. zl_invalid zl - 1]"
    by (auto simp: init_logger_def split: option.splits)
  show ?thesis
    by (simp add: c log_files_map filter_level level_out_opens o)
qed



section \<open>Witnesses\<close>

text \<open>A platform on which everything works, with a local configuration file and the given cluster section.\<close>

definition ex_log_conf :: logger_config where
  "ex_log_conf = \<lparr>lc_level = ''info'', lc_default_path = ''a.log'', lc_level_path = [''error'' \<mapsto> ''e.log'']\<rparr>"

definition ex_file :: "cluster_meta_config \<Rightarrow> conf_value viper" where
  "ex_file conf = \<lparr>vp_get = (\<lambda>k. if k = ''cluster'' then Some (ClusterConf conf)
        else if k = ''logger'' then Some (LoggerConf ex_log_conf)
        else if k = ''config_manager'' then Some (MetaConf \<lparr>mc_enable_remote = False, mc_remote = []\<rparr>) else None),
     vp_get_string = (\<lambda>k. if k = ''env.PORT'' then ''6060'' else '''')\<rparr>"

definition ex_levels :: zap_levels where
  "ex_levels = \<lparr>zl_info = 0, zl_invalid = 6, zl_name = (\<lambda>i. if i = 2 then ''error'' else ''other''),
     zl_parse = (\<lambda>t. if t = ''info'' then Some 0 else None)\<rparr>"

definition ex_platform :: "cluster_meta_config \<Rightarrow> platform" where
  "ex_platform conf =
     \<lparr>pf_viper = \<lparr>vl_read = (\<lambda>p sc. (ex_file conf, None)), vl_provider = (\<lambda>p. None),
        vl_remote = (\<lambda>ps sc. (new_viper, None)), vl_watch = None\<rparr>,
      pf_zap = ex_levels, pf_open = (\<lambda>f. None), pf_env = (\<lambda>k. if k = ''ETCD_ROOT'' then ''/v'' else ''''), pf_sid = ''1'',
      pf_resource = None, pf_trace_exporter = None, pf_metric_exporter = None, pf_etcd_client = (\<lambda>eps. None),
      pf_metrics = \<lparr>ml_gather = None, ml_register = (\<lambda>n. None)\<rparr>\<rparr>"

theorem config_local_first_witness:
  "cm_get \<lparr>local_viper = ex_file ex_conf, remote_viper = None\<rparr> ''cluster'' = Some (ClusterConf ex_conf)"
proof -
  have "init_config (pf_viper (ex_platform ex_conf)) ''f'' [] = (\<lparr>local_viper = ex_file ex_conf, remote_viper = None\<rparr>, None)"
    by (simp add: init_config_def ex_platform_def get_meta_config_def ex_file_def)
  from config_local_first [OF this refl, of "''cluster''"] show ?thesis
    by (simp add: ex_platform_def ex_file_def)
qed

theorem one_file_per_message_witness:
  "log_files (map (\<lambda>i. (i, level_out ex_levels (\<lambda>f. None) ex_log_conf i)) [0..5]) 2 = [''e.log'']"
proof -
  have "init_logger ex_levels (\<lambda>f. None) (Some ex_log_conf) =
      Inr (map (\<lambda>i. (i, level_out ex_levels (\<lambda>f. None) ex_log_conf i)) [0..5])"
    by (simp add: init_logger_def log_level_def ex_levels_def ex_log_conf_def)
  from one_file_per_message [OF this, of 2] show ?thesis
    by (simp add: log_level_def level_out_def ex_levels_def ex_log_conf_def)
qed

definition ex_app :: app where
  "ex_app = \<lparr>app_conf = ex_conf, app_cluster_name = ''c'', app_id = ''c-1'', app_addr = ''0.0.0.0:6060'',
     app_router = \<lparr>ro_middleware = [''c''], ro_routes = [(''GET'', ''/metrics'', PrometheusHandler)]\<rparr>,
     app_grpc = Some [CoreService, ClusterService], app_etcd = Some []\<rparr>"

lemma ex_ready:
  "\<exists>cores. main_init (ex_platform ex_conf) =
     Ret (InitReady \<lparr>local_viper = ex_file ex_conf, remote_viper = None\<rparr> cores ex_app)"
proof -
  have port: "itoa 6060 = ''6060''" "atoi ''6060'' = Some 6060"
    by (simp_all add: itoa_def digit_char_def dec.simps atoi_def digit_val_def in_int64_def char_of_def bit_0)
  show ?thesis
    unfolding main_init_ready setup_ready
    by (simp add: init_config_def ex_platform_def get_meta_config_def ex_file_def init_logger_def get_logger_conf_def
        cm_get_def ex_log_conf_def get_cluster_meta_config_def ex_app_def ex_conf_def init_otel_def gen_instance_id_def
        get_pod_ip_def get_env_def cm_get_string_def get_port_def port)
qed

definition no_grpc_conf :: cluster_meta_config where
  "no_grpc_conf = ex_conf\<lparr>cm_grpc_enabled := False\<rparr>"



end
