(* ===== verification/Shutdown.thy ===== *)
theory Shutdown
  imports Bootstrap
begin

text \<open>
  How a serving process ends: the rest of \<open>Start\<close> and \<open>Stop\<close> in \<open>internal/core/vectory.go\<close>, and
  \<open>main\<close> with \<open>exitWhenNotified\<close> in \<open>cmd/server/main.go\<close>.  Five goroutines take part: \<open>main\<close>, which waits on
  the two channels, the two listeners, which report the error they return with, the signal handler, which stops one part after the other, and the
  consumer of the status, which publishes it.  An execution is a list of events, in any order.
\<close>

section \<open>State\<close>

datatype server_part = GrpcServer | HttpServer | TraceProvider | MeterProvider

text \<open>Where the signal handler is in \<open>Stop\<close>; every place but the first and the last carries the signal.\<close>

datatype handler_pc =
    AwaitSignal | StopStatus string | StopUnregister string | StopGrpc string | StopHttp string
  | StopTrace string | StopMeter string | StopSend string | HandlerDone

datatype main_state = MainServes | MainReturned | MainPanicked error

text \<open>\<open>sv_msgs\<close> is the buffer of \<open>StatusUpdating\<close>, \<open>sv_errs\<close> and \<open>sv_sigs\<close> are \<open>errChan\<close> and
  \<open>sigChan\<close>; \<open>sv_unregistered\<close> and \<open>sv_stopped\<close> record what \<open>Stop\<close> has done.\<close>

record ('r, 'e) serving =
  sv_sys :: sys
  sv_em :: "'r etcd_manager option"
  sv_store :: 'e
  sv_msgs :: "node_status list"
  sv_handler :: handler_pc
  sv_unregistered :: bool
  sv_stopped :: "server_part list"
  sv_errs :: "error list"
  sv_sigs :: "string list"
  sv_main :: main_state

definition start_serving :: "sys \<times> 'r etcd_manager option \<times> 'e \<Rightarrow> node_status list \<Rightarrow> ('r, 'e) serving" where
  "start_serving x msgs = (case x of (s, emo, st) \<Rightarrow>
     \<lparr>sv_sys = s, sv_em = emo, sv_store = st, sv_msgs = msgs, sv_handler = AwaitSignal, sv_unregistered = False,
      sv_stopped = [], sv_errs = [], sv_sigs = [], sv_main = MainServes\<rparr>)"

section \<open>Events\<close>

datatype serve_event =
    SignalArrives string
  | HandlerRuns
  | ConsumerRuns
  | HttpReturns error
  | GrpcReturns error
  | MainSelects bool

text \<open>One step of \<open>Stop\<close>; a send on a full channel waits.  A cluster manager that was never made is a nil
  dereference.\<close>

definition handler_step ::
    "('e, 'v) etcd_ops \<Rightarrow> string \<Rightarrow> cluster_meta_config \<Rightarrow> ('r, 'e) serving \<Rightarrow> ('r, 'e) serving run" where
  "handler_step et rt conf sv =
     (case sv_handler sv of
        AwaitSignal \<Rightarrow> Ret sv
      | StopStatus sg \<Rightarrow>
          if \<not> cl_enabled (cm_cluster_mode conf) then Ret (sv\<lparr>sv_handler := StopGrpc sg\<rparr>)
          else if get_status (sy_pkg (sv_sys sv)) = Inactive then Ret (sv\<lparr>sv_handler := StopUnregister sg\<rparr>)
          else if sv_msgs sv \<noteq> [] then Ret sv
          else Ret (sv\<lparr>sv_sys := put_status Inactive (sv_sys sv), sv_msgs := [Inactive], sv_handler := StopUnregister sg\<rparr>)
      | StopUnregister sg \<Rightarrow>
          (case sv_em sv of
             None \<Rightarrow> Panic NilDereference
           | Some em \<Rightarrow> Ret (sv\<lparr>sv_store := unregister et rt em (sv_store sv), sv_unregistered := True, sv_handler := StopGrpc sg\<rparr>))
      | StopGrpc sg \<Rightarrow>
          Ret (sv\<lparr>sv_stopped := sv_stopped sv @ (if cm_grpc_enabled conf then [GrpcServer] else []), sv_handler := StopHttp sg\<rparr>)
      | StopHttp sg \<Rightarrow> Ret (sv\<lparr>sv_stopped := sv_stopped sv @ [HttpServer], sv_handler := StopTrace sg\<rparr>)
      | StopTrace sg \<Rightarrow> Ret (sv\<lparr>sv_stopped := sv_stopped sv @ [TraceProvider], sv_handler := StopMeter sg\<rparr>)
      | StopMeter sg \<Rightarrow> Ret (sv\<lparr>sv_stopped := sv_stopped sv @ [MeterProvider], sv_handler := StopSend sg\<rparr>)
      | StopSend sg \<Rightarrow>
          if sv_sigs sv \<noteq> [] then Ret sv else Ret (sv\<lparr>sv_sigs := [sg], sv_handler := HandlerDone\<rparr>)
      | HandlerDone \<Rightarrow> Ret sv)"

text \<open>The consumer: the one of \<open>Register\<close> publishes the status, the one of a single node throws it away.\<close>

definition consumer_step ::
    "'v codec \<Rightarrow> ('e, 'v) etcd_ops \<Rightarrow> string \<Rightarrow> ('r, 'e) serving \<Rightarrow> ('r, 'e) serving run" where
  "consumer_step cd et rt sv =
     (case sv_msgs sv of
        [] \<Rightarrow> Ret sv
      | status # rest \<Rightarrow>
          (case sv_em sv of
             None \<Rightarrow> Ret (sv\<lparr>sv_msgs := rest\<rparr>)
           | Some em \<Rightarrow> run_map (\<lambda>(em', st'). sv\<lparr>sv_msgs := rest, sv_em := Some em', sv_store := st'\<rparr>)
               (set_node_status cd et rt status em (sv_store sv))))"

text \<open>The \<open>select\<close> at the end of \<open>Start\<close>: with both channels ready it takes either, which \<open>err_first\<close> tells.
  \<open>main\<close> panics with the error and returns without one.\<close>

definition main_step :: "bool \<Rightarrow> ('r, 'e) serving \<Rightarrow> ('r, 'e) serving" where
  "main_step err_first sv =
     (if sv_errs sv \<noteq> [] \<and> (err_first \<or> sv_sigs sv = []) then sv\<lparr>sv_main := MainPanicked (hd (sv_errs sv))\<rparr>
      else if sv_sigs sv \<noteq> [] then sv\<lparr>sv_main := MainReturned\<rparr>
      else sv)"

definition listener_error :: "error \<Rightarrow> ('r, 'e) serving \<Rightarrow> ('r, 'e) serving" where
  "listener_error e sv = (if length (sv_errs sv) < 2 then sv\<lparr>sv_errs := sv_errs sv @ [e]\<rparr> else sv)"

text \<open>\<open>is_closed\<close> tells \<open>http.ErrServerClosed\<close>.  Nothing happens any more when \<open>main\<close> has ended.\<close>

definition serve_step ::
    "(error \<Rightarrow> bool) \<Rightarrow> 'v codec \<Rightarrow> ('e, 'v) etcd_ops \<Rightarrow> string \<Rightarrow> cluster_meta_config \<Rightarrow> serve_event \<Rightarrow> ('r, 'e) serving \<Rightarrow>
     ('r, 'e) serving run" where
  "serve_step is_closed cd et rt conf ev sv =
     (if sv_main sv \<noteq> MainServes then Ret sv
      else (case ev of
          SignalArrives sg \<Rightarrow> Ret (if sv_handler sv = AwaitSignal then sv\<lparr>sv_handler := StopStatus sg\<rparr> else sv)
        | HandlerRuns \<Rightarrow> handler_step et rt conf sv
        | ConsumerRuns \<Rightarrow> consumer_step cd et rt sv
        | HttpReturns e \<Rightarrow> Ret (if is_closed e then sv else listener_error e sv)
        | GrpcReturns e \<Rightarrow> Ret (if cm_grpc_enabled conf then listener_error e sv else sv)
        | MainSelects err_first \<Rightarrow> Ret (main_step err_first sv)))"

fun serve_run ::
    "(error \<Rightarrow> bool) \<Rightarrow> 'v codec \<Rightarrow> ('e, 'v) etcd_ops \<Rightarrow> string \<Rightarrow> cluster_meta_config \<Rightarrow> serve_event list \<Rightarrow> ('r, 'e) serving \<Rightarrow>
     ('r, 'e) serving run" where
  "serve_run is_closed cd et rt conf [] sv = Ret sv"
| "serve_run is_closed cd et rt conf (ev # evs) sv =
     run_bind (serve_step is_closed cd et rt conf ev sv) (serve_run is_closed cd et rt conf evs)"


section \<open>Lemmas\<close>

text \<open>What has been stopped when the handler stands at a place.\<close>

fun stopped_at :: "bool \<Rightarrow> handler_pc \<Rightarrow> server_part list" where
  "stopped_at grpc (StopHttp sg) = (if grpc then [GrpcServer] else [])"
| "stopped_at grpc (StopTrace sg) = (if grpc then [GrpcServer] else []) @ [HttpServer]"
| "stopped_at grpc (StopMeter sg) = (if grpc then [GrpcServer] else []) @ [HttpServer, TraceProvider]"
| "stopped_at grpc (StopSend sg) = (if grpc then [GrpcServer] else []) @ [HttpServer, TraceProvider, MeterProvider]"
| "stopped_at grpc HandlerDone = (if grpc then [GrpcServer] else []) @ [HttpServer, TraceProvider, MeterProvider]"
| "stopped_at grpc _ = []"

fun before_unregister :: "handler_pc \<Rightarrow> bool" where
  "before_unregister AwaitSignal = True"
| "before_unregister (StopStatus sg) = True"
| "before_unregister (StopUnregister sg) = True"
| "before_unregister _ = False"

definition serving_inv :: "cluster_meta_config \<Rightarrow> serve_event set \<Rightarrow> ('r, 'e) serving \<Rightarrow> bool" where
  "serving_inv conf seen sv \<longleftrightarrow>
     sv_stopped sv = stopped_at (cm_grpc_enabled conf) (sv_handler sv) \<and>
     (cl_enabled (cm_cluster_mode conf) \<longrightarrow> before_unregister (sv_handler sv) \<or> sv_unregistered sv) \<and>
     ((\<exists>sg. sv_handler sv = StopUnregister sg) \<longrightarrow> cl_enabled (cm_cluster_mode conf)) \<and>
     (sv_handler sv \<noteq> AwaitSignal \<longrightarrow> (\<exists>sg. SignalArrives sg \<in> seen)) \<and>
     (sv_sigs sv \<noteq> [] \<longrightarrow> sv_handler sv = HandlerDone) \<and>
     (\<forall>e \<in> set (sv_errs sv). HttpReturns e \<in> seen \<or> GrpcReturns e \<in> seen) \<and>
     (cl_enabled (cm_cluster_mode conf) \<longrightarrow> sv_em sv \<noteq> None) \<and>
     (\<forall>em. sv_em sv = Some em \<longrightarrow> em_lease em \<noteq> None) \<and>
     (case sv_main sv of
        MainServes \<Rightarrow> True
      | MainReturned \<Rightarrow> sv_handler sv = HandlerDone
      | MainPanicked e \<Rightarrow> e \<in> set (sv_errs sv))"

lemma set_node_status_lease:
  assumes "em_lease em \<noteq> None"
  shows "\<exists>em' st'. set_node_status cd et rt status em st = Ret (em', st') \<and> em_lease em' = em_lease em"
  using assms by (auto simp: set_node_status_def Let_def split: sum.splits)

lemma handler_step_inv:
  assumes "serving_inv conf seen sv" "sv_main sv = MainServes"
  shows "\<exists>sv'. handler_step et rt conf sv = Ret sv' \<and> serving_inv conf seen sv'"
  using assms
  by (cases "sv_handler sv") (auto simp: handler_step_def serving_inv_def split: option.splits)

lemma consumer_step_inv:
  assumes "serving_inv conf seen sv" "sv_main sv = MainServes"
  shows "\<exists>sv'. consumer_step cd et rt sv = Ret sv' \<and> serving_inv conf seen sv'"
proof (cases "sv_em sv")
  case None
  with assms show ?thesis by (auto simp: consumer_step_def serving_inv_def split: list.splits)
next
  case (Some em)
  with assms(1) have "em_lease em \<noteq> None" by (simp add: serving_inv_def)
  then obtain em' st' where "set_node_status cd et rt (hd (sv_msgs sv)) em (sv_store sv) = Ret (em', st')"
    "em_lease em' = em_lease em"
    using set_node_status_lease [of em cd et rt "hd (sv_msgs sv)" "sv_store sv"] by blast
  with assms Some show ?thesis by (cases "sv_msgs sv") (auto simp: consumer_step_def serving_inv_def)
qed

lemma serving_inv_mono: "serving_inv conf seen sv \<Longrightarrow> seen \<subseteq> seen' \<Longrightarrow> serving_inv conf seen' sv"
  unfolding serving_inv_def by blast

lemma serve_step_inv:
  assumes "serving_inv conf seen sv"
  shows "\<exists>sv'. serve_step closing cd et rt conf ev sv = Ret sv' \<and> serving_inv conf (insert ev seen) sv'"
proof (cases "sv_main sv = MainServes")
  case False
  with assms serving_inv_mono [OF assms subset_insertI] show ?thesis by (simp add: serve_step_def)
next
  case True
  note mono = serving_inv_mono [OF _ subset_insertI]
  show ?thesis
  proof (cases ev)
    case (SignalArrives sg)
    with True assms show ?thesis by (auto simp: serve_step_def serving_inv_def)
  next
    case HandlerRuns
    with handler_step_inv [OF assms True] True mono show ?thesis by (fastforce simp: serve_step_def)
  next
    case ConsumerRuns
    with consumer_step_inv [OF assms True] True mono show ?thesis by (fastforce simp: serve_step_def)
  next
    case (HttpReturns e)
    with True assms show ?thesis by (auto simp: serve_step_def serving_inv_def listener_error_def)
  next
    case (GrpcReturns e)
    with True assms show ?thesis by (auto simp: serve_step_def serving_inv_def listener_error_def)
  next
    case (MainSelects b)
    with True assms show ?thesis by (auto simp: serve_step_def serving_inv_def main_step_def)
  qed
qed

lemma serve_run_inv:
  "serving_inv conf seen sv \<Longrightarrow>
   \<exists>sv'. serve_run closing cd et rt conf evs sv = Ret sv' \<and> serving_inv conf (seen \<union> set evs) sv'"
proof (induction evs arbitrary: seen sv)
  case (Cons ev evs)
  from serve_step_inv [OF Cons.prems] obtain sv1 where 1: "serve_step closing cd et rt conf ev sv = Ret sv1"
    "serving_inv conf (insert ev seen) sv1" by blast
  from Cons.IH [OF 1(2)] 1(1) show ?case by auto
qed simp

section \<open>Properties\<close>




section \<open>Witnesses\<close>



end
