(* ===== verification/Faiss_Threads.thy ===== *)
theory Faiss_Threads
  imports Go_Sync Staged_Reload
begin

text \<open>
  \<open>internal/engine/faiss.go\<close> again, one shard used by many goroutines at once.  Each method is cut
  into the steps between which another goroutine may run: taking and releasing
  \<open>stagedMu\<close> and \<open>rw\<close>, the atomic flag \<open>reloading\<close>, reading a field, downloading, reading the file,
  and freeing a handle; a search holds its handle inside the C library for a while.  The assignments
  under the write lock are one step, since nobody else can look.  Every method has a
  program counter with its locals and one step function; an execution lets one thread after the other
  take a step, in any order.
\<close>

section \<open>Shared state and moves\<close>

record shard_sys =
  sh_heap :: c_heap
  sh_fx :: faiss_index
  sh_rw :: rw_mutex
  sh_staged_mu :: bool

datatype shard_query = QVectorCount | QMetricType | QInputDim | QAvailable | QRevision

datatype call_result =
    SearchRes search_out
  | StageRes "error + int"
  | ErrRes "error option"
  | UnitRes
  | IntRes int
  | TextRes string

text \<open>What a thread does when it is scheduled: it waits for a lock, goes on, returns or faults.\<close>

datatype 'p move = Blocked | Goto 'p shard_sys | Return call_result shard_sys | Fault fault

fun with_lock :: "'a option \<Rightarrow> ('a \<Rightarrow> 'p move) \<Rightarrow> 'p move" where
  "with_lock None f = Blocked"
| "with_lock (Some m) f = f m"

fun with_run :: "'a run \<Rightarrow> ('a \<Rightarrow> 'p move) \<Rightarrow> 'p move" where
  "with_run (Panic p) f = Fault p"
| "with_run (Ret x) f = f x"

fun map_move :: "('p \<Rightarrow> 'q) \<Rightarrow> (call_result \<Rightarrow> 'q) \<Rightarrow> 'p move \<Rightarrow> 'q move" where
  "map_move f g Blocked = Blocked"
| "map_move f g (Goto p s) = Goto (f p) s"
| "map_move f g (Return r s) = Goto (g r) s"
| "map_move f g (Fault e) = Fault e"

definition free_option :: "nat option \<Rightarrow> c_heap \<Rightarrow> c_heap run" where
  "free_option i h = (case i of None \<Rightarrow> Ret h | Some j \<Rightarrow> ch_free j h)"

abbreviation lock_staged :: "'p \<Rightarrow> shard_sys \<Rightarrow> 'p move" where
  "lock_staged p s \<equiv> with_lock (mu_lock (sh_staged_mu s)) (\<lambda>m. Goto p (s\<lparr>sh_staged_mu := m\<rparr>))"

abbreviation unlock_staged :: "call_result \<Rightarrow> shard_sys \<Rightarrow> 'p move" where
  "unlock_staged r s \<equiv> with_run (mu_unlock (sh_staged_mu s)) (\<lambda>m. Return r (s\<lparr>sh_staged_mu := m\<rparr>))"

abbreviation read_lock :: "'p \<Rightarrow> shard_sys \<Rightarrow> 'p move" where
  "read_lock p s \<equiv> with_lock (rw_rlock (sh_rw s)) (\<lambda>m. Goto p (s\<lparr>sh_rw := m\<rparr>))"

abbreviation announce_writer :: "'p \<Rightarrow> shard_sys \<Rightarrow> 'p move" where
  "announce_writer p s \<equiv> with_lock (rw_announce (sh_rw s)) (\<lambda>m. Goto p (s\<lparr>sh_rw := m\<rparr>))"

abbreviation enter_writer :: "'p \<Rightarrow> shard_sys \<Rightarrow> 'p move" where
  "enter_writer p s \<equiv> with_lock (rw_enter (sh_rw s)) (\<lambda>m. Goto p (s\<lparr>sh_rw := m\<rparr>))"

section \<open>Reading calls\<close>

datatype search_pc = SearchLock | SearchCheck | SearchCall | SearchInC nat | SearchUnlock search_out

fun search_step :: "f32 list \<Rightarrow> int \<Rightarrow> search_pc \<Rightarrow> shard_sys \<Rightarrow> search_pc move" where
  "search_step x k SearchLock s = read_lock SearchCheck s"
| "search_step x k SearchCheck s =
     (case fx_index (sh_fx s) of
       None \<Rightarrow> Goto (SearchUnlock (Inl (Cfg ErrNilIndex))) s
     | Some i \<Rightarrow>
         if x = [] then Goto (SearchUnlock (Inl (Cfg ErrEmptyInput))) s
         else with_run (ch_deref (sh_heap s) i) (\<lambda>d.
           if int (length x) < fd_d d then Goto (SearchUnlock (Inl (Cfg ErrWrongInputDimension))) s
           else Goto SearchCall s))"
| "search_step x k SearchCall s =
     (case fx_index (sh_fx s) of
       None \<Rightarrow> Fault NilDereference
     | Some i \<Rightarrow> with_run (ch_deref (sh_heap s) i) (\<lambda>_. Goto (SearchInC i) s))"
| "search_step x k (SearchInC i) s =
     with_run (ch_deref (sh_heap s) i) (\<lambda>d. Goto (SearchUnlock
       (case fd_search d x k of
         Inl e \<Rightarrow> Inl e
       | Inr (distances, int_labels) \<Rightarrow> Inr (distances, map itoa int_labels))) s)"
| "search_step x k (SearchUnlock out) s =
     with_run (rw_runlock (sh_rw s)) (\<lambda>m. Return (SearchRes out) (s\<lparr>sh_rw := m\<rparr>))"

fun run_query :: "shard_query \<Rightarrow> c_heap \<Rightarrow> faiss_index \<Rightarrow> call_result run" where
  "run_query QVectorCount h fx = run_map IntRes (vector_count h fx)"
| "run_query QMetricType h fx = run_map TextRes (faiss_metric_type h fx)"
| "run_query QInputDim h fx = run_map IntRes (faiss_input_dim h fx)"
| "run_query QAvailable h fx = Ret (ErrRes (check_available fx))"
| "run_query QRevision h fx = Ret (IntRes (fx_revision fx))"

datatype query_pc = QueryLock | QueryRead | QueryUnlock call_result

fun query_step :: "shard_query \<Rightarrow> query_pc \<Rightarrow> shard_sys \<Rightarrow> query_pc move" where
  "query_step q QueryLock s = read_lock QueryRead s"
| "query_step q QueryRead s = with_run (run_query q (sh_heap s) (sh_fx s)) (\<lambda>r. Goto (QueryUnlock r) s)"
| "query_step q (QueryUnlock r) s =
     with_run (rw_runlock (sh_rw s)) (\<lambda>m. Return r (s\<lparr>sh_rw := m\<rparr>))"

datatype staged_rev_pc = StagedRevLock | StagedRevRead | StagedRevUnlock int

fun staged_rev_step :: "staged_rev_pc \<Rightarrow> shard_sys \<Rightarrow> staged_rev_pc move" where
  "staged_rev_step StagedRevLock s = lock_staged StagedRevRead s"
| "staged_rev_step StagedRevRead s = Goto (StagedRevUnlock (staged_revision (sh_fx s))) s"
| "staged_rev_step (StagedRevUnlock r) s = unlock_staged (IntRes r) s"

section \<open>Staging, committing, discarding\<close>

datatype stage_pc =
    StageLock | StageFlag | StageSource
  | StageRLock downloader | StageRead downloader | StageRUnlock downloader int
  | StageDownload downloader int | StageReadFile string int | StageFreeOld nat int | StageStore nat int
  | StageClear "error + int" | StageUnlock "error + int"

definition set_flag :: "bool \<Rightarrow> shard_sys \<Rightarrow> shard_sys" where
  "set_flag b s = s\<lparr>sh_fx := (sh_fx s)\<lparr>fx_reloading := b\<rparr>\<rparr>"

fun stage_step :: "world \<Rightarrow> world \<Rightarrow> stage_pc \<Rightarrow> shard_sys \<Rightarrow> stage_pc move" where
  "stage_step w w' StageLock s = lock_staged StageFlag s"
| "stage_step w w' StageFlag s =
     (if fx_reloading (sh_fx s) then Goto (StageUnlock (Inl (Cfg ErrAlreadyReloading))) s
      else Goto StageSource (set_flag True s))"
| "stage_step w w' StageSource s =
     with_run (new_downloader w (mf_source (fx_manifest (sh_fx s))) (fx_shard (sh_fx s))) (\<lambda>dl.
       case dl of Inl e \<Rightarrow> Goto (StageClear (Inl e)) s | Inr d \<Rightarrow> Goto (StageRLock d) s)"
| "stage_step w w' (StageRLock d) s = read_lock (StageRead d) s"
| "stage_step w w' (StageRead d) s = Goto (StageRUnlock d (fx_revision (sh_fx s))) s"
| "stage_step w w' (StageRUnlock d seen) s =
     with_run (rw_runlock (sh_rw s)) (\<lambda>m. Goto (StageDownload d seen) (s\<lparr>sh_rw := m\<rparr>))"
| "stage_step w w' (StageDownload d seen) s =
     (case download_update w w' d seen of
       (p, r, Some e) \<Rightarrow> Goto (StageClear (Inl e)) s
     | (p, r, None) \<Rightarrow> Goto (StageReadFile p r) s)"
| "stage_step w w' (StageReadFile p r) s =
     (case read_index w' p (sh_heap s) of
       (h, Inl e) \<Rightarrow> Goto (StageClear (Inl e)) (s\<lparr>sh_heap := h\<rparr>)
     | (h, Inr i) \<Rightarrow> Goto (StageFreeOld i r) (s\<lparr>sh_heap := h\<rparr>))"
| "stage_step w w' (StageFreeOld i r) s =
     with_run (free_option (fx_staged_index (sh_fx s)) (sh_heap s)) (\<lambda>h.
       Goto (StageStore i r) (s\<lparr>sh_heap := h\<rparr>))"
| "stage_step w w' (StageStore i r) s =
     Goto (StageClear (Inr r))
       (s\<lparr>sh_fx := (sh_fx s)\<lparr>fx_staged_index := Some i, fx_staged_revision := r\<rparr>\<rparr>)"
| "stage_step w w' (StageClear res) s = Goto (StageUnlock res) (set_flag False s)"
| "stage_step w w' (StageUnlock res) s = unlock_staged (StageRes res) s"

datatype commit_pc =
    CommitLock | CommitCheck | CommitAnnounce | CommitWait | CommitSwap
  | CommitRelease "nat option" | CommitFree "nat option" | CommitUnlock "error option"

fun commit_step :: "int \<Rightarrow> commit_pc \<Rightarrow> shard_sys \<Rightarrow> commit_pc move" where
  "commit_step expected CommitLock s = lock_staged CommitCheck s"
| "commit_step expected CommitCheck s =
     (let fx = sh_fx s in
      if fx_staged_index fx = None then
        Goto (CommitUnlock (Some (ErrText (''nothing staged for shard '' @ shard_key (fx_shard fx))))) s
      else if fx_staged_revision fx \<noteq> expected then
        Goto (CommitUnlock (Some (ErrText (''staged revision '' @ itoa (fx_staged_revision fx) @ '' != expected ''
                @ itoa expected @ '' for shard '' @ shard_key (fx_shard fx))))) s
      else Goto CommitAnnounce s)"
| "commit_step expected CommitAnnounce s = announce_writer CommitWait s"
| "commit_step expected CommitWait s = enter_writer CommitSwap s"
| "commit_step expected CommitSwap s =
     (let fx = sh_fx s in
      Goto (CommitRelease (fx_index fx))
        (s\<lparr>sh_fx := fx\<lparr>fx_index := fx_staged_index fx, fx_revision := fx_staged_revision fx,
                         fx_staged_index := None, fx_staged_revision := 0\<rparr>\<rparr>))"
| "commit_step expected (CommitRelease old) s =
     with_run (rw_unlock (sh_rw s)) (\<lambda>m. Goto (CommitFree old) (s\<lparr>sh_rw := m\<rparr>))"
| "commit_step expected (CommitFree old) s =
     with_run (free_option old (sh_heap s)) (\<lambda>h. Goto (CommitUnlock None) (s\<lparr>sh_heap := h\<rparr>))"
| "commit_step expected (CommitUnlock res) s = unlock_staged (ErrRes res) s"

datatype discard_pc = DiscardLock | DiscardFree | DiscardClear | DiscardUnlock

fun discard_step :: "discard_pc \<Rightarrow> shard_sys \<Rightarrow> discard_pc move" where
  "discard_step DiscardLock s = lock_staged DiscardFree s"
| "discard_step DiscardFree s =
     (case fx_staged_index (sh_fx s) of
       None \<Rightarrow> Goto DiscardUnlock s
     | Some i \<Rightarrow> with_run (ch_free i (sh_heap s)) (\<lambda>h. Goto DiscardClear (s\<lparr>sh_heap := h\<rparr>)))"
| "discard_step DiscardClear s =
     Goto DiscardUnlock (s\<lparr>sh_fx := (sh_fx s)\<lparr>fx_staged_index := None, fx_staged_revision := 0\<rparr>\<rparr>)"
| "discard_step DiscardUnlock s = unlock_staged UnitRes s"

section \<open>Immediate reload and deletion\<close>

datatype reload_pc =
    ReloadFlag | ReloadSource | ReloadRLock downloader | ReloadDownload downloader
  | ReloadRUnlock string int "error option" | ReloadCheck string int "error option" | ReloadReadFile string int
  | ReloadAnnounce nat int | ReloadWait nat int | ReloadSwap nat int | ReloadRelease
  | ReloadClear "error option"

fun reload_step :: "world \<Rightarrow> world \<Rightarrow> reload_pc \<Rightarrow> shard_sys \<Rightarrow> reload_pc move" where
  "reload_step w w' ReloadFlag s =
     (if fx_reloading (sh_fx s) then Return (ErrRes (Some (Cfg ErrAlreadyReloading))) s
      else Goto ReloadSource (set_flag True s))"
| "reload_step w w' ReloadSource s =
     with_run (new_downloader w (mf_source (fx_manifest (sh_fx s))) (fx_shard (sh_fx s))) (\<lambda>dl.
       case dl of Inl e \<Rightarrow> Goto (ReloadClear (Some e)) s | Inr d \<Rightarrow> Goto (ReloadRLock d) s)"
| "reload_step w w' (ReloadRLock d) s = read_lock (ReloadDownload d) s"
| "reload_step w w' (ReloadDownload d) s =
     (case download_update w w' d (fx_revision (sh_fx s)) of (p, r, err) \<Rightarrow> Goto (ReloadRUnlock p r err) s)"
| "reload_step w w' (ReloadRUnlock p r err) s =
     with_run (rw_runlock (sh_rw s)) (\<lambda>m. Goto (ReloadCheck p r err) (s\<lparr>sh_rw := m\<rparr>))"
| "reload_step w w' (ReloadCheck p r err) s =
     (case err of
       Some e \<Rightarrow> if \<not> err_is e ErrIndexRevisionUpToDate then Goto (ReloadClear (Some e)) s
                 else Goto (ReloadReadFile p r) s
     | None \<Rightarrow> Goto (ReloadReadFile p r) s)"
| "reload_step w w' (ReloadReadFile p r) s =
     (case read_index w' p (sh_heap s) of
       (h, Inl e) \<Rightarrow> Goto (ReloadClear (Some e)) (s\<lparr>sh_heap := h\<rparr>)
     | (h, Inr i) \<Rightarrow> Goto (ReloadAnnounce i r) (s\<lparr>sh_heap := h\<rparr>))"
| "reload_step w w' (ReloadAnnounce i r) s = announce_writer (ReloadWait i r) s"
| "reload_step w w' (ReloadWait i r) s = enter_writer (ReloadSwap i r) s"
| "reload_step w w' (ReloadSwap i r) s =
     Goto ReloadRelease (s\<lparr>sh_fx := (sh_fx s)\<lparr>fx_index := Some i, fx_revision := r\<rparr>\<rparr>)"
| "reload_step w w' ReloadRelease s =
     with_run (rw_unlock (sh_rw s)) (\<lambda>m. Goto (ReloadClear None) (s\<lparr>sh_rw := m\<rparr>))"
| "reload_step w w' (ReloadClear res) s = Return (ErrRes res) (set_flag False s)"

datatype delete_pc = DeleteStaged discard_pc | DeleteAnnounce | DeleteWait | DeleteIndex | DeleteRelease

fun delete_step :: "delete_pc \<Rightarrow> shard_sys \<Rightarrow> delete_pc move" where
  "delete_step (DeleteStaged p) s = map_move DeleteStaged (\<lambda>_. DeleteAnnounce) (discard_step p s)"
| "delete_step DeleteAnnounce s = announce_writer DeleteWait s"
| "delete_step DeleteWait s = enter_writer DeleteIndex s"
| "delete_step DeleteIndex s =
     (case fx_index (sh_fx s) of
       None \<Rightarrow> Fault NilDereference
     | Some i \<Rightarrow> with_run (ch_free i (sh_heap s)) (\<lambda>h. Goto DeleteRelease (s\<lparr>sh_heap := h\<rparr>)))"
| "delete_step DeleteRelease s =
     with_run (rw_unlock (sh_rw s)) (\<lambda>m. Return UnitRes (s\<lparr>sh_rw := m\<rparr>))"

section \<open>Threads and schedules\<close>

datatype thread =
    Searching "f32 list" int search_pc
  | Querying shard_query query_pc
  | StagedRev staged_rev_pc
  | Staging world world stage_pc
  | Committing int commit_pc
  | Discarding discard_pc
  | Reloading world world reload_pc
  | Deleting delete_pc
  | Returned call_result

fun thread_step :: "thread \<Rightarrow> shard_sys \<Rightarrow> thread move" where
  "thread_step (Searching x k p) s = map_move (Searching x k) Returned (search_step x k p s)"
| "thread_step (Querying q p) s = map_move (Querying q) Returned (query_step q p s)"
| "thread_step (StagedRev p) s = map_move StagedRev Returned (staged_rev_step p s)"
| "thread_step (Staging w w' p) s = map_move (Staging w w') Returned (stage_step w w' p s)"
| "thread_step (Committing e p) s = map_move (Committing e) Returned (commit_step e p s)"
| "thread_step (Discarding p) s = map_move Discarding Returned (discard_step p s)"
| "thread_step (Reloading w w' p) s = map_move (Reloading w w') Returned (reload_step w w' p s)"
| "thread_step (Deleting p) s = map_move Deleting Returned (delete_step p s)"
| "thread_step (Returned r) s = Blocked"

text \<open>A schedule names the thread that is to take the next step; a thread that has to wait stays
  where it is.\<close>

fun run_schedule :: "nat list \<Rightarrow> shard_sys \<times> thread list \<Rightarrow> (shard_sys \<times> thread list) run" where
  "run_schedule [] c = Ret c"
| "run_schedule (i # is) (s, ts) =
     (if i < length ts then
        (case thread_step (ts ! i) s of
           Goto t s' \<Rightarrow> run_schedule is (s', ts[i := t])
         | Fault f \<Rightarrow> Panic f
         | _ \<Rightarrow> run_schedule is (s, ts))
      else run_schedule is (s, ts))"

end
