(* ===== verification/Thread_Invariant.thy ===== *)
theory Thread_Invariant
  imports Faiss_Threads
begin

text \<open>
  The locking discipline of one shard: which program counters hold which lock, who owns which FAISS
  handle, and what a thread may rely on between its steps.  The invariant counts the holders, so
  it holds for any number of threads.  Every step of every method keeps it and no step faults.
\<close>

section \<open>What a program counter holds\<close>

fun holds_read :: "thread \<Rightarrow> bool" where
  "holds_read (Searching x k p) = (p \<noteq> SearchLock)"
| "holds_read (Querying q p) = (p \<noteq> QueryLock)"
| "holds_read (Staging w w' (StageRead d)) = True"
| "holds_read (Staging w w' (StageRUnlock d r)) = True"
| "holds_read (Reloading w w' (ReloadDownload d)) = True"
| "holds_read (Reloading w w' (ReloadRUnlock p r e)) = True"
| "holds_read _ = False"

fun waits_write :: "thread \<Rightarrow> bool" where
  "waits_write (Committing e CommitWait) = True"
| "waits_write (Reloading w w' (ReloadWait i r)) = True"
| "waits_write (Deleting DeleteWait) = True"
| "waits_write _ = False"

fun holds_write :: "thread \<Rightarrow> bool" where
  "holds_write (Committing e CommitSwap) = True"
| "holds_write (Committing e (CommitRelease i)) = True"
| "holds_write (Reloading w w' (ReloadSwap i r)) = True"
| "holds_write (Reloading w w' ReloadRelease) = True"
| "holds_write (Deleting DeleteIndex) = True"
| "holds_write (Deleting DeleteRelease) = True"
| "holds_write _ = False"

fun holds_staged :: "thread \<Rightarrow> bool" where
  "holds_staged (StagedRev p) = (p \<noteq> StagedRevLock)"
| "holds_staged (Staging w w' p) = (p \<noteq> StageLock)"
| "holds_staged (Committing e p) = (p \<noteq> CommitLock)"
| "holds_staged (Discarding p) = (p \<noteq> DiscardLock)"
| "holds_staged (Deleting (DeleteStaged p)) = (p \<noteq> DiscardLock)"
| "holds_staged _ = False"

fun holds_flag :: "thread \<Rightarrow> bool" where
  "holds_flag (Staging w w' StageLock) = False"
| "holds_flag (Staging w w' StageFlag) = False"
| "holds_flag (Staging w w' (StageUnlock r)) = False"
| "holds_flag (Staging w w' p) = True"
| "holds_flag (Reloading w w' p) = (p \<noteq> ReloadFlag)"
| "holds_flag _ = False"

text \<open>The handle a thread alone can free or publish, and the moments when the staged pointer is dead.\<close>

fun owned_handle :: "thread \<Rightarrow> nat option" where
  "owned_handle (Staging w w' (StageFreeOld i r)) = Some i"
| "owned_handle (Staging w w' (StageStore i r)) = Some i"
| "owned_handle (Committing e (CommitRelease i)) = i"
| "owned_handle (Committing e (CommitFree i)) = i"
| "owned_handle (Reloading w w' (ReloadAnnounce i r)) = Some i"
| "owned_handle (Reloading w w' (ReloadWait i r)) = Some i"
| "owned_handle (Reloading w w' (ReloadSwap i r)) = Some i"
| "owned_handle _ = None"

fun staged_dead :: "thread \<Rightarrow> bool" where
  "staged_dead (Staging w w' (StageStore i r)) = True"
| "staged_dead (Discarding DiscardClear) = True"
| "staged_dead _ = False"

abbreviation sh_data :: "shard_sys \<Rightarrow> nat option \<Rightarrow> faiss_data option" where
  "sh_data s i \<equiv> fx_data (sh_heap s) i"

text \<open>The source of a reload: what \<open>newDownloadFn\<close> made of the manifest.\<close>

definition reads_source :: "world \<Rightarrow> downloader \<Rightarrow> faiss_index \<Rightarrow> bool" where
  "reads_source w d fx \<longleftrightarrow> new_downloader w (mf_source (fx_manifest fx)) (fx_shard fx) = Ret (Inr d)"

definition searchable :: "f32 list \<Rightarrow> shard_sys \<Rightarrow> bool" where
  "searchable x s \<longleftrightarrow> x \<noteq> [] \<and>
     (case sh_data s (fx_index (sh_fx s)) of None \<Rightarrow> False | Some d \<Rightarrow> fd_d d \<le> int (length x))"

text \<open>What a thread relies on between two of its steps.\<close>

fun thread_ok :: "shard_sys \<Rightarrow> thread \<Rightarrow> bool" where
  "thread_ok s (Searching x k SearchCall) = searchable x s"
| "thread_ok s (Searching x k (SearchInC i)) = (searchable x s \<and> fx_index (sh_fx s) = Some i)"
| "thread_ok s (Staging w w' (StageRLock d)) = reads_source w d (sh_fx s)"
| "thread_ok s (Staging w w' (StageRead d)) = reads_source w d (sh_fx s)"
| "thread_ok s (Staging w w' (StageRUnlock d r)) = (reads_source w d (sh_fx s) \<and> r = fx_revision (sh_fx s))"
| "thread_ok s (Staging w w' (StageDownload d r)) = (reads_source w d (sh_fx s) \<and> r = fx_revision (sh_fx s))"
| "thread_ok s (Staging w w' (StageReadFile p r)) =
     (\<exists>d. reads_source w d (sh_fx s) \<and> download_update w w' d (fx_revision (sh_fx s)) = (p, r, None))"
| "thread_ok s (Staging w w' (StageFreeOld i r)) =
     (\<exists>d p fd. reads_source w d (sh_fx s) \<and> download_update w w' d (fx_revision (sh_fx s)) = (p, r, None) \<and>
        w_read_index w' p = Inr fd \<and> sh_data s (Some i) = Some fd)"
| "thread_ok s (Staging w w' (StageStore i r)) =
     (\<exists>d p fd. reads_source w d (sh_fx s) \<and> download_update w w' d (fx_revision (sh_fx s)) = (p, r, None) \<and>
        w_read_index w' p = Inr fd \<and> sh_data s (Some i) = Some fd)"
| "thread_ok s (Committing e CommitAnnounce) = (fx_staged_index (sh_fx s) \<noteq> None \<and> fx_staged_revision (sh_fx s) = e)"
| "thread_ok s (Committing e CommitWait) = (fx_staged_index (sh_fx s) \<noteq> None \<and> fx_staged_revision (sh_fx s) = e)"
| "thread_ok s (Committing e CommitSwap) = (fx_staged_index (sh_fx s) \<noteq> None \<and> fx_staged_revision (sh_fx s) = e)"
| "thread_ok s (Deleting p) = False"
| "thread_ok s _ = True"

section \<open>The invariant\<close>

text \<open>
  \<open>lock_inv\<close>: the locks record exactly how many threads hold them.  \<open>handle_inv\<close>: every
  handle has at most one owner among the serving pointer, the staged pointer and the threads,
  and a handle with an owner is live.
\<close>

definition lock_inv :: "shard_sys \<Rightarrow> thread list \<Rightarrow> bool" where
  "lock_inv s ts \<longleftrightarrow>
     rw_readers (sh_rw s) = tcount holds_read ts \<and>
     one_if (rw_pending (sh_rw s)) = tcount waits_write ts \<and>
     one_if (rw_writer (sh_rw s)) = tcount holds_write ts \<and>
     (rw_writer (sh_rw s) \<longrightarrow> rw_readers (sh_rw s) = 0 \<and> \<not> rw_pending (sh_rw s)) \<and>
     one_if (sh_staged_mu s) = tcount holds_staged ts \<and>
     one_if (fx_reloading (sh_fx s)) = tcount holds_flag ts"

definition owners :: "nat \<Rightarrow> shard_sys \<Rightarrow> thread list \<Rightarrow> nat" where
  "owners i s ts = one_if (fx_index (sh_fx s) = Some i) +
     one_if (fx_staged_index (sh_fx s) = Some i \<and> tcount staged_dead ts = 0) +
     tcount (\<lambda>t. owned_handle t = Some i) ts"

definition handle_inv :: "shard_sys \<Rightarrow> thread list \<Rightarrow> bool" where
  "handle_inv s ts \<longleftrightarrow>
     ch_ok (sh_heap s) \<and> (\<forall>i. owners i s ts \<le> one_if (i \<in> ch_handles (sh_heap s)))"

definition shard_inv :: "shard_sys \<Rightarrow> thread list \<Rightarrow> bool" where
  "shard_inv s ts \<longleftrightarrow>
     lock_inv s ts \<and> handle_inv s ts \<and> (\<forall>t \<in> set ts. thread_ok s t) \<and>
     mf_source (fx_manifest (sh_fx s)) \<noteq> None \<and> fx_index (sh_fx s) \<noteq> None \<and>
     (fx_staged_index (sh_fx s) = None \<longrightarrow> fx_staged_revision (sh_fx s) = 0)"


section \<open>Steps keep the invariant\<close>

named_theorems thread_simps \<open>unfolding of steps of the threads\<close>

lemmas [thread_simps] = lock_defs set_flag_def

lemma map_move_Goto [thread_simps]:
  "map_move f g m = Goto q s' \<longleftrightarrow> (\<exists>p. m = Goto p s' \<and> q = f p) \<or> (\<exists>r. m = Return r s' \<and> q = g r)"
  by (cases m) auto

lemma map_move_Return [thread_simps]: "map_move f g m \<noteq> Return r s'"
  by (cases m) auto

lemma with_lock_eq [thread_simps]:
  "with_lock l f = Goto p s' \<longleftrightarrow> (\<exists>m. l = Some m \<and> f m = Goto p s')"
  "with_lock l f = Return r s' \<longleftrightarrow> (\<exists>m. l = Some m \<and> f m = Return r s')"
  by (cases l; simp)+

lemma with_run_eq [thread_simps]:
  "with_run l f = Goto p s' \<longleftrightarrow> (\<exists>m. l = Ret m \<and> f m = Goto p s')"
  "with_run l f = Return r s' \<longleftrightarrow> (\<exists>m. l = Ret m \<and> f m = Return r s')"
  by (cases l; simp)+

lemma case_sum_move [thread_simps]:
  "(case m of Inl e \<Rightarrow> f e | Inr d \<Rightarrow> g d) = Goto p s' \<longleftrightarrow>
     (\<exists>e. m = Inl e \<and> f e = Goto p s') \<or> (\<exists>d. m = Inr d \<and> g d = Goto p s')"
  "(case m of Inl e \<Rightarrow> f e | Inr d \<Rightarrow> g d) = Return r s' \<longleftrightarrow>
     (\<exists>e. m = Inl e \<and> f e = Return r s') \<or> (\<exists>d. m = Inr d \<and> g d = Return r s')"
  by (cases m; simp)+

lemma lock_step:
  assumes "lock_inv s (t # ts)" "thread_step t s = Goto t' s'"
  shows "lock_inv s' (t' # ts)"
proof (cases t)
  case (Searching x k p)
  with assms show ?thesis
    by (cases p; simp add: lock_inv_def; auto simp: thread_simps split: option.splits if_splits)
next
  case (Querying q p)
  with assms show ?thesis by (cases p; simp add: lock_inv_def; auto simp: thread_simps split: if_splits)
next
  case (StagedRev p)
  with assms show ?thesis by (cases p; simp add: lock_inv_def; auto simp: thread_simps split: if_splits)
next
  case (Staging w w' p)
  with assms show ?thesis
    by (cases p; simp add: lock_inv_def;
        auto simp: thread_simps split: if_splits prod.splits option.splits)
next
  case (Committing e p)
  with assms show ?thesis
    by (cases p; simp add: lock_inv_def; auto simp: thread_simps Let_def split: if_splits option.splits)
next
  case (Discarding p)
  with assms show ?thesis
    by (cases p; simp add: lock_inv_def; auto simp: thread_simps split: if_splits option.splits)
next
  case (Reloading w w' p)
  with assms show ?thesis
    by (cases p; simp add: lock_inv_def;
        auto simp: thread_simps split: if_splits prod.splits option.splits)
next
  case (Deleting p)
  show ?thesis
  proof (cases p)
    case (DeleteStaged q)
    with Deleting assms show ?thesis
      by (cases q; simp add: lock_inv_def; auto simp: thread_simps split: if_splits option.splits)
  qed (use Deleting assms in \<open>simp add: lock_inv_def; auto simp: thread_simps split: if_splits option.splits\<close>)+
qed (use assms in simp)


text \<open>What a step leaves alone: the serving fields without the write lock, the staged fields without
  \<open>stagedMu\<close>, the revision without either \<open>stagedMu\<close> or the flag, and every handle that is neither
  the thread's own nor the staged one it is about to replace.\<close>

definition may_free :: "thread \<Rightarrow> shard_sys \<Rightarrow> nat \<Rightarrow> bool" where
  "may_free t s i \<longleftrightarrow> owned_handle t = Some i \<or>
     holds_staged t \<and> \<not> staged_dead t \<and> fx_staged_index (sh_fx s) = Some i"

definition step_frame :: "thread \<Rightarrow> shard_sys \<Rightarrow> shard_sys \<Rightarrow> bool" where
  "step_frame t s s' \<longleftrightarrow>
     fx_manifest (sh_fx s') = fx_manifest (sh_fx s) \<and> fx_shard (sh_fx s') = fx_shard (sh_fx s) \<and>
     (\<not> holds_write t \<longrightarrow> fx_index (sh_fx s') = fx_index (sh_fx s) \<and> fx_revision (sh_fx s') = fx_revision (sh_fx s)) \<and>
     (\<not> holds_staged t \<and> \<not> holds_flag t \<longrightarrow> fx_revision (sh_fx s') = fx_revision (sh_fx s)) \<and>
     (\<not> holds_staged t \<longrightarrow> fx_staged_index (sh_fx s') = fx_staged_index (sh_fx s) \<and>
        fx_staged_revision (sh_fx s') = fx_staged_revision (sh_fx s)) \<and>
     (ch_ok (sh_heap s) \<longrightarrow> ch_ok (sh_heap s') \<and> (\<forall>i \<in> ch_handles (sh_heap s). \<not> may_free t s i \<longrightarrow>
        sm_load (ch_live (sh_heap s')) i = sm_load (ch_live (sh_heap s)) i))"

lemma step_frame_heap_same:
  "sh_heap s' = sh_heap s \<Longrightarrow> step_frame t s s' \<longleftrightarrow>
     fx_manifest (sh_fx s') = fx_manifest (sh_fx s) \<and> fx_shard (sh_fx s') = fx_shard (sh_fx s) \<and>
     (\<not> holds_write t \<longrightarrow> fx_index (sh_fx s') = fx_index (sh_fx s) \<and> fx_revision (sh_fx s') = fx_revision (sh_fx s)) \<and>
     (\<not> holds_staged t \<and> \<not> holds_flag t \<longrightarrow> fx_revision (sh_fx s') = fx_revision (sh_fx s)) \<and>
     (\<not> holds_staged t \<longrightarrow> fx_staged_index (sh_fx s') = fx_staged_index (sh_fx s) \<and>
        fx_staged_revision (sh_fx s') = fx_staged_revision (sh_fx s))"
  by (auto simp: step_frame_def)

lemma free_frame:
  assumes "ch_free j (sh_heap s) = Ret h" "may_free t s j"
  shows "step_frame t s (s\<lparr>sh_heap := h\<rparr>)"
  using assms by (auto simp: step_frame_def ch_free_def ch_ok_def ch_handles_def split: option.splits)

lemma read_frame:
  assumes "read_index w p (sh_heap s) = (h, r)"
  shows "step_frame t s (s\<lparr>sh_heap := h\<rparr>)"
  using assms
  by (auto simp: step_frame_def read_index_def ch_alloc_def ch_ok_def ch_handles_def less_Suc_eq
      split: sum.splits)

lemma free_option_frame:
  assumes "free_option j (sh_heap s) = Ret h" "\<And>i. j = Some i \<Longrightarrow> may_free t s i"
  shows "step_frame t s (s\<lparr>sh_heap := h\<rparr>)"
  using assms free_frame [of _ s h t]
  by (cases j) (auto simp: free_option_def step_frame_def)

lemma step_frames:
  assumes "thread_step t s = Goto t' s'" "\<And>p. t \<noteq> Deleting p"
  shows "step_frame t s s'"
proof (cases t)
  case (Searching x k p)
  with assms show ?thesis
    by (cases p) (auto simp: step_frame_heap_same thread_simps split: option.splits if_splits)
next
  case (Querying q p)
  with assms show ?thesis by (cases p) (auto simp: step_frame_heap_same thread_simps split: if_splits)
next
  case (StagedRev p)
  with assms show ?thesis by (cases p) (auto simp: step_frame_heap_same thread_simps split: if_splits)
next
  case (Staging w w' p)
  show ?thesis
  proof (cases p)
    case (StageReadFile path r)
    with Staging assms show ?thesis by (auto simp: thread_simps split: prod.splits intro: read_frame)
  next
    case (StageFreeOld i r)
    with Staging assms show ?thesis by (auto simp: thread_simps may_free_def intro: free_option_frame)
  qed (use Staging assms in \<open>auto simp: step_frame_heap_same thread_simps
        split: if_splits prod.splits option.splits\<close>)
next
  case (Committing e p)
  show ?thesis
  proof (cases p)
    case (CommitFree i)
    with Committing assms show ?thesis by (auto simp: thread_simps may_free_def intro: free_option_frame)
  qed (use Committing assms in \<open>auto simp: step_frame_heap_same thread_simps Let_def split: if_splits\<close>)
next
  case (Discarding p)
  show ?thesis
  proof (cases p)
    case DiscardFree
    with Discarding assms show ?thesis
      by (auto simp: step_frame_heap_same thread_simps may_free_def split: option.splits intro: free_frame)
  qed (use Discarding assms in \<open>auto simp: step_frame_heap_same thread_simps split: if_splits\<close>)
next
  case (Reloading w w' p)
  show ?thesis
  proof (cases p)
    case (ReloadReadFile path r)
    with Reloading assms show ?thesis by (auto simp: thread_simps split: prod.splits intro: read_frame)
  qed (use Reloading assms in \<open>auto simp: step_frame_heap_same thread_simps
        split: if_splits prod.splits option.splits\<close>)
qed (use assms in simp_all)


text \<open>Whoever sees the staged pointer dead holds \<open>stagedMu\<close>.\<close>

lemma staged_dead_locked: "staged_dead t \<Longrightarrow> holds_staged t"
  by (cases t rule: staged_dead.cases) auto

lemma alone_with_staged:
  assumes "lock_inv s (t # ts)" "holds_staged t"
  shows "tcount holds_staged ts = 0" "tcount staged_dead ts = 0"
proof -
  show "tcount holds_staged ts = 0" using assms by (auto simp: lock_inv_def)
  with tcount_mono [of staged_dead holds_staged ts, OF staged_dead_locked]
  show "tcount staged_dead ts = 0" by simp
qed

lemma owner_live:
  assumes "handle_inv s ts" "0 < owners i s ts"
  shows "i \<in> ch_handles (sh_heap s)"
proof (rule ccontr)
  assume "i \<notin> ch_handles (sh_heap s)"
  with assms show False by (metis handle_inv_def one_if_simps(2) leD)
qed

text \<open>The owners of a handle do not change when neither the pointers nor the thread's own handle do.\<close>

lemma handle_same:
  assumes "handle_inv s (t # ts)" "sh_heap s' = sh_heap s" "fx_index (sh_fx s') = fx_index (sh_fx s)"
    and "fx_staged_index (sh_fx s') = fx_staged_index (sh_fx s)"
    and "owned_handle t' = owned_handle t" "staged_dead t' = staged_dead t \<or> fx_staged_index (sh_fx s) = None"
  shows "handle_inv s' (t' # ts)"
  using assms by (auto simp: handle_inv_def owners_def)

lemma handle_fewer:
  assumes "handle_inv s ts" "sh_heap s' = sh_heap s" "\<And>i. owners i s' ts' \<le> owners i s ts"
  shows "handle_inv s' ts'"
  using assms by (auto simp: handle_inv_def intro: order_trans)

lemma handle_alloc:
  assumes "handle_inv s (t # ts)" "read_index w p (sh_heap s) = (h, Inr i)"
    and "owned_handle t = None" "owned_handle t' = Some i" "staged_dead t' = staged_dead t"
  shows "handle_inv (s\<lparr>sh_heap := h\<rparr>) (t' # ts)"
proof -
  from assms(2) obtain d where a: "ch_alloc d (sh_heap s) = (i, h)"
    by (auto simp: read_index_def split: sum.splits prod.splits)
  note ok = ch_alloc_handles [OF a] ch_alloc_ok [OF a]
  have own: "owners j s (t # ts) \<le> one_if (j \<in> ch_handles (sh_heap s))" for j
    using assms(1) by (simp add: handle_inv_def)
  have fresh: "i \<notin> ch_handles (sh_heap s)"
    using assms(1) ok(1) ch_ok_fresh by (auto simp: handle_inv_def)
  then have "owners i s (t # ts) = 0" using own [of i] by simp
  then have "owners j (s\<lparr>sh_heap := h\<rparr>) (t' # ts) \<le> one_if (j \<in> ch_handles h)" for j
    using own [of j] ok(1) assms(3,4,5) fresh by (cases "j = i") (auto simp: owners_def)
  with ok(2) assms(1) show ?thesis by (simp add: handle_inv_def)
qed

lemma handle_error:
  "handle_inv s (t # ts) \<Longrightarrow> read_index w p (sh_heap s) = (h, Inl e) \<Longrightarrow> owned_handle t' = owned_handle t \<Longrightarrow>
   staged_dead t' = staged_dead t \<Longrightarrow> handle_inv (s\<lparr>sh_heap := h\<rparr>) (t' # ts)"
  by (cases "w_read_index w p") (auto simp: read_index_def handle_inv_def owners_def split: prod.splits)

lemma handle_free:
  assumes "handle_inv s (t # ts)" "ch_free i (sh_heap s) = Ret h"
    and "\<And>j. owners j (s\<lparr>sh_heap := h\<rparr>) (t' # ts) + one_if (i = j) \<le> owners j s (t # ts)"
  shows "handle_inv (s\<lparr>sh_heap := h\<rparr>) (t' # ts)"
proof -
  have h: "ch_handles h = ch_handles (sh_heap s) - {i}" "ch_ok (sh_heap s) \<Longrightarrow> ch_ok h"
    using assms(2) by (auto simp: ch_free_def ch_handles_def ch_ok_def split: option.splits)
  have "owners j (s\<lparr>sh_heap := h\<rparr>) (t' # ts) \<le> one_if (j \<in> ch_handles h)" for j
  proof -
    have "owners j s (t # ts) \<le> one_if (j \<in> ch_handles (sh_heap s))"
      using assms(1) by (simp add: handle_inv_def)
    with assms(3) [of j] h(1) one_if_le [of "j \<in> ch_handles (sh_heap s)"] show ?thesis
      by (cases "i = j") auto
  qed
  with assms(1) h(2) show ?thesis by (simp add: handle_inv_def)
qed

lemma handle_step:
  assumes "lock_inv s (t # ts)" "handle_inv s (t # ts)" "thread_step t s = Goto t' s'" "\<And>p. t \<noteq> Deleting p"
  shows "handle_inv s' (t' # ts)"
proof (cases t)
  case (Searching x k p)
  with assms show ?thesis
    by (cases p) (auto simp: thread_simps split: option.splits if_splits intro: handle_same)
next
  case (Querying q p)
  with assms show ?thesis by (cases p) (auto simp: thread_simps split: if_splits intro: handle_same)
next
  case (StagedRev p)
  with assms show ?thesis by (cases p) (auto simp: thread_simps split: if_splits intro: handle_same)
next
  case (Staging w w' p)
  show ?thesis
  proof (cases p)
    case (StageReadFile path r)
    with Staging assms show ?thesis
      by (auto simp: thread_simps split: prod.splits intro: handle_alloc handle_error)
  next
    case (StageFreeOld i r)
    with Staging assms alone_with_staged [OF assms(1)] show ?thesis
      by (auto simp: thread_simps free_option_def owners_def split: option.splits
          intro!: handle_free intro: handle_same)
  next
    case (StageStore i r)
    with Staging assms alone_with_staged [OF assms(1)] show ?thesis
      by (auto simp: owners_def intro!: handle_fewer [OF assms(2)])
  qed (use Staging assms in \<open>auto simp: thread_simps split: if_splits prod.splits option.splits
        intro: handle_same\<close>)
next
  case (Committing e p)
  show ?thesis
  proof (cases p)
    case CommitSwap
    with Committing assms alone_with_staged [OF assms(1)] show ?thesis
      by (auto simp: owners_def Let_def intro!: handle_fewer [OF assms(2)])
  next
    case (CommitFree i)
    with Committing assms show ?thesis
      by (auto simp: thread_simps free_option_def owners_def split: option.splits
          intro!: handle_free intro: handle_same)
  qed (use Committing assms in \<open>auto simp: thread_simps Let_def split: if_splits intro: handle_same\<close>)
next
  case (Discarding p)
  show ?thesis
  proof (cases p)
    case DiscardFree
    with Discarding assms alone_with_staged [OF assms(1)] show ?thesis
      by (auto simp: thread_simps owners_def split: option.splits intro!: handle_free intro: handle_same)
  next
    case DiscardClear
    with Discarding assms alone_with_staged [OF assms(1)] show ?thesis
      by (auto simp: owners_def intro!: handle_fewer [OF assms(2)])
  qed (use Discarding assms in \<open>auto simp: thread_simps split: if_splits intro: handle_same\<close>)
next
  case (Reloading w w' p)
  show ?thesis
  proof (cases p)
    case (ReloadReadFile path r)
    with Reloading assms show ?thesis
      by (auto simp: thread_simps split: prod.splits intro: handle_alloc handle_error)
  next
    case (ReloadSwap i r)
    with Reloading assms show ?thesis by (auto simp: owners_def intro!: handle_fewer [OF assms(2)])
  qed (use Reloading assms in \<open>auto simp: thread_simps split: if_splits prod.splits option.splits
        intro: handle_same\<close>)
qed (use assms in simp_all)


text \<open>Locks exclude each other.\<close>

lemma exclusion:
  assumes "lock_inv s (t # ts)" "u \<in> set ts"
  shows "holds_staged u \<Longrightarrow> \<not> holds_staged t" "holds_flag u \<Longrightarrow> \<not> holds_flag t"
    "holds_read u \<Longrightarrow> \<not> holds_write t"
proof -
  show "\<not> holds_staged t" if "holds_staged u"
    using assms(1) tcount_member [of u ts holds_staged, OF assms(2) that] by (auto simp: lock_inv_def one_if_def split: if_splits)
  show "\<not> holds_flag t" if "holds_flag u"
    using assms(1) tcount_member [of u ts holds_flag, OF assms(2) that] by (auto simp: lock_inv_def one_if_def split: if_splits)
  show "\<not> holds_write t" if "holds_read u"
    using assms(1) tcount_member [of u ts holds_read, OF assms(2) that] by (auto simp: lock_inv_def one_if_def split: if_splits)
qed

text \<open>Data someone else owns stays.\<close>

lemma not_may_free:
  assumes "handle_inv s (t # ts)" "lock_inv s (t # ts)"
    and "fx_index (sh_fx s) = Some i \<or> (\<exists>u \<in> set ts. owned_handle u = Some i)"
  shows "\<not> may_free t s i" "i \<in> ch_handles (sh_heap s)"
proof -
  have le: "owners i s (t # ts) \<le> 1"
    using assms(1) order_trans [OF _ one_if_le] unfolding handle_inv_def by blast
  have pos: "0 < one_if (fx_index (sh_fx s) = Some i) + tcount (\<lambda>u. owned_handle u = Some i) ts"
    using assms(3) tcount_member [of _ ts "\<lambda>u. owned_handle u = Some i"] by (auto simp: one_if_def)
  then show "i \<in> ch_handles (sh_heap s)" by (intro owner_live [OF assms(1)]) (auto simp: owners_def)
  show "\<not> may_free t s i"
  proof
    assume "may_free t s i"
    then consider "owned_handle t = Some i"
      | "holds_staged t" "\<not> staged_dead t" "fx_staged_index (sh_fx s) = Some i" by (auto simp: may_free_def)
    then show False
    proof cases
      case 2
      with alone_with_staged [OF assms(2)] le pos show False by (simp add: owners_def)
    qed (use le pos in \<open>simp add: owners_def\<close>)
  qed
qed

lemma data_kept:
  assumes "handle_inv s (t # ts)" "lock_inv s (t # ts)" "step_frame t s s'"
    and "fx_index (sh_fx s) = Some i \<or> (\<exists>u \<in> set ts. owned_handle u = Some i)"
  shows "sh_data s' (Some i) = sh_data s (Some i)"
  using not_may_free [OF assms(1,2,4)] assms(1,3) by (auto simp: step_frame_def handle_inv_def fx_data_def)

lemma reads_source_kept: "step_frame t s s' \<Longrightarrow> reads_source w d (sh_fx s') = reads_source w d (sh_fx s)"
  by (simp add: step_frame_def reads_source_def)

lemma searchable_kept:
  assumes "handle_inv s (t # ts)" "lock_inv s (t # ts)" "step_frame t s s'" "\<not> holds_write t"
  shows "searchable x s' = searchable x s"
proof (cases "fx_index (sh_fx s)")
  case None
  with assms(3,4) show ?thesis by (simp add: searchable_def step_frame_def fx_data_def)
next
  case (Some i)
  with data_kept [OF assms(1-3), of i] assms(3,4) show ?thesis by (simp add: searchable_def step_frame_def)
qed

lemma others_ok:
  assumes inv: "lock_inv s (t # ts)" "handle_inv s (t # ts)" and step: "step_frame t s s'"
    and u: "u \<in> set ts" "thread_ok s u"
  shows "thread_ok s' u"
proof -
  note ex = exclusion [OF inv(1) u(1)]
  note frame = step [unfolded step_frame_def]
  note src = reads_source_kept [OF step]
  have stage: "reads_source w d (sh_fx s') = reads_source w d (sh_fx s)"
    "fx_revision (sh_fx s') = fx_revision (sh_fx s)" if "holds_staged u" "holds_flag u" for w d
    using ex that frame src by auto
  show ?thesis
  proof (cases u)
    case (Searching x k p)
    with ex(3) frame searchable_kept [OF inv(2,1) step] u(2) show ?thesis by (cases p) auto
  next
    case (Staging w w' p)
    then have own: "sh_data s' (Some i) = sh_data s (Some i)" if "owned_handle u = Some i" for i
      using data_kept [OF inv(2,1) step, of i] that u(1) by blast
    from Staging stage own u(2) src show ?thesis by (cases p) auto
  next
    case (Committing e p)
    with ex(1) frame u(2) show ?thesis by (cases p) auto
  qed (use u(2) in auto)
qed

lemma itself_ok:
  assumes inv: "lock_inv s (t # ts)" "handle_inv s (t # ts)" and step: "thread_step t s = Goto t' s'"
    and ok: "thread_ok s t" "mf_source (fx_manifest (sh_fx s)) \<noteq> None" "fx_index (sh_fx s) \<noteq> None"
      "fx_staged_index (sh_fx s) = None \<longrightarrow> fx_staged_revision (sh_fx s) = 0"
  shows "thread_ok s' t' \<and> mf_source (fx_manifest (sh_fx s')) \<noteq> None \<and> fx_index (sh_fx s') \<noteq> None \<and>
    (fx_staged_index (sh_fx s') = None \<longrightarrow> fx_staged_revision (sh_fx s') = 0)"
proof (cases t)
  case (Searching x k p)
  with step ok show ?thesis
    by (cases p) (auto simp: thread_simps searchable_def fx_data_def ch_deref_def split: option.splits if_splits)
next
  case (Querying q p)
  with step ok show ?thesis by (cases p) (auto simp: thread_simps split: if_splits)
next
  case (StagedRev p)
  with step ok show ?thesis by (cases p) (auto simp: thread_simps split: if_splits)
next
  case (Staging w w' p)
  show ?thesis
  proof (cases p)
    case (StageReadFile path r)
    with Staging step ok show ?thesis
      by (auto simp: thread_simps fx_data_def read_index_def ch_alloc_def split: prod.splits sum.splits)
  next
    case (StageFreeOld i r)
    have "sh_data s' (Some i) = sh_data s (Some i)"
    proof (cases "fx_staged_index (sh_fx s)")
      case (Some j)
      have "j \<noteq> i"
      proof
        assume "j = i"
        with Some StageFreeOld Staging alone_with_staged [OF inv(1)] have "2 \<le> owners i s (t # ts)"
          by (simp add: owners_def)
        with inv(2) show False by (auto simp: handle_inv_def one_if_def split: if_splits elim!: allE [of _ i])
      qed
      with Some StageFreeOld Staging step show ?thesis
        by (auto simp: thread_simps free_option_def fx_data_def ch_free_def split: option.splits)
    qed (use StageFreeOld Staging step in \<open>auto simp: thread_simps free_option_def\<close>)
    with StageFreeOld Staging step ok show ?thesis by (auto simp: thread_simps) blast+
  qed (use Staging step ok in \<open>auto simp: thread_simps reads_source_def split: if_splits prod.splits option.splits\<close>)
next
  case (Committing e p)
  with step ok show ?thesis by (cases p) (auto simp: thread_simps Let_def split: if_splits)
next
  case (Discarding p)
  with step ok show ?thesis by (cases p) (auto simp: thread_simps split: if_splits option.splits)
next
  case (Reloading w w' p)
  with step ok show ?thesis
    by (cases p) (auto simp: thread_simps split: if_splits prod.splits option.splits)
qed (use step ok in simp_all)


section \<open>No step faults\<close>

lemma move_Fault [thread_simps]:
  "map_move f g m = Fault e \<longleftrightarrow> m = Fault e"
  "with_lock l h = Fault e \<longleftrightarrow> (\<exists>a. l = Some a \<and> h a = Fault e)"
  "with_run r k = Fault e \<longleftrightarrow> r = Panic e \<or> (\<exists>a. r = Ret a \<and> k a = Fault e)"
  by ((cases m; simp), (cases l; simp), (cases r; simp))

lemma serving_live:
  assumes "handle_inv s ts" "fx_index (sh_fx s) = Some i"
  shows "\<exists>d. sm_load (ch_live (sh_heap s)) i = Some d"
  using owner_live [OF assms(1), of i] assms(2) by (auto simp: owners_def ch_handles_load)

lemma staged_live:
  assumes "handle_inv s ts" "fx_staged_index (sh_fx s) = Some i" "tcount staged_dead ts = 0"
  shows "\<exists>d. sm_load (ch_live (sh_heap s)) i = Some d"
  using owner_live [OF assms(1), of i] assms(2,3) by (auto simp: owners_def ch_handles_load)

lemma owned_live:
  assumes "handle_inv s (t # ts)" "owned_handle t = Some i"
  shows "\<exists>d. sm_load (ch_live (sh_heap s)) i = Some d"
  using owner_live [OF assms(1), of i] assms(2) by (auto simp: owners_def ch_handles_load)

lemma new_downloader_no_fault: "src \<noteq> None \<Longrightarrow> new_downloader w src sh \<noteq> Panic e"
  using new_downloader_Ret [of src w sh] by auto

lemma step_no_fault:
  assumes "shard_inv s (t # ts)"
  shows "thread_step t s \<noteq> Fault e"
proof -
  from assms have lock: "lock_inv s (t # ts)" and handle: "handle_inv s (t # ts)" and ok: "thread_ok s t"
    and src: "mf_source (fx_manifest (sh_fx s)) \<noteq> None" and ix: "fx_index (sh_fx s) \<noteq> None"
    by (auto simp: shard_inv_def)
  note readers = lock [unfolded lock_inv_def]
  obtain i d where live: "fx_index (sh_fx s) = Some i" "sm_load (ch_live (sh_heap s)) i = Some d"
    using ix serving_live [OF handle] by auto
  note own = owned_live [OF handle]
  have staged: "\<exists>d. sm_load (ch_live (sh_heap s)) j = Some d"
    if "holds_staged t" "\<not> staged_dead t" "fx_staged_index (sh_fx s) = Some j" for j
    using staged_live [OF handle that(3)] alone_with_staged [OF lock that(1)] that(2) by simp
  note nd = new_downloader_no_fault [OF src]
  show ?thesis
  proof (cases t)
    case (Searching x k p)
    with readers live ok show ?thesis
      by (cases p) (auto simp: thread_simps ch_deref_def split: if_splits)
  next
    case (Querying q p)
    with readers live show ?thesis
      by (cases p; cases q) (auto simp: thread_simps vector_count_def faiss_metric_type_def faiss_input_dim_def
          handle_data_def ch_deref_def)
  next
    case (StagedRev p)
    with readers show ?thesis by (cases p) (auto simp: thread_simps)
  next
    case (Staging w w' p)
    with readers nd staged show ?thesis
      by (cases p) (auto simp: thread_simps free_option_def ch_free_def split: prod.splits option.splits sum.splits)
  next
    case (Committing e p)
    with readers own show ?thesis
      by (cases p) (auto simp: thread_simps Let_def free_option_def ch_free_def split: option.splits)
  next
    case (Discarding p)
    with readers staged show ?thesis by (cases p) (auto simp: thread_simps ch_free_def split: option.splits)
  next
    case (Reloading w w' p)
    with readers nd show ?thesis by (cases p) (auto simp: thread_simps split: prod.splits option.splits sum.splits)
  qed (use ok in simp_all)
qed

section \<open>Schedules\<close>

lemma shard_inv_step:
  assumes "shard_inv s (t # ts)" "thread_step t s = Goto t' s'"
  shows "shard_inv s' (t' # ts)"
proof -
  from assms(1) have inv: "lock_inv s (t # ts)" "handle_inv s (t # ts)" and ok: "thread_ok s t"
    by (auto simp: shard_inv_def)
  then have nd: "\<And>p. t \<noteq> Deleting p" by auto
  note fr = step_frames [OF assms(2) nd]
  have "\<forall>u \<in> set ts. thread_ok s' u"
    using others_ok [OF inv fr] assms(1) by (auto simp: shard_inv_def)
  with itself_ok [OF inv assms(2) ok] lock_step [OF inv(1) assms(2)] handle_step [OF inv assms(2) nd] assms(1)
  show ?thesis by (simp add: shard_inv_def)
qed

text \<open>The invariant only counts, so it does not depend on the order of the threads.\<close>

lemma shard_inv_cong:
  assumes "\<And>P. tcount P ts = tcount P us" "set ts = set us"
  shows "shard_inv s ts = shard_inv s us"
  using assms by (simp add: shard_inv_def lock_inv_def handle_inv_def owners_def)

lemma shard_inv_move:
  assumes "shard_inv s ts" "i < length ts"
  shows "thread_step (ts ! i) s \<noteq> Fault e"
    "thread_step (ts ! i) s = Goto t s' \<Longrightarrow> shard_inv s' (ts[i := t])"
proof -
  obtain others where o: "\<And>P t. tcount P (ts[i := t]) = tcount P (t # others)"
    "\<And>t. set (ts[i := t]) = set (t # others)" "\<And>P. tcount P ts = tcount P (ts ! i # others)"
    "set ts = set (ts ! i # others)"
    by (rule focus_thread [OF assms(2)]) blast
  have inv: "shard_inv s (ts ! i # others)"
    using assms(1) shard_inv_cong [of ts "ts ! i # others", OF o(3,4)] by simp
  then show "thread_step (ts ! i) s \<noteq> Fault e" by (rule step_no_fault)
  assume "thread_step (ts ! i) s = Goto t s'"
  from shard_inv_step [OF inv this] show "shard_inv s' (ts[i := t])"
    using shard_inv_cong [of "ts[i := t]" "t # others", OF o(1,2)] by simp
qed

lemma run_schedule_inv:
  assumes "shard_inv s ts"
  shows "\<exists>s' ts'. run_schedule is (s, ts) = Ret (s', ts') \<and> shard_inv s' ts' \<and> length ts' = length ts"
  using assms
proof (induction "is" arbitrary: s ts)
  case (Cons i "is")
  show ?case
  proof (cases "i < length ts")
    case True
    note mv = shard_inv_move [OF Cons.prems True]
    show ?thesis
    proof (cases "thread_step (ts ! i) s")
      case (Goto t s')
      with Cons.IH [OF mv(2) [OF Goto]] True show ?thesis by simp
    qed (use Cons mv(1) True in auto)
  qed (use Cons in simp)
qed simp

end
