(* ===== verification/Thread_Safety.thy ===== *)
theory Thread_Safety
  imports Thread_Invariant
begin

text \<open>
  What the locking discipline of a shard gives its callers: however the goroutines interleave, the
  FAISS memory is safe, somebody can always go on, and every call returns.
\<close>

section \<open>Somebody can always go on\<close>

fun returned :: "thread \<Rightarrow> bool" where
  "returned (Returned r) = True"
| "returned _ = False"

lemma move_Blocked [thread_simps]:
  "map_move f g m = Blocked \<longleftrightarrow> m = Blocked"
  "with_lock l h = Blocked \<longleftrightarrow> (\<forall>a. l = Some a \<longrightarrow> h a = Blocked)"
  "with_run r k = Blocked \<longleftrightarrow> (\<exists>a. r = Ret a \<and> k a = Blocked)"
  by ((cases m; simp), (cases l; simp), (cases r; simp))

lemma case_sum_Blocked [thread_simps]:
  "(case m of Inl e \<Rightarrow> f e | Inr d \<Rightarrow> g d) = Blocked \<longleftrightarrow>
     (\<exists>e. m = Inl e \<and> f e = Blocked) \<or> (\<exists>d. m = Inr d \<and> g d = Blocked)"
  by (cases m; simp)

text \<open>A writer and the readers inside go on whatever else happens, an announced writer goes on once
  no reader is left, whoever holds \<open>stagedMu\<close> goes on while no writer is there, and if
  \<open>stagedMu\<close> is free as well, so does everyone else.\<close>

lemma runs_on:
  assumes "\<not> returned t" "thread_step t s = Blocked"
  shows "\<not> holds_write t \<and> \<not> holds_read t \<and> (waits_write t \<longrightarrow> rw_readers (sh_rw s) \<noteq> 0) \<and>
    (\<not> waits_write t \<longrightarrow> \<not> rw_pending (sh_rw s) \<longrightarrow> \<not> rw_writer (sh_rw s) \<longrightarrow> \<not> holds_staged t \<and> sh_staged_mu s)"
proof (cases t)
  case (Searching x k p)
  with assms show ?thesis
    by (cases p) (auto simp: thread_simps split: option.splits if_splits)
next
  case (Querying q p)
  with assms show ?thesis
    by (cases p) (auto simp: thread_simps split: if_splits)
next
  case (StagedRev p)
  with assms show ?thesis
    by (cases p) (auto simp: thread_simps split: if_splits)
next
  case (Staging w w' p)
  with assms show ?thesis
    by (cases p) (auto simp: thread_simps split: if_splits prod.splits option.splits)
next
  case (Committing e p)
  with assms show ?thesis
    by (cases p) (auto simp: thread_simps Let_def split: if_splits)
next
  case (Discarding p)
  with assms show ?thesis
    by (cases p) (auto simp: thread_simps split: if_splits option.splits)
next
  case (Reloading w w' p)
  with assms show ?thesis
    by (cases p) (auto simp: thread_simps split: if_splits prod.splits option.splits)
next
  case (Deleting p)
  show ?thesis
  proof (cases p)
    case (DeleteStaged q)
    with Deleting assms show ?thesis by (cases q) (auto simp: thread_simps split: option.splits if_splits)
  qed (use Deleting assms in \<open>auto simp: thread_simps split: option.splits if_splits\<close>)
qed (use assms in simp)

lemma no_deadlock:
  assumes "lock_inv s ts" "t \<in> set ts" "\<not> returned t"
  shows "\<exists>u \<in> set ts. thread_step u s \<noteq> Blocked"
proof (rule ccontr)
  assume "\<not> ?thesis"
  then have blocked: "thread_step u s = Blocked" if "u \<in> set ts" for u using that by blast
  have stuck: "\<not> holds_write u \<and> \<not> holds_read u \<and> (waits_write u \<longrightarrow> rw_readers (sh_rw s) \<noteq> 0) \<and>
    (\<not> waits_write u \<longrightarrow> \<not> rw_pending (sh_rw s) \<longrightarrow> \<not> rw_writer (sh_rw s) \<longrightarrow> \<not> holds_staged u \<and> sh_staged_mu s)"
    if "u \<in> set ts" "\<not> returned u" for u
    using runs_on [OF that(2) blocked [OF that(1)]] .
  have none: "tcount P ts = 0" if "\<And>u. u \<in> set ts \<Longrightarrow> \<not> P u" for P
    using that tcount_pos [of P ts] by auto
  have ret: "\<not> holds_write u" "\<not> holds_read u" "\<not> waits_write u" "\<not> holds_staged u" if "returned u" for u
    using that by (cases u; simp)+
  have "tcount holds_write ts = 0" "tcount holds_read ts = 0"
    by (rule none, use stuck ret in blast)+
  with assms(1) have free: "\<not> rw_writer (sh_rw s)" "rw_readers (sh_rw s) = 0" by (simp_all add: lock_inv_def)
  have nowait: "\<not> waits_write u" if "u \<in> set ts" for u using stuck [OF that] ret free by blast
  then have "tcount waits_write ts = 0" by (rule none)
  with assms(1) have pend: "\<not> rw_pending (sh_rw s)" by (simp add: lock_inv_def)
  have "tcount holds_staged ts = 0" by (rule none, use stuck ret nowait free pend in blast)
  with assms(1) have "\<not> sh_staged_mu s" by (simp add: lock_inv_def)
  with stuck [OF assms(2,3)] nowait [OF assms(2)] free pend show False by blast
qed


section \<open>Every call returns\<close>

text \<open>An upper bound on the steps a thread still takes.\<close>

fun search_left :: "search_pc \<Rightarrow> nat" where
  "search_left SearchLock = 5"
| "search_left SearchCheck = 4"
| "search_left SearchCall = 3"
| "search_left (SearchInC i) = 2"
| "search_left (SearchUnlock r) = 1"

fun stage_left :: "stage_pc \<Rightarrow> nat" where
  "stage_left StageLock = 12"
| "stage_left StageFlag = 11"
| "stage_left StageSource = 10"
| "stage_left (StageRLock d) = 9"
| "stage_left (StageRead d) = 8"
| "stage_left (StageRUnlock d r) = 7"
| "stage_left (StageDownload d r) = 6"
| "stage_left (StageReadFile p r) = 5"
| "stage_left (StageFreeOld i r) = 4"
| "stage_left (StageStore i r) = 3"
| "stage_left (StageClear r) = 2"
| "stage_left (StageUnlock r) = 1"

fun commit_left :: "commit_pc \<Rightarrow> nat" where
  "commit_left CommitLock = 8"
| "commit_left CommitCheck = 7"
| "commit_left CommitAnnounce = 6"
| "commit_left CommitWait = 5"
| "commit_left CommitSwap = 4"
| "commit_left (CommitRelease i) = 3"
| "commit_left (CommitFree i) = 2"
| "commit_left (CommitUnlock r) = 1"

fun discard_left :: "discard_pc \<Rightarrow> nat" where
  "discard_left DiscardLock = 4"
| "discard_left DiscardFree = 3"
| "discard_left DiscardClear = 2"
| "discard_left DiscardUnlock = 1"

fun reload_left :: "reload_pc \<Rightarrow> nat" where
  "reload_left ReloadFlag = 12"
| "reload_left ReloadSource = 11"
| "reload_left (ReloadRLock d) = 10"
| "reload_left (ReloadDownload d) = 9"
| "reload_left (ReloadRUnlock p r e) = 8"
| "reload_left (ReloadCheck p r e) = 7"
| "reload_left (ReloadReadFile p r) = 6"
| "reload_left (ReloadAnnounce i r) = 5"
| "reload_left (ReloadWait i r) = 4"
| "reload_left (ReloadSwap i r) = 3"
| "reload_left ReloadRelease = 2"
| "reload_left (ReloadClear e) = 1"

fun steps_left :: "thread \<Rightarrow> nat" where
  "steps_left (Searching x k p) = search_left p"
| "steps_left (Querying q p) = (case p of QueryLock \<Rightarrow> 3 | QueryRead \<Rightarrow> 2 | QueryUnlock r \<Rightarrow> 1)"
| "steps_left (StagedRev p) = (case p of StagedRevLock \<Rightarrow> 3 | StagedRevRead \<Rightarrow> 2 | StagedRevUnlock r \<Rightarrow> 1)"
| "steps_left (Staging w w' p) = stage_left p"
| "steps_left (Committing e p) = commit_left p"
| "steps_left (Discarding p) = discard_left p"
| "steps_left (Reloading w w' p) = reload_left p"
| "steps_left (Deleting p) =
     (case p of DeleteStaged q \<Rightarrow> 4 + discard_left q | DeleteAnnounce \<Rightarrow> 4 | DeleteWait \<Rightarrow> 3 | DeleteIndex \<Rightarrow> 2 | DeleteRelease \<Rightarrow> 1)"
| "steps_left (Returned r) = 0"

lemma steps_left_0: "steps_left t = 0 \<longleftrightarrow> returned t"
proof (cases t)
  case (Searching x k p) then show ?thesis by (cases p) auto
next
  case (Querying q p) then show ?thesis by (cases p) auto
next
  case (StagedRev p) then show ?thesis by (cases p) auto
next
  case (Staging w w' p) then show ?thesis by (cases p) auto
next
  case (Committing e p) then show ?thesis by (cases p) auto
next
  case (Discarding p) then show ?thesis by (cases p) auto
next
  case (Reloading w w' p) then show ?thesis by (cases p) auto
next
  case (Deleting p)
  then show ?thesis by (cases p) (auto elim: discard_left.elims)
qed simp

lemma step_decreases:
  assumes "thread_step t s = Goto t' s'"
  shows "steps_left t' < steps_left t"
proof (cases t)
  case (Searching x k p)
  with assms show ?thesis by (cases p) (auto simp: thread_simps split: option.splits if_splits)
next
  case (Querying q p)
  with assms show ?thesis by (cases p) (auto simp: thread_simps)
next
  case (StagedRev p)
  with assms show ?thesis by (cases p) (auto simp: thread_simps)
next
  case (Staging w w' p)
  with assms show ?thesis
    by (cases p) (auto simp: thread_simps split: if_splits prod.splits option.splits)
next
  case (Committing e p)
  with assms show ?thesis by (cases p) (auto simp: thread_simps Let_def split: if_splits)
next
  case (Discarding p)
  with assms show ?thesis by (cases p) (auto simp: thread_simps split: option.splits)
next
  case (Reloading w w' p)
  with assms show ?thesis
    by (cases p) (auto simp: thread_simps split: if_splits prod.splits option.splits)
next
  case (Deleting p)
  show ?thesis
  proof (cases p)
    case (DeleteStaged q)
    with Deleting assms show ?thesis by (cases q) (auto simp: thread_simps split: option.splits)
  qed (use Deleting assms in \<open>auto simp: thread_simps split: option.splits\<close>)
qed (use assms in simp)

definition work_left :: "thread list \<Rightarrow> nat" where
  "work_left ts = sum_list (map steps_left ts)"

lemma work_left_update:
  "i < length ts \<Longrightarrow> steps_left t < steps_left (ts ! i) \<Longrightarrow> work_left (ts[i := t]) < work_left ts"
  unfolding work_left_def
proof (induction ts arbitrary: i)
  case (Cons u ts)
  then show ?case by (cases i) auto
qed simp

lemma work_left_0: "work_left ts = 0 \<longleftrightarrow> list_all returned ts"
  by (induction ts) (auto simp: work_left_def steps_left_0)

text \<open>A round in which every thread is scheduled makes progress unless all calls have returned.\<close>

lemma run_progress:
  assumes "run_schedule is (s, ts) = Ret (s', ts')"
  shows "work_left ts' < work_left ts \<or>
    s' = s \<and> ts' = ts \<and> (\<forall>i \<in> set is. i < length ts \<longrightarrow> (\<forall>t u. thread_step (ts ! i) s \<noteq> Goto t u))"
  using assms
proof (induction "is" arbitrary: s ts)
  case (Cons i "is")
  show ?case
  proof (cases "i < length ts")
    case True
    show ?thesis
    proof (cases "thread_step (ts ! i) s")
      case (Goto t u)
      from work_left_update [OF True step_decreases [OF Goto]] Cons.IH [of u "ts[i := t]"] Cons.prems Goto True
      show ?thesis by auto
    qed (use Cons True in auto)
  qed (use Cons in auto)
qed simp

lemma run_schedule_append:
  "run_schedule (is @ js) c = run_bind (run_schedule is c) (run_schedule js)"
proof (induction "is" arbitrary: c)
  case (Cons i "is")
  then show ?case by (cases c) (auto split: move.splits)
qed simp

lemma step_not_Return: "thread_step t s \<noteq> Return r s'"
  by (cases t) (simp_all add: thread_simps)

lemma rounds_return:
  assumes "shard_inv s ts" "\<And>round. round \<in> set rounds \<Longrightarrow> {..<length ts} \<subseteq> set round" "work_left ts \<le> length rounds"
  shows "\<exists>s' ts'. run_schedule (concat rounds) (s, ts) = Ret (s', ts') \<and> shard_inv s' ts' \<and> list_all returned ts'"
  using assms
proof (induction rounds arbitrary: s ts)
  case Nil
  then show ?case by (simp add: work_left_0)
next
  case (Cons round rounds)
  from run_schedule_inv [OF Cons.prems(1)] obtain s1 ts1 where
    run: "run_schedule round (s, ts) = Ret (s1, ts1)" "shard_inv s1 ts1" "length ts1 = length ts" by blast
  have "work_left ts1 \<le> length rounds"
  proof (cases "work_left ts1 < work_left ts")
    case False
    with run_progress [OF run(1)] have same: "ts1 = ts" "s1 = s"
      "\<forall>i \<in> set round. i < length ts \<longrightarrow> (\<forall>t u. thread_step (ts ! i) s \<noteq> Goto t u)" by auto
    have "list_all returned ts"
    proof (rule ccontr)
      assume "\<not> list_all returned ts"
      then obtain t where "t \<in> set ts" "\<not> returned t" by (auto simp: list_all_iff)
      with no_deadlock [of s ts t] Cons.prems(1) obtain u where u: "u \<in> set ts" "thread_step u s \<noteq> Blocked"
        by (auto simp: shard_inv_def)
      then obtain i where i: "i < length ts" "u = ts ! i" by (auto simp: in_set_conv_nth)
      with Cons.prems(2) have "i \<in> set round" by auto
      with same(3) i shard_inv_move(1) [OF Cons.prems(1) i(1)] step_not_Return u(2) show False
        by (cases "thread_step u s") auto
    qed
    then have "work_left ts = 0" by (simp add: work_left_0)
    with same show ?thesis by simp
  qed (use Cons.prems(3) in simp)
  with Cons.IH [OF run(2)] Cons.prems(2) run show ?case by (simp add: run_schedule_append)
qed


section \<open>Properties\<close>

text \<open>A call that has not begun, and a shard nobody uses.\<close>

fun call_start :: "thread \<Rightarrow> bool" where
  "call_start (Searching x k p) = (p = SearchLock)"
| "call_start (Querying q p) = (p = QueryLock)"
| "call_start (StagedRev p) = (p = StagedRevLock)"
| "call_start (Staging w w' p) = (p = StageLock)"
| "call_start (Committing e p) = (p = CommitLock)"
| "call_start (Discarding p) = (p = DiscardLock)"
| "call_start (Reloading w w' p) = (p = ReloadFlag)"
| "call_start _ = False"

definition idle_shard :: "c_heap \<Rightarrow> faiss_index \<Rightarrow> shard_sys" where
  "idle_shard h fx = \<lparr>sh_heap = h, sh_fx = fx, sh_rw = free_rw, sh_staged_mu = False\<rparr>"

lemma call_start_holds:
  assumes "call_start t"
  shows "\<not> holds_read t \<and> \<not> waits_write t \<and> \<not> holds_write t \<and> \<not> holds_staged t \<and> \<not> holds_flag t \<and>
    owned_handle t = None \<and> \<not> staged_dead t \<and> thread_ok s t"
  using assms by (cases t) auto

lemma tcount_none: "(\<And>t. t \<in> set ts \<Longrightarrow> \<not> P t) \<Longrightarrow> tcount P ts = 0"
  using tcount_pos [of P ts] by auto

lemma idle_shard_inv:
  assumes "fx_ok h fx" "list_all call_start ts"
  shows "shard_inv (idle_shard h fx) ts"
proof -
  note start = assms(2) [unfolded list_all_iff, rule_format, THEN call_start_holds]
  have "tcount P ts = 0" if "P \<in> {holds_read, waits_write, holds_write, holds_staged, holds_flag, staged_dead} \<or>
      (\<exists>i. P = (\<lambda>t. owned_handle t = Some i))" for P
    by (rule tcount_none) (use start that in auto)
  then have none: "tcount holds_read ts = 0" "tcount waits_write ts = 0" "tcount holds_write ts = 0"
    "tcount holds_staged ts = 0" "tcount holds_flag ts = 0" "tcount staged_dead ts = 0"
    "tcount (\<lambda>t. owned_handle t = Some i) ts = 0" for i
    by blast+
  have "handle_inv (idle_shard h fx) ts"
    using assms(1) none
    by (auto simp: handle_inv_def owners_def idle_shard_def fx_ok_def one_if_def split: option.splits)
  with none start assms(1) show ?thesis
    by (auto simp: shard_inv_def lock_inv_def idle_shard_def free_rw_def fx_ok_def split: option.splits)
qed

text \<open>When all calls have returned, the locks are free again and the shard is well formed.\<close>

lemma all_returned_ok:
  assumes "shard_inv s ts" "list_all returned ts"
  shows "sh_rw s = free_rw \<and> \<not> sh_staged_mu s \<and> fx_ok (sh_heap s) (sh_fx s)"
proof -
  have ret: "\<not> holds_read t \<and> \<not> waits_write t \<and> \<not> holds_write t \<and> \<not> holds_staged t \<and> \<not> holds_flag t \<and>
    owned_handle t = None \<and> \<not> staged_dead t" if "t \<in> set ts" for t
    using assms(2) that by (cases t) (auto simp: list_all_iff)
  have none: "tcount holds_read ts = 0" "tcount waits_write ts = 0" "tcount holds_write ts = 0"
    "tcount holds_staged ts = 0" "tcount holds_flag ts = 0" "tcount staged_dead ts = 0"
    by (rule tcount_none, use ret in blast)+
  from assms(1) none have locks: "rw_readers (sh_rw s) = 0" "\<not> rw_pending (sh_rw s)" "\<not> rw_writer (sh_rw s)"
      "\<not> sh_staged_mu s" "\<not> fx_reloading (sh_fx s)"
    by (auto simp: shard_inv_def lock_inv_def)
  then have "sh_rw s = free_rw" by (cases "sh_rw s") (simp add: free_rw_def)
  moreover have h: "handle_inv s ts" using assms(1) by (simp add: shard_inv_def)
  obtain i where i: "fx_index (sh_fx s) = Some i" using assms(1) by (auto simp: shard_inv_def)
  have "i \<in> ch_handles (sh_heap s)" by (rule owner_live [OF h]) (simp add: owners_def i)
  moreover have "j \<in> ch_handles (sh_heap s) \<and> j \<noteq> i" if j: "fx_staged_index (sh_fx s) = Some j" for j
  proof
    show "j \<in> ch_handles (sh_heap s)" by (rule owner_live [OF h]) (simp add: owners_def j none)
    show "j \<noteq> i"
    proof
      assume "j = i"
      then have "2 \<le> owners i s ts" using i j none by (simp add: owners_def)
      with h show False by (auto simp: handle_inv_def one_if_def split: if_splits elim!: allE [of _ i])
    qed
  qed
  ultimately show ?thesis
    using assms(1) locks i by (auto simp: fx_ok_def shard_inv_def handle_inv_def split: option.splits)
qed




section \<open>Witnesses\<close>

text \<open>A search, a commit of the staged revision, a staging of a newer one and a discard, all at once.\<close>

definition ex_threads :: "thread list" where
  "ex_threads = [Searching [F_num 0, F_num 1] 2 SearchLock, Committing 4 CommitLock,
     Staging (ex_world ''5'') (ex_world ''5'') StageLock, Discarding DiscardLock]"

lemma ex_threads_start: "list_all call_start ex_threads" "length ex_threads = 4"
  by (simp_all add: ex_threads_def)



end
