(* ===== verification/Linear_Log.thy ===== *)
theory Linear_Log
  imports Thread_Safety
begin

text \<open>
  How a set of calls on one shard is shown to linearise: a log lists the calls that have taken effect.  The locale \<open>linearised\<close>
  is the contract of a specification: each step of a thread means nothing yet, or the whole of one sequential call.
\<close>

section \<open>Sequential runs\<close>

fun run_calls :: "('c \<Rightarrow> 's \<Rightarrow> ('s \<times> 'r) run) \<Rightarrow> 'c list \<Rightarrow> 's \<Rightarrow> ('s \<times> 'r list) run" where
  "run_calls f [] c = Ret (c, [])"
| "run_calls f (a # as) c = run_bind (f a c) (\<lambda>(c', r). run_map (\<lambda>(c'', rs). (c'', r # rs)) (run_calls f as c'))"

lemma run_calls_snoc:
  assumes "run_calls f as c = Ret (c', rs)" "f a c' = Ret (c'', r)"
  shows "run_calls f (as @ [a]) c = Ret (c'', rs @ [r])"
  using assms
proof (induction as arbitrary: c rs)
  case (Cons b as)
  from Cons.prems(1) obtain c1 r1 rs1 where b: "f b c = Ret (c1, r1)" "run_calls f as c1 = Ret (c', rs1)" "rs = r1 # rs1"
    by (auto simp: run_bind_eq_Ret run_map_eq_Ret)
  from Cons.IH [OF b(2) Cons.prems(2)] b show ?case by simp
qed simp

section \<open>Logs\<close>

text \<open>An entry is the thread, the sequential call it counts as, and the result.\<close>

type_synonym 'c log_entries = "(nat \<times> 'c \<times> call_result) list"

definition log_of :: "'c log_entries \<Rightarrow> 'c list" where
  "log_of = map (\<lambda>(i, a, r). a)"

definition results_of :: "'c log_entries \<Rightarrow> call_result list" where
  "results_of = map (\<lambda>(i, a, r). r)"

definition logged_thread :: "(thread \<Rightarrow> call_result option) \<Rightarrow> (thread \<Rightarrow> 'c set) \<Rightarrow> thread list \<Rightarrow> 'c log_entries \<Rightarrow> nat \<Rightarrow> thread \<Rightarrow> bool" where
  "logged_thread effect calls ts0 entries i t \<longleftrightarrow>
     (case effect t of
        None \<Rightarrow> i \<notin> set (map fst entries) \<and> calls t = calls (ts0 ! i)
      | Some r \<Rightarrow> (\<exists>a. (i, a, r) \<in> set entries))"

definition log_entry_ok :: "(thread \<Rightarrow> 'c set) \<Rightarrow> thread list \<Rightarrow> nat \<times> 'c \<times> call_result \<Rightarrow> bool" where
  "log_entry_ok calls ts0 e \<longleftrightarrow> (case e of (i, a, r) \<Rightarrow> i < length ts0 \<and> a \<in> calls (ts0 ! i))"

definition explains ::
    "(thread \<Rightarrow> call_result option) \<Rightarrow> (thread \<Rightarrow> 'c set) \<Rightarrow> ('c \<Rightarrow> 's \<Rightarrow> ('s \<times> call_result) run) \<Rightarrow> thread list \<Rightarrow> 's \<Rightarrow>
     'c log_entries \<Rightarrow> thread list \<Rightarrow> 's \<Rightarrow> bool" where
  "explains effect calls serial ts0 c0 entries ts c \<longleftrightarrow>
     run_calls serial (log_of entries) c0 = Ret (c, results_of entries) \<and> distinct (map fst entries) \<and>
     (\<forall>e \<in> set entries. log_entry_ok calls ts0 e) \<and> length ts = length ts0 \<and>
     (\<forall>i < length ts0. logged_thread effect calls ts0 entries i (ts ! i))"

locale linearised =
  fixes effect :: "thread \<Rightarrow> call_result option" and calls :: "thread \<Rightarrow> 'c set"
    and serial :: "'c \<Rightarrow> 's \<Rightarrow> ('s \<times> call_result) run" and related :: "shard_sys \<Rightarrow> thread list \<Rightarrow> 's \<Rightarrow> bool"
  assumes step: "related s (t # ts) c \<Longrightarrow> thread_step t s = Goto t' s' \<Longrightarrow>
      effect t' = effect t \<and> (effect t = None \<longrightarrow> calls t' = calls t) \<and> related s' (t' # ts) c \<or>
      effect t = None \<and> (\<exists>a c' r. a \<in> calls t \<and> serial a c = Ret (c', r) \<and> effect t' = Some r \<and> related s' (t' # ts) c')"
    and safe: "related s ts c \<Longrightarrow> shard_inv s ts"
    and perm: "(\<And>P. tcount P ts = tcount P us) \<Longrightarrow> set ts = set us \<Longrightarrow> related s ts c = related s us c"
    and begun: "call_start t \<Longrightarrow> effect t = None"
    and ended: "effect (Returned r) = Some r"
begin

lemma log_step:
  assumes log: "explains effect calls serial ts0 c0 entries ts c" and rel: "related s ts c"
    and i: "i < length ts" and mv: "thread_step (ts ! i) s = Goto t s'"
  shows "\<exists>ext c'. explains effect calls serial ts0 c0 (entries @ ext) (ts[i := t]) c' \<and> related s' (ts[i := t]) c'"
proof -
  obtain others where o: "\<And>P t. tcount P (ts[i := t]) = tcount P (t # others)"
    "\<And>t. set (ts[i := t]) = set (t # others)" "\<And>P. tcount P ts = tcount P (ts ! i # others)"
    "set ts = set (ts ! i # others)"
    by (rule focus_thread [OF i]) blast
  have front: "related s (ts ! i # others) c" using rel perm [of ts "ts ! i # others", OF o(3,4)] by simp
  have restore: "related s' (t # others) c' \<Longrightarrow> related s' (ts[i := t]) c'" for c'
    using perm [of "ts[i := t]" "t # others", OF o(1,2)] by simp
  have len: "length ts = length ts0" and run: "run_calls serial (log_of entries) c0 = Ret (c, results_of entries)"
    and dis: "distinct (map fst entries)" "\<forall>e \<in> set entries. log_entry_ok calls ts0 e"
    and thr: "\<And>j. j < length ts0 \<Longrightarrow> logged_thread effect calls ts0 entries j (ts ! j)"
    using log by (simp_all add: explains_def)
  have me: "logged_thread effect calls ts0 entries i (ts ! i)" using thr i len by simp
  from step [OF front mv] consider
      (idle) "effect t = effect (ts ! i)" "effect (ts ! i) = None \<longrightarrow> calls t = calls (ts ! i)" "related s' (t # others) c"
    | (call) a c' r where "effect (ts ! i) = None" "a \<in> calls (ts ! i)" "serial a c = Ret (c', r)" "effect t = Some r"
      "related s' (t # others) c'"
    by blast
  then show ?thesis
  proof cases
    case idle
    have "logged_thread effect calls ts0 entries j (ts[i := t] ! j)" if "j < length ts0" for j
      using thr [OF that] idle(1,2) me i by (cases "j = i") (auto simp: logged_thread_def split: option.splits)
    then have "explains effect calls serial ts0 c0 (entries @ []) (ts[i := t]) c"
      using run dis len by (simp add: explains_def)
    with restore [OF idle(3)] show ?thesis by blast
  next
    case call
    have fresh: "i \<notin> set (map fst entries)" "calls (ts ! i) = calls (ts0 ! i)" using me call(1) by (auto simp: logged_thread_def)
    have "logged_thread effect calls ts0 (entries @ [(i, a, r)]) j (ts[i := t] ! j)" if "j < length ts0" for j
      using thr [OF that] call(4) i by (cases "j = i") (auto simp: logged_thread_def split: option.splits)
    moreover have "run_calls serial (log_of (entries @ [(i, a, r)])) c0 = Ret (c', results_of (entries @ [(i, a, r)]))"
      using run_calls_snoc [OF run call(3)] by (simp add: log_of_def results_of_def)
    moreover have "log_entry_ok calls ts0 (i, a, r)" using call(2) fresh(2) i len by (simp add: log_entry_ok_def)
    ultimately have "explains effect calls serial ts0 c0 (entries @ [(i, a, r)]) (ts[i := t]) c'"
      using dis fresh(1) len by (auto simp: explains_def)
    with restore [OF call(5)] show ?thesis by blast
  qed
qed

lemma log_run:
  assumes "explains effect calls serial ts0 c0 entries ts c" "related s ts c"
  shows "\<exists>s' ts' ext c'. run_schedule sched (s, ts) = Ret (s', ts') \<and>
    explains effect calls serial ts0 c0 (entries @ ext) ts' c' \<and> related s' ts' c'"
  using assms
proof (induction sched arbitrary: s ts entries c)
  case Nil
  then have "run_schedule [] (s, ts) = Ret (s, ts) \<and> explains effect calls serial ts0 c0 (entries @ []) ts c \<and> related s ts c" by simp
  then show ?case by blast
next
  case (Cons i sched)
  show ?case
  proof (cases "i < length ts")
    case True
    show ?thesis
    proof (cases "thread_step (ts ! i) s")
      case (Goto t s1)
      from log_step [OF Cons.prems True Goto] obtain ext c1 where
        "explains effect calls serial ts0 c0 (entries @ ext) (ts[i := t]) c1" "related s1 (ts[i := t]) c1" by blast
      from Cons.IH [OF this] obtain s' ts' ext' c' where
        "run_schedule sched (s1, ts[i := t]) = Ret (s', ts')" "explains effect calls serial ts0 c0 (entries @ ext @ ext') ts' c'"
        "related s' ts' c'" by auto
      with Goto True show ?thesis by (intro exI [of _ s'] exI [of _ ts'] exI [of _ "ext @ ext'"] exI [of _ c']) simp
    next
      case (Fault e)
      with shard_inv_move(1) [OF safe [OF Cons.prems(2)] True] show ?thesis by blast
    qed (use Cons True in auto)
  qed (use Cons in auto)
qed

text \<open>What the callers observe, at two moments of a run.\<close>

lemma linearises:
  assumes "related s ts c" "list_all call_start ts"
  shows "\<exists>s1 ts1 e1 s2 ts2 e2 c'. run_schedule sched1 (s, ts) = Ret (s1, ts1) \<and> run_schedule sched2 (s1, ts1) = Ret (s2, ts2) \<and>
    run_calls serial (log_of (e1 @ e2)) c = Ret (c', results_of (e1 @ e2)) \<and> distinct (map fst (e1 @ e2)) \<and>
    (\<forall>e \<in> set (e1 @ e2). log_entry_ok calls ts e) \<and>
    (\<forall>i < length ts. (\<forall>r. ts1 ! i = Returned r \<longrightarrow> (\<exists>a. (i, a, r) \<in> set e1)) \<and>
       (\<forall>r. ts2 ! i = Returned r \<longrightarrow> (\<exists>a. (i, a, r) \<in> set (e1 @ e2))) \<and> (call_start (ts1 ! i) \<longrightarrow> i \<notin> set (map fst e1))) \<and>
    related s2 ts2 c'"
proof -
  have "explains effect calls serial ts c [] ts c"
    using assms(2) begun by (auto simp: explains_def log_of_def results_of_def logged_thread_def list_all_length)
  from log_run [OF this assms(1), of sched1] obtain s1 ts1 e1 c1 where
    1: "run_schedule sched1 (s, ts) = Ret (s1, ts1)" "explains effect calls serial ts c e1 ts1 c1" "related s1 ts1 c1" by auto
  from log_run [OF 1(2,3), of sched2] obtain s2 ts2 e2 c2 where
    2: "run_schedule sched2 (s1, ts1) = Ret (s2, ts2)" "explains effect calls serial ts c (e1 @ e2) ts2 c2" "related s2 ts2 c2" by auto
  have ret: "\<exists>a. (i, a, r) \<in> set e" if "logged_thread effect calls ts e i (Returned r)" for i r e
    using that ended by (simp add: logged_thread_def)
  have beg: "i \<notin> set (map fst e)" if "logged_thread effect calls ts e i t" "call_start t" for i e t
    using that begun by (simp add: logged_thread_def)
  have t1: "logged_thread effect calls ts e1 i (ts1 ! i)" and t2: "logged_thread effect calls ts (e1 @ e2) i (ts2 ! i)"
    if "i < length ts" for i
    using 1(2) 2(2) that by (simp_all add: explains_def)
  have "\<forall>i < length ts. (\<forall>r. ts1 ! i = Returned r \<longrightarrow> (\<exists>a. (i, a, r) \<in> set e1)) \<and>
       (\<forall>r. ts2 ! i = Returned r \<longrightarrow> (\<exists>a. (i, a, r) \<in> set (e1 @ e2))) \<and> (call_start (ts1 ! i) \<longrightarrow> i \<notin> set (map fst e1))"
    using ret beg t1 t2 by metis
  then show ?thesis
    using 1(1) 2 by (intro exI [of _ s1] exI [of _ ts1] exI [of _ e1] exI [of _ s2] exI [of _ ts2] exI [of _ e2] exI [of _ c2])
      (simp add: explains_def)
qed

end

end
