(* ===== verification/Shard_Linear.thy ===== *)
theory Shard_Linear
  imports Linear_Log
begin

text \<open>
  What concurrent callers of one shard observe: although the methods interleave step by step, every
  execution of searches, queries, stagings, commits and discards has the results, and leaves the
  served and the staged revision, of the sequential methods of \<open>Faiss_Index\<close> run one
  after the other, in an order in which a call that returned before another began comes first.
\<close>

section \<open>Calls one after the other\<close>

datatype shard_call =
    CallSearch "f32 list" int
  | CallQuery shard_query
  | CallStagedRev
  | CallStage world world
  | CallCommit int
  | CallDiscard
  | CallReload world world
  | CallDelete

fun serial_call :: "shard_call \<Rightarrow> shard_state \<Rightarrow> (shard_state \<times> call_result) run" where
  "serial_call (CallSearch x k) (h, fx) = run_map (\<lambda>out. ((h, fx), SearchRes out)) (faiss_search h fx x k)"
| "serial_call (CallQuery q) (h, fx) = run_map (\<lambda>r. ((h, fx), r)) (run_query q h fx)"
| "serial_call CallStagedRev (h, fx) = Ret ((h, fx), IntRes (staged_revision fx))"
| "serial_call (CallStage w w') (h, fx) =
     run_map (\<lambda>(h', fx', r). ((h', fx'), StageRes r)) (stage_reload w w' h fx)"
| "serial_call (CallCommit e) (h, fx) =
     run_map (\<lambda>(h', fx', r). ((h', fx'), ErrRes r)) (commit_staged e h fx)"
| "serial_call CallDiscard (h, fx) = run_map (\<lambda>c. (c, UnitRes)) (discard_staged h fx)"
| "serial_call (CallReload w w') (h, fx) =
     run_map (\<lambda>(h', fx', r). ((h', fx'), ErrRes r)) (faiss_reload w w' h fx)"
| "serial_call CallDelete (h, fx) = run_map (\<lambda>c. (c, UnitRes)) (faiss_delete h fx)"

fun serial_run :: "shard_call list \<Rightarrow> shard_state \<Rightarrow> (shard_state \<times> call_result list) run" where
  "serial_run [] c = Ret (c, [])"
| "serial_run (call # calls) c =
     run_bind (serial_call call c) (\<lambda>(c', r). run_map (\<lambda>(c'', rs). (c'', r # rs)) (serial_run calls c'))"

lemma serial_run_calls: "serial_run as c = run_calls serial_call as c"
  by (induction as arbitrary: c) simp_all

section \<open>When a call takes effect\<close>

fun call_of :: "thread \<Rightarrow> shard_call" where
  "call_of (Searching x k p) = CallSearch x k"
| "call_of (Querying q p) = CallQuery q"
| "call_of (StagedRev p) = CallStagedRev"
| "call_of (Staging w w' p) = CallStage w w'"
| "call_of (Committing e p) = CallCommit e"
| "call_of (Discarding p) = CallDiscard"
| "call_of (Reloading w w' p) = CallReload w w'"
| "call_of (Deleting p) = CallDelete"
| "call_of (Returned r) = CallDelete"

text \<open>The result of a call that has taken effect: a search and a query when they have read under
  the read lock, a staging when it frees what was staged before, a commit when it swaps, a discard when it
  frees, and any of them when it finds that it has to fail.\<close>

fun outcome :: "thread \<Rightarrow> call_result option" where
  "outcome (Searching x k (SearchUnlock out)) = Some (SearchRes out)"
| "outcome (Querying q (QueryUnlock r)) = Some r"
| "outcome (StagedRev (StagedRevUnlock r)) = Some (IntRes r)"
| "outcome (Staging w w' (StageStore i r)) = Some (StageRes (Inr r))"
| "outcome (Staging w w' (StageClear res)) = Some (StageRes res)"
| "outcome (Staging w w' (StageUnlock res)) = Some (StageRes res)"
| "outcome (Committing e (CommitRelease i)) = Some (ErrRes None)"
| "outcome (Committing e (CommitFree i)) = Some (ErrRes None)"
| "outcome (Committing e (CommitUnlock r)) = Some (ErrRes r)"
| "outcome (Discarding DiscardClear) = Some UnitRes"
| "outcome (Discarding DiscardUnlock) = Some UnitRes"
| "outcome (Returned r) = Some r"
| "outcome _ = None"

text \<open>The staged pair that a thread is about to write while the pointer in the shard is dead.\<close>

fun pending_staged :: "thread \<Rightarrow> (nat \<times> int) option option" where
  "pending_staged (Staging w w' (StageStore i r)) = Some (Some (i, r))"
| "pending_staged (Discarding DiscardClear) = Some None"
| "pending_staged _ = None"

fun staging_call :: "thread \<Rightarrow> bool" where
  "staging_call (Reloading w w' p) = False"
| "staging_call (Deleting p) = False"
| "staging_call _ = True"

lemma pending_dead: "staged_dead t \<longleftrightarrow> pending_staged t \<noteq> None"
  by (cases t rule: pending_staged.cases) auto

text \<open>The sequential shard \<open>(h, fx)\<close> serves and stages what the concurrent one does.\<close>

definition staged_agrees :: "shard_sys \<Rightarrow> thread \<Rightarrow> shard_state \<Rightarrow> bool" where
  "staged_agrees s t c \<longleftrightarrow>
     (case pending_staged t of
        None \<Rightarrow> True
      | Some st \<Rightarrow> fx_staged c = map_option (\<lambda>(i, r). (r, sh_data s (Some i))) st)"

definition sim :: "shard_sys \<Rightarrow> thread list \<Rightarrow> shard_state \<Rightarrow> bool" where
  "sim s ts c \<longleftrightarrow>
     fx_ok (fst c) (snd c) \<and> fx_manifest (snd c) = fx_manifest (sh_fx s) \<and> fx_shard (snd c) = fx_shard (sh_fx s) \<and>
     fx_serving c = fx_serving (sh_heap s, sh_fx s) \<and>
     (tcount staged_dead ts = 0 \<longrightarrow> fx_staged c = fx_staged (sh_heap s, sh_fx s)) \<and>
     (\<forall>t \<in> set ts. staged_agrees s t c)"

section \<open>Sequential methods on equal views\<close>

lemma sim_serving:
  assumes "sim s ts (h, fx)"
  obtains i j d where "fx_index fx = Some i" "fx_index (sh_fx s) = Some j" "sm_load (ch_live h) i = Some d"
    "sm_load (ch_live (sh_heap s)) j = Some d" "fx_revision fx = fx_revision (sh_fx s)"
proof -
  from assms obtain i d where "fx_index fx = Some i" "sm_load (ch_live h) i = Some d"
    by (auto simp: sim_def fx_ok_def ch_handles_load)
  moreover from this assms have "sh_data s (fx_index (sh_fx s)) = Some d" "fx_revision fx = fx_revision (sh_fx s)"
    by (auto simp: sim_def fx_serving_def fx_data_def)
  ultimately show thesis using that [of i] by (cases "fx_index (sh_fx s)") (auto simp: fx_data_def)
qed

lemma serial_search:
  assumes "fx_index fx = Some i" "sm_load (ch_live h) i = Some d"
  shows "faiss_search h fx x k = Ret (if x = [] then Inl (Cfg ErrEmptyInput)
    else if int (length x) < fd_d d then Inl (Cfg ErrWrongInputDimension)
    else (case fd_search d x k of Inl e \<Rightarrow> Inl e | Inr (ds, ls) \<Rightarrow> Inr (ds, map itoa ls)))"
  using assms by (auto simp: faiss_search_def ch_deref_def)

lemma serial_query:
  assumes "sim s ts (h, fx)"
  shows "run_query q h fx = run_query q (sh_heap s) (sh_fx s)"
  by (rule sim_serving [OF assms], cases q)
    (auto simp: vector_count_def faiss_metric_type_def faiss_input_dim_def handle_data_def ch_deref_def
      check_available_def)

lemma serial_stage:
  assumes "fx_ok h fx" "new_downloader w (mf_source (fx_manifest fx)) (fx_shard fx) = Ret (Inr d)"
    and "download_update w w' d (fx_revision fx) = (p, r, None)" "w_read_index w' p = Inr fd"
  obtains h' fx' where "stage_reload w w' h fx = Ret (h', fx', Inr r)" "fx_ok h' fx'"
    "fx_serving (h', fx') = fx_serving (h, fx)" "fx_staged (h', fx') = Some (r, Some fd)"
    "fx_manifest fx' = fx_manifest fx" "fx_shard fx' = fx_shard fx"
proof (cases rule: stage_reload_cases [OF assms(1), of w w'])
  case (1 e)
  with assms show thesis
    by (auto simp: stage_reload_def fx_ok_def read_index_def ch_alloc_def run_bind_eq_Ret Let_def split: option.splits)
next
  case (2 dl p' r' fd')
  with assms have eq: "r' = r" "fd' = fd" by auto
  note fr = staged_state_frame [OF assms(1) prod.collapse [symmetric], of fd r]
  show thesis
  proof (rule that)
    show "stage_reload w w' h fx = Ret (fst (staged_state fd r h fx), snd (staged_state fd r h fx), Inr r)"
      using 2 eq by simp
  qed (use fr in \<open>auto simp: staged_state_def Let_def\<close>)
qed


section \<open>Steps against the sequential shard\<close>

text \<open>A step that touches neither the heap nor the served and staged fields.\<close>

lemma sim_same:
  assumes "sim s (t # ts) c" "sh_heap s' = sh_heap s" "sh_fx s' = (sh_fx s)\<lparr>fx_reloading := b\<rparr>"
    and "pending_staged t' = pending_staged t"
  shows "sim s' (t' # ts) c"
proof -
  have "staged_agrees s' u c = staged_agrees s u c" for u
    unfolding staged_agrees_def assms(2) ..
  moreover have "staged_agrees s' t' c = staged_agrees s t c"
    unfolding staged_agrees_def assms(2,4) ..
  moreover have "fx_serving (sh_heap s', sh_fx s') = fx_serving (sh_heap s, sh_fx s)"
    "fx_staged (sh_heap s', sh_fx s') = fx_staged (sh_heap s, sh_fx s)"
    using assms(2,3) by (simp_all add: fx_serving_def fx_staged_def split: option.split)
  moreover have "staged_dead t' = staged_dead t" by (simp add: pending_dead assms(4))
  ultimately show ?thesis using assms(1,3) by (simp add: sim_def)
qed

lemma sim_same_fx:
  assumes "sim s (t # ts) c" "sh_heap s' = sh_heap s" "sh_fx s' = sh_fx s" "pending_staged t' = pending_staged t"
  shows "sim s' (t' # ts) c"
  by (rule sim_same [OF assms(1,2) _ assms(4), of "fx_reloading (sh_fx s)"]) (simp add: assms(3))

text \<open>A step that changes the heap behind nobody's back.\<close>

lemma sim_heap:
  assumes sim: "sim s (t # ts) c" and inv: "handle_inv s (t # ts)" "lock_inv s (t # ts)"
    and step: "sh_fx s' = sh_fx s" "pending_staged t = None" "pending_staged t' = None"
    and keep: "\<And>i. i \<in> ch_handles (sh_heap s) \<Longrightarrow> owned_handle t \<noteq> Some i \<Longrightarrow> sh_data s' (Some i) = sh_data s (Some i)"
  shows "sim s' (t' # ts) c"
proof -
  have one: "owners i s (t # ts) \<le> 1" for i
    using inv(1) order_trans [OF _ one_if_le] unfolding handle_inv_def by blast
  have kept: "sh_data s' (Some i) = sh_data s (Some i)"
    if "0 < one_if (fx_index (sh_fx s) = Some i) +
      one_if (fx_staged_index (sh_fx s) = Some i \<and> tcount staged_dead (t # ts) = 0) +
      tcount (\<lambda>u. owned_handle u = Some i) ts" for i
    using that one [of i] by (intro keep owner_live [OF inv(1)]) (auto simp: owners_def)
  have serving: "fx_serving (sh_heap s', sh_fx s') = fx_serving (sh_heap s, sh_fx s)"
    using kept step(1) by (cases "fx_index (sh_fx s)") (simp_all add: fx_serving_def, simp add: fx_data_def)
  have staged: "fx_staged (sh_heap s', sh_fx s') = fx_staged (sh_heap s, sh_fx s)" if "tcount staged_dead (t # ts) = 0"
    using kept that step(1) by (cases "fx_staged_index (sh_fx s)") (simp_all add: fx_staged_def)
  have "staged_agrees s' u c" if u: "u \<in> set ts" "staged_agrees s u c" for u
  proof (cases "pending_staged u" rule: option.exhaust)
    case (Some st)
    have "sh_data s' (Some i) = sh_data s (Some i)" if "st = Some (i, r)" for i r
    proof (rule kept)
      have "owned_handle u = Some i" using Some that by (cases u rule: pending_staged.cases) auto
      then show "0 < one_if (fx_index (sh_fx s) = Some i) +
        one_if (fx_staged_index (sh_fx s) = Some i \<and> tcount staged_dead (t # ts) = 0) +
        tcount (\<lambda>u. owned_handle u = Some i) ts"
        using tcount_member [OF u(1), of "\<lambda>u. owned_handle u = Some i"] by simp
    qed
    with u(2) Some show ?thesis by (cases st) (auto simp: staged_agrees_def)
  qed (simp add: staged_agrees_def)
  with serving staged sim step show ?thesis by (simp add: sim_def staged_agrees_def pending_dead)
qed

lemma read_index_keeps:
  "read_index w p h = (h', r) \<Longrightarrow> ch_ok h \<Longrightarrow> i \<in> ch_handles h \<Longrightarrow> fx_data h' (Some i) = fx_data h (Some i)"
  by (auto simp: read_index_def ch_alloc_def fx_data_def dest: ch_ok_fresh split: sum.splits)

lemma free_option_keeps:
  "free_option j h = Ret h' \<Longrightarrow> j \<noteq> Some i \<Longrightarrow> fx_data h' (Some i) = fx_data h (Some i)"
  by (auto simp: free_option_def ch_free_def fx_data_def split: option.splits)

text \<open>Nobody else can be about to write the staged fields.\<close>

lemma others_not_pending:
  assumes "lock_inv s (t # ts)" "holds_staged t" "u \<in> set ts"
  shows "pending_staged u = None"
  using alone_with_staged(2) [OF assms(1,2)] tcount_member [OF assms(3), of staged_dead] pending_dead [of u] by auto

lemma sim_locked:
  assumes "lock_inv s (t # ts)" "holds_staged t"
  shows "sim s (t # ts) (h, fx) \<longleftrightarrow> fx_ok h fx \<and> fx_manifest fx = fx_manifest (sh_fx s) \<and>
    fx_shard fx = fx_shard (sh_fx s) \<and> fx_serving (h, fx) = fx_serving (sh_heap s, sh_fx s) \<and>
    (\<not> staged_dead t \<longrightarrow> fx_staged (h, fx) = fx_staged (sh_heap s, sh_fx s)) \<and> staged_agrees s t (h, fx)"
  using alone_with_staged(2) [OF assms] others_not_pending [OF assms] by (auto simp: sim_def staged_agrees_def)

text \<open>What a step of a thread means for the sequential shard: nothing yet, or its whole call.\<close>

definition explained :: "shard_sys \<Rightarrow> thread \<Rightarrow> thread list \<Rightarrow> shard_sys \<Rightarrow> thread \<Rightarrow> shard_state \<Rightarrow> bool" where
  "explained s t ts s' t' c \<longleftrightarrow>
     outcome t' = outcome t \<and> (outcome t = None \<longrightarrow> call_of t' = call_of t) \<and> sim s' (t' # ts) c \<or>
     outcome t = None \<and> (\<exists>c' r. serial_call (call_of t) c = Ret (c', r) \<and> outcome t' = Some r \<and> sim s' (t' # ts) c')"

lemma explained_idle:
  "outcome t' = outcome t \<Longrightarrow> call_of t' = call_of t \<or> outcome t \<noteq> None \<Longrightarrow> sim s' (t' # ts) c \<Longrightarrow> explained s t ts s' t' c"
  by (auto simp: explained_def)

lemma explained_call:
  "outcome t = None \<Longrightarrow> serial_call (call_of t) c = Ret (c', r) \<Longrightarrow> outcome t' = Some r \<Longrightarrow> sim s' (t' # ts) c' \<Longrightarrow>
   explained s t ts s' t' c"
  by (auto simp: explained_def)

lemma explain_search:
  assumes "sim s (Searching x k p # ts) (h, fx)" "thread_ok s (Searching x k p)"
    and "thread_step (Searching x k p) s = Goto t' s'"
  shows "explained s (Searching x k p) ts s' t' (h, fx)"
proof -
  obtain i j d where v: "fx_index fx = Some i" "fx_index (sh_fx s) = Some j" "sm_load (ch_live h) i = Some d"
    "sm_load (ch_live (sh_heap s)) j = Some d" by (rule sim_serving [OF assms(1)])
  note serial = serial_search [OF v(1,3), of x k]
  show ?thesis
  proof (cases p)
    case SearchLock
    with assms(1,3) show ?thesis by (auto simp: thread_simps intro!: explained_idle intro: sim_same_fx)
  next
    case SearchCheck
    with assms(1,3) v serial show ?thesis
      by (auto simp: thread_simps ch_deref_def explained_def
          split: if_splits intro: sim_same_fx)
  next
    case SearchCall
    with assms(1,3) v show ?thesis
      by (auto simp: thread_simps intro!: explained_idle intro: sim_same_fx)
  next
    case (SearchInC i')
    with assms v serial show ?thesis
      by (auto simp: thread_simps ch_deref_def searchable_def fx_data_def
          intro!: explained_call intro: sim_same_fx)
  next
    case (SearchUnlock r)
    with assms(1,3) show ?thesis by (auto simp: thread_simps intro!: explained_idle intro: sim_same_fx)
  qed
qed

lemma explain_query:
  assumes "sim s (Querying q p # ts) (h, fx)" "thread_step (Querying q p) s = Goto t' s'"
  shows "explained s (Querying q p) ts s' t' (h, fx)"
proof (cases p)
  case QueryRead
  with assms serial_query [OF assms(1), of q] show ?thesis
    by (auto simp: thread_simps intro!: explained_call sim_same_fx [OF assms(1)])
qed (use assms in \<open>auto simp: thread_simps explained_def intro: sim_same_fx\<close>)

lemma explain_staged_rev:
  assumes "sim s (StagedRev p # ts) (h, fx)" "lock_inv s (StagedRev p # ts)"
    and "fx_staged_index (sh_fx s) = None \<longrightarrow> fx_staged_revision (sh_fx s) = 0"
    and "thread_step (StagedRev p) s = Goto t' s'"
  shows "explained s (StagedRev p) ts s' t' (h, fx)"
proof (cases p)
  case StagedRevRead
  from sim_locked [OF assms(2)] assms(1) StagedRevRead have "fx_ok h fx"
    "fx_staged (h, fx) = fx_staged (sh_heap s, sh_fx s)" by auto
  with assms(3) have "staged_revision fx = staged_revision (sh_fx s)"
    by (auto simp: fx_staged_def staged_revision_def fx_ok_def split: option.splits)
  with assms(1,4) StagedRevRead show ?thesis by (auto simp: explained_def intro: sim_same_fx)
qed (use assms in \<open>auto simp: thread_simps explained_def intro: sim_same_fx\<close>)

lemma explain_discard:
  assumes sim: "sim s (Discarding p # ts) (h, fx)" and lock: "lock_inv s (Discarding p # ts)"
    and step: "thread_step (Discarding p) s = Goto t' s'"
    and inv: "handle_inv s (Discarding p # ts)"
  shows "explained s (Discarding p) ts s' t' (h, fx)"
proof (cases p)
  case DiscardLock
  with sim step show ?thesis by (auto simp: thread_simps explained_def intro: sim_same_fx)
next
  case DiscardFree
  then have locked: "holds_staged (Discarding p)" by simp
  have "fx_ok h fx" using sim by (simp add: sim_def)
  from discard_staged_frame [OF this] obtain h' fx' where d: "discard_staged h fx = Ret (h', fx')" "fx_ok h' fx'"
    "fx_serving (h', fx') = fx_serving (h, fx)" "fx_staged (h', fx') = None" by metis
  then have d': "fx_manifest fx' = fx_manifest fx" "fx_shard fx' = fx_shard fx"
    by (auto simp: discard_staged_def run_bind_eq_Ret split: option.splits)
  note now = sim [unfolded sim_locked [OF lock locked]]
  have r: "serial_call (call_of (Discarding p)) (h, fx) = Ret ((h', fx'), UnitRes)" using d by simp
  have lock': "lock_inv s' (t' # ts)" by (rule lock_step [OF lock step])
  show ?thesis
  proof (cases "fx_staged_index (sh_fx s)")
    case None
    with step DiscardFree have s': "s' = s" "t' = Discarding DiscardUnlock" by auto
    have "sim s' (t' # ts) (h', fx')"
      using sim_locked [OF lock'] now d d' s' None by (simp add: staged_agrees_def fx_staged_def)
    with r s' DiscardFree show ?thesis by (intro explained_call) auto
  next
    case (Some j)
    with step DiscardFree obtain hp where s': "s' = s\<lparr>sh_heap := hp\<rparr>" "t' = Discarding DiscardClear"
      "ch_free j (sh_heap s) = Ret hp" by (auto simp: thread_simps)
    have frame: "step_frame (Discarding p) s s'" by (rule step_frames [OF step]) simp
    obtain i where "fx_index (sh_fx s) = Some i" by (rule sim_serving [OF sim])
    with data_kept [OF inv lock frame, of i] s' have "fx_serving (sh_heap s', sh_fx s') = fx_serving (sh_heap s, sh_fx s)"
      by (simp add: fx_serving_def)
    then have "sim s' (t' # ts) (h', fx')"
      using sim_locked [OF lock'] now d d' s' by (simp add: staged_agrees_def)
    with r s' DiscardFree show ?thesis by (intro explained_call) auto
  qed
next
  case DiscardClear
  with step have s': "t' = Discarding DiscardUnlock" "s' = s\<lparr>sh_fx := (sh_fx s)\<lparr>fx_staged_index := None, fx_staged_revision := 0\<rparr>\<rparr>"
    by simp_all
  have "sim s' (t' # ts) (h, fx)"
    using sim_locked [OF lock_step [OF lock step]] sim_locked [OF lock] sim DiscardClear s'
    by (simp add: staged_agrees_def fx_serving_def fx_staged_def)
  with s' DiscardClear show ?thesis by (intro explained_idle) auto
next
  case DiscardUnlock
  with sim step show ?thesis by (auto simp: thread_simps explained_def intro: sim_same_fx)
qed

lemma explain_commit:
  assumes sim: "sim s (Committing e p # ts) (h, fx)" and lock: "lock_inv s (Committing e p # ts)"
    and inv: "handle_inv s (Committing e p # ts)" and ok: "thread_ok s (Committing e p)"
    and step: "thread_step (Committing e p) s = Goto t' s'"
  shows "explained s (Committing e p) ts s' t' (h, fx)"
proof (cases p)
  case CommitCheck
  then have "holds_staged (Committing e p)" by simp
  from sim [unfolded sim_locked [OF lock this]] CommitCheck have now: "fx_ok h fx" "fx_shard fx = fx_shard (sh_fx s)"
    "fx_staged (h, fx) = fx_staged (sh_heap s, sh_fx s)" by auto
  then have "fx_staged_index fx = None \<longleftrightarrow> fx_staged_index (sh_fx s) = None"
    "fx_staged_index fx \<noteq> None \<Longrightarrow> fx_staged_revision fx = fx_staged_revision (sh_fx s)"
    by (auto simp: fx_staged_def split: option.splits)
  with sim step CommitCheck now(2) show ?thesis
    by (auto simp: thread_simps Let_def explained_def commit_staged_def split: if_splits option.splits intro: sim_same_fx)
next
  case CommitSwap
  then have locked: "holds_staged (Committing e p)" by simp
  note now = sim [unfolded sim_locked [OF lock locked]]
  from step CommitSwap have s': "t' = Committing e (CommitRelease (fx_index (sh_fx s)))"
    "s' = s\<lparr>sh_fx := (sh_fx s)\<lparr>fx_index := fx_staged_index (sh_fx s), fx_revision := fx_staged_revision (sh_fx s),
        fx_staged_index := None, fx_staged_revision := 0\<rparr>\<rparr>"
    by (simp_all add: Let_def)
  from ok CommitSwap now have st: "fx_staged_index fx \<noteq> None" "fx_staged_revision fx = e" "fx_ok h fx"
    by (auto simp: fx_staged_def split: option.splits)
  from commit_staged_cases [OF st(3), of e] st(1,2) obtain h' fx' where
    c: "commit_staged e h fx = Ret (h', fx', None)" "fx_manifest fx' = fx_manifest fx" "fx_shard fx' = fx_shard fx"
    by (cases rule: commit_staged_cases [OF st(3), of e]) auto
  note fr = commit_staged_frame [OF st(3) c(1)]
  have "fx_staged (sh_heap s, sh_fx s) = Some (fx_serving (sh_heap s', sh_fx s'))"
    using ok CommitSwap s' by (auto simp: fx_staged_def fx_serving_def)
  with fr(4) now CommitSwap have "fx_serving (h', fx') = fx_serving (sh_heap s', sh_fx s')" by simp
  then have "sim s' (t' # ts) (h', fx')"
    using sim_locked [OF lock_step [OF lock step]] now fr c s'
    by (simp add: staged_agrees_def fx_staged_def)
  with c s' CommitSwap show ?thesis by (intro explained_call) auto
next
  case (CommitFree old)
  with step obtain hp where s': "t' = Committing e (CommitUnlock None)" "s' = s\<lparr>sh_heap := hp\<rparr>"
    "free_option old (sh_heap s) = Ret hp" by (auto simp: thread_simps)
  have "sim s' (t' # ts) (h, fx)"
    by (rule sim_heap [OF sim inv lock]) (use s' CommitFree free_option_keeps in auto)
  with s' CommitFree show ?thesis by (intro explained_idle) auto
qed (use sim step in \<open>auto simp: thread_simps explained_def intro: sim_same_fx\<close>)

lemma explain_stage:
  assumes sim: "sim s (Staging w w' p # ts) (h, fx)" and lock: "lock_inv s (Staging w w' p # ts)"
    and inv: "handle_inv s (Staging w w' p # ts)" and ok: "thread_ok s (Staging w w' p)"
    and zero: "fx_staged_index (sh_fx s) = None \<longrightarrow> fx_staged_revision (sh_fx s) = 0"
    and alone: "\<And>t. t \<in> set ts \<Longrightarrow> staging_call t"
    and step: "thread_step (Staging w w' p) s = Goto t' s'"
  shows "explained s (Staging w w' p) ts s' t' (h, fx)"
proof -
  have same: "fx_ok h fx" "fx_manifest fx = fx_manifest (sh_fx s)" "fx_shard fx = fx_shard (sh_fx s)"
    "fx_revision fx = fx_revision (sh_fx s)" "\<not> fx_reloading fx"
    using sim by (auto simp: sim_def fx_serving_def fx_ok_def)
  have src: "reads_source w d (sh_fx s) \<Longrightarrow> new_downloader w (mf_source (fx_manifest fx)) (fx_shard fx) = Ret (Inr d)" for d
    using same by (simp add: reads_source_def)
  have lock': "lock_inv s' (t' # ts)" by (rule lock_step [OF lock step])
  show ?thesis
  proof (cases p)
    case StageFlag
    have "\<not> fx_reloading (sh_fx s)"
    proof
      assume "fx_reloading (sh_fx s)"
      with lock StageFlag have "0 < tcount holds_flag ts" by (auto simp: lock_inv_def)
      then obtain u where u: "u \<in> set ts" "holds_flag u" using tcount_pos by blast
      with alone [OF u(1)] have "holds_staged u" by (cases u rule: holds_flag.cases) auto
      with exclusion(1) [OF lock u(1)] StageFlag show False by simp
    qed
    with step StageFlag have "t' = Staging w w' StageSource" "s' = set_flag True s" by auto
    with sim StageFlag sim_same [OF sim, of s' True t'] show ?thesis
      by (intro explained_idle) (auto simp: set_flag_def)
  next
    case StageSource
    from step StageSource obtain dl where dl: "new_downloader w (mf_source (fx_manifest fx)) (fx_shard fx) = Ret dl"
      "s' = s" "t' = Staging w w' (case dl of Inl e \<Rightarrow> StageClear (Inl e) | Inr d \<Rightarrow> StageRLock d)"
      using same by (auto simp: thread_simps)
    note sim' = sim_same_fx [OF sim, of s' t']
    show ?thesis
    proof (cases dl)
      case (Inl e)
      with dl same(5) StageSource sim' show ?thesis
        by (intro explained_call [where r = "StageRes (Inl e)"]) (auto simp: stage_reload_def)
    next
      case (Inr d)
      with dl StageSource sim' show ?thesis by (intro explained_idle) auto
    qed
  next
    case (StageDownload d r)
    obtain path rn err where u: "download_update w w' d r = (path, rn, err)" by (metis prod_cases3)
    have d: "new_downloader w (mf_source (fx_manifest fx)) (fx_shard fx) = Ret (Inr d)" "r = fx_revision fx"
      using ok StageDownload src same(4) by auto
    note sim' = sim_same_fx [OF sim, of s' t']
    show ?thesis
    proof (cases err)
      case None
      with step StageDownload u sim' show ?thesis by (intro explained_idle) auto
    next
      case (Some e)
      with step StageDownload u sim' d same(5) show ?thesis
        by (intro explained_call [where r = "StageRes (Inl e)"]) (auto simp: stage_reload_def)
    qed
  next
    case (StageReadFile path r)
    from ok StageReadFile obtain d where d: "new_downloader w (mf_source (fx_manifest fx)) (fx_shard fx) = Ret (Inr d)"
      "download_update w w' d (fx_revision fx) = (path, r, None)" using src same(4) by auto
    obtain hp res where rd: "read_index w' path (sh_heap s) = (hp, res)" by fastforce
    with step StageReadFile have s': "s' = s\<lparr>sh_heap := hp\<rparr>"
      "t' = Staging w w' (case res of Inl e \<Rightarrow> StageClear (Inl e) | Inr i \<Rightarrow> StageFreeOld i r)"
      by (auto split: sum.splits)
    have sim': "sim s' (t' # ts) (h, fx)"
      by (rule sim_heap [OF sim inv lock])
        (use s' StageReadFile read_index_keeps [OF rd] inv in \<open>auto simp: handle_inv_def split: sum.splits\<close>)
    show ?thesis
    proof (cases res)
      case (Inl e)
      with rd have "read_index w' path h = (h, Inl e)"
        by (auto simp: read_index_def split: sum.splits prod.splits)
      with d same(5) have "serial_call (CallStage w w') (h, fx) = Ret ((h, fx), StageRes (Inl e))"
        by (simp add: stage_reload_def)
      with sim' s' Inl StageReadFile show ?thesis by (intro explained_call) auto
    next
      case (Inr i)
      with sim' s' StageReadFile show ?thesis by (intro explained_idle) auto
    qed
  next
    case (StageFreeOld i r)
    then have locked: "holds_staged (Staging w w' p)" by simp
    from ok StageFreeOld obtain d path fd where d:
      "new_downloader w (mf_source (fx_manifest fx)) (fx_shard fx) = Ret (Inr d)"
      "download_update w w' d (fx_revision fx) = (path, r, None)" "w_read_index w' path = Inr fd"
      "sh_data s (Some i) = Some fd" using src same(4) by auto
    from serial_stage [OF same(1) d(1-3)] obtain h' fx' where st: "stage_reload w w' h fx = Ret (h', fx', Inr r)"
      "fx_ok h' fx'" "fx_serving (h', fx') = fx_serving (h, fx)" "fx_staged (h', fx') = Some (r, Some fd)"
      "fx_manifest fx' = fx_manifest fx" "fx_shard fx' = fx_shard fx" by metis
    from step StageFreeOld obtain hp where s': "t' = Staging w w' (StageStore i r)" "s' = s\<lparr>sh_heap := hp\<rparr>"
      by (auto simp: thread_simps)
    have frame: "step_frame (Staging w w' p) s s'" by (rule step_frames [OF step]) simp
    obtain j where "fx_index (sh_fx s) = Some j" by (rule sim_serving [OF sim])
    then have "fx_serving (sh_heap s', sh_fx s') = fx_serving (sh_heap s, sh_fx s)"
      using data_kept [OF inv lock frame, of j] s' by (simp add: fx_serving_def)
    moreover have "sh_data s' (Some i) = Some fd"
    proof -
      have "mf_source (fx_manifest (sh_fx s)) \<noteq> None" "fx_index (sh_fx s) \<noteq> None"
        using same(1,2) \<open>fx_index (sh_fx s) = Some j\<close> by (auto simp: fx_ok_def)
      with itself_ok [OF lock inv step ok] zero have "thread_ok s' t'" by blast
      with s' obtain d' path' fd' where
        "new_downloader w (mf_source (fx_manifest fx)) (fx_shard fx) = Ret (Inr d')"
        "download_update w w' d' (fx_revision fx) = (path', r, None)" "w_read_index w' path' = Inr fd'"
        "sh_data s' (Some i) = Some fd'" using src same(4) by auto
      with d show ?thesis by simp
    qed
    ultimately have "sim s' (t' # ts) (h', fx')"
      using sim_locked [OF lock'] sim [unfolded sim_locked [OF lock locked]] st s' by (simp add: staged_agrees_def)
    with st s' StageFreeOld show ?thesis by (intro explained_call) auto
  next
    case (StageStore i r)
    with step have s': "t' = Staging w w' (StageClear (Inr r))"
      "s' = s\<lparr>sh_fx := (sh_fx s)\<lparr>fx_staged_index := Some i, fx_staged_revision := r\<rparr>\<rparr>" by simp_all
    have "sim s' (t' # ts) (h, fx)"
      using sim_locked [OF lock'] sim_locked [OF lock] sim StageStore s'
      by (simp add: staged_agrees_def fx_serving_def fx_staged_def)
    with s' StageStore show ?thesis by (intro explained_idle) auto
  next
    case (StageClear res)
    with step have s': "t' = Staging w w' (StageUnlock res)" "s' = set_flag False s" by simp_all
    with sim_same [OF sim, of s' False t'] StageClear show ?thesis
      by (intro explained_idle) (auto simp: set_flag_def)
  qed (use sim step in \<open>auto simp: thread_simps explained_def intro: sim_same_fx\<close>)
qed


lemma explain_step:
  assumes inv: "shard_inv s (t # ts)" and sim: "sim s (t # ts) c" and step: "thread_step t s = Goto t' s'"
    and calls: "\<And>u. u \<in> set (t # ts) \<Longrightarrow> staging_call u"
  shows "explained s t ts s' t' c"
proof -
  obtain h fx where c: "c = (h, fx)" by fastforce
  from inv have i: "lock_inv s (t # ts)" "handle_inv s (t # ts)" "thread_ok s t"
    "fx_staged_index (sh_fx s) = None \<longrightarrow> fx_staged_revision (sh_fx s) = 0" by (auto simp: shard_inv_def)
  show ?thesis
  proof (cases t)
    case (Searching x k p)
    with explain_search [of s x k p ts h fx t' s'] i sim step c show ?thesis by simp
  next
    case (Querying q p)
    with explain_query [of s q p ts h fx t' s'] sim step c show ?thesis by simp
  next
    case (StagedRev p)
    with explain_staged_rev [of s p ts h fx t' s'] i sim step c show ?thesis by simp
  next
    case (Staging w w' p)
    with explain_stage [of s w w' p ts h fx t' s'] i sim step c calls show ?thesis by simp
  next
    case (Committing e p)
    with explain_commit [of s e p ts h fx t' s'] i sim step c show ?thesis by simp
  next
    case (Discarding p)
    with explain_discard [of s p ts h fx t' s'] i sim step c show ?thesis by simp
  qed (use step calls [of t] in simp_all)
qed

section \<open>Logs\<close>

text \<open>
  A log lists the calls that have taken effect, with their results.  It explains a state when the
  sequential methods, run in its order from the initial shard, give those results and a shard
  that serves and stages the same; when it holds every call that has returned; and when it holds no call that has not begun.
\<close>

definition log_calls :: "thread list \<Rightarrow> (nat \<times> call_result) list \<Rightarrow> shard_call list" where
  "log_calls ts entries = map (\<lambda>(i, r). call_of (ts ! i)) entries"

definition staging_related :: "shard_sys \<Rightarrow> thread list \<Rightarrow> shard_state \<Rightarrow> bool" where
  "staging_related s ts c \<longleftrightarrow> shard_inv s ts \<and> sim s ts c \<and> (\<forall>t \<in> set ts. staging_call t)"

lemma sim_perm:
  assumes "\<And>P. tcount P ts = tcount P us" "set ts = set us"
  shows "sim s ts c = sim s us c"
  using assms by (simp add: sim_def)

lemma step_staging_call: "thread_step t s = Goto t' s' \<Longrightarrow> staging_call t \<Longrightarrow> staging_call t'"
  by (cases t) (auto simp: thread_simps)

interpretation staging: linearised outcome "\<lambda>t. {call_of t}" serial_call staging_related
proof unfold_locales
  fix s t ts c t' s'
  assume rel: "staging_related s (t # ts) c" and mv: "thread_step t s = Goto t' s'"
  then have "explained s t ts s' t' c"
    by (intro explain_step) (auto simp: staging_related_def)
  moreover have "shard_inv s' (t' # ts)" "\<forall>u \<in> set (t' # ts). staging_call u"
    using rel shard_inv_step [OF _ mv] step_staging_call [OF mv] by (auto simp: staging_related_def)
  ultimately show "outcome t' = outcome t \<and> (outcome t = None \<longrightarrow> {call_of t'} = {call_of t}) \<and> staging_related s' (t' # ts) c \<or>
      outcome t = None \<and> (\<exists>a c' r. a \<in> {call_of t} \<and> serial_call a c = Ret (c', r) \<and> outcome t' = Some r \<and> staging_related s' (t' # ts) c')"
    by (auto simp: explained_def staging_related_def)
next
  show "staging_related s ts c \<Longrightarrow> shard_inv s ts" for s ts c by (simp add: staging_related_def)
  show "staging_related s ts c = staging_related s us c" if "\<And>P. tcount P ts = tcount P us" "set ts = set us" for s ts us c
    using shard_inv_cong [OF that] sim_perm [OF that] that(2) by (simp add: staging_related_def)
  show "call_start t \<Longrightarrow> outcome t = None" for t by (cases t) auto
qed simp

lemma log_calls_eq:
  assumes "\<forall>e \<in> set entries. log_entry_ok (\<lambda>t. {call_of t}) ts e"
  shows "log_calls ts (map (\<lambda>(i, a, r). (i, r)) entries) = log_of entries"
  using assms by (auto simp: log_calls_def log_of_def log_entry_ok_def)

section \<open>Properties\<close>

lemma related_start:
  assumes "fx_ok h fx" "list_all call_start ts" "list_all staging_call ts"
  shows "staging_related (idle_shard h fx) ts (h, fx)"
proof -
  have none: "pending_staged t = None" if "t \<in> set ts" for t
    using assms(2) that by (cases t) (auto simp: list_all_iff)
  then have "sim (idle_shard h fx) ts (h, fx)"
    using assms(1) by (auto simp: sim_def idle_shard_def staged_agrees_def)
  with idle_shard_inv [OF assms(1,2)] assms(3) show ?thesis by (simp add: staging_related_def list_all_iff)
qed

text \<open>C5: Concurrent calls on a shard linearise.  However searches, queries, stagings, commits and discards
  interleave, the results of the calls and what the shard then serves and has staged are those of the
  sequential methods, run one after the other in the order of a log.  A call that has returned is in the log with its
  result, a call that has not begun is not, and the log only grows, so
  a call that returned before another began comes first.\<close>

theorem concurrent_calls_linearise:
  assumes "fx_ok h fx" "list_all call_start ts" "list_all staging_call ts"
  shows "\<exists>s1 ts1 entries1 s2 ts2 entries2 hq fxq.
    run_schedule sched1 (idle_shard h fx, ts) = Ret (s1, ts1) \<and> run_schedule sched2 (s1, ts1) = Ret (s2, ts2) \<and>
    serial_run (log_calls ts (entries1 @ entries2)) (h, fx) = Ret ((hq, fxq), map snd (entries1 @ entries2)) \<and>
    distinct (map fst (entries1 @ entries2)) \<and> set (map fst (entries1 @ entries2)) \<subseteq> {..<length ts} \<and>
    (\<forall>i < length ts. (\<forall>r. ts1 ! i = Returned r \<longrightarrow> (i, r) \<in> set entries1) \<and>
       (\<forall>r. ts2 ! i = Returned r \<longrightarrow> (i, r) \<in> set (entries1 @ entries2)) \<and>
       (call_start (ts1 ! i) \<longrightarrow> i \<notin> set (map fst entries1))) \<and>
    (list_all returned ts2 \<longrightarrow>
       fx_serving (hq, fxq) = fx_serving (sh_heap s2, sh_fx s2) \<and> fx_staged (hq, fxq) = fx_staged (sh_heap s2, sh_fx s2))"
proof -
  let ?short = "map (\<lambda>(i, a, r). (i, r))"
  from staging.linearises [OF related_start [OF assms] assms(2), of sched1 sched2] obtain s1 ts1 e1 s2 ts2 e2 c where
    run: "run_schedule sched1 (idle_shard h fx, ts) = Ret (s1, ts1)" "run_schedule sched2 (s1, ts1) = Ret (s2, ts2)"
    and log: "run_calls serial_call (log_of (e1 @ e2)) (h, fx) = Ret (c, results_of (e1 @ e2))" "distinct (map fst (e1 @ e2))"
      "\<forall>e \<in> set (e1 @ e2). log_entry_ok (\<lambda>t. {call_of t}) ts e"
    and seen: "\<forall>i < length ts. (\<forall>r. ts1 ! i = Returned r \<longrightarrow> (\<exists>a. (i, a, r) \<in> set e1)) \<and>
       (\<forall>r. ts2 ! i = Returned r \<longrightarrow> (\<exists>a. (i, a, r) \<in> set (e1 @ e2))) \<and> (call_start (ts1 ! i) \<longrightarrow> i \<notin> set (map fst e1))"
    and rel: "staging_related s2 ts2 c" by blast
  have short: "?short e1 @ ?short e2 = ?short (e1 @ e2)" "map fst (?short e) = map fst e" "map snd (?short e) = results_of e"
    "(\<exists>a. (i, a, r) \<in> set e) \<Longrightarrow> (i, r) \<in> set (?short e)" for e :: "shard_call log_entries" and i r
    by (force simp: results_of_def)+
  have "serial_run (log_calls ts (?short e1 @ ?short e2)) (h, fx) = Ret (c, map snd (?short e1 @ ?short e2))"
    unfolding short(1,3) serial_run_calls log_calls_eq [OF log(3)] by (rule log(1))
  moreover have "set (map fst (?short e1 @ ?short e2)) \<subseteq> {..<length ts}"
    using log(3) by (auto simp: log_entry_ok_def)
  moreover have "distinct (map fst (?short e1 @ ?short e2))" using log(2) unfolding short(1,2) .
  moreover have "\<forall>i < length ts. (\<forall>r. ts1 ! i = Returned r \<longrightarrow> (i, r) \<in> set (?short e1)) \<and>
       (\<forall>r. ts2 ! i = Returned r \<longrightarrow> (i, r) \<in> set (?short e1 @ ?short e2)) \<and>
       (call_start (ts1 ! i) \<longrightarrow> i \<notin> set (map fst (?short e1)))"
    using seen short(4) unfolding short(1,2) by blast
  moreover have "fx_serving c = fx_serving (sh_heap s2, sh_fx s2) \<and> fx_staged c = fx_staged (sh_heap s2, sh_fx s2)"
    if "list_all returned ts2"
  proof -
    have "\<not> staged_dead t" if "t \<in> set ts2" for t
    proof -
      have "returned t" using that \<open>list_all returned ts2\<close> by (simp add: list_all_iff)
      then show ?thesis by (cases t) auto
    qed
    then have "tcount staged_dead ts2 = 0" by (rule tcount_none)
    with rel show ?thesis by (simp add: staging_related_def sim_def)
  qed
  ultimately show ?thesis
    using run by (cases c) (intro exI [of _ s1] exI [of _ ts1] exI [of _ "?short e1"] exI [of _ s2] exI [of _ ts2] exI [of _ "?short e2"]
        exI [of _ "fst c"] exI [of _ "snd c"], simp)
qed

text \<open>A deletion is outside this discipline: it waits for the searches that are inside, but a search that
  still holds the shard and takes the lock afterwards reads freed memory.\<close>

theorem search_after_delete_faults:
  assumes "fx_ok h fx" "x \<noteq> []"
  shows "run_schedule (replicate 8 1 @ [0, 0]) (idle_shard h fx,
    [Searching x k SearchLock, Deleting (DeleteStaged DiscardLock)]) = Panic UseAfterFree"
proof -
  obtain i d where i: "fx_index fx = Some i" "sm_load (ch_live h) i = Some d"
    using assms(1) by (auto simp: fx_ok_def ch_handles_load)
  show ?thesis
  proof (cases "fx_staged_index fx")
    case None
    with assms i show ?thesis
      by (simp add: idle_shard_def free_rw_def lock_defs ch_free_def ch_deref_def numeral_eq_Suc)
  next
    case (Some j)
    with assms(1) i obtain d' where "sm_load (ch_live h) j = Some d'" "j \<noteq> i"
      by (auto simp: fx_ok_def ch_handles_load)
    with Some assms(2) i show ?thesis
      by (simp add: idle_shard_def free_rw_def lock_defs ch_free_def ch_deref_def numeral_eq_Suc)
  qed
qed

section \<open>Witnesses\<close>

lemma ex_threads_staging: "list_all staging_call ex_threads"
  by (simp add: ex_threads_def)

theorem concurrent_calls_linearise_witness:
  "\<exists>s1 ts1 entries1 s2 ts2 entries2 hq fxq.
    run_schedule [0, 1, 0, 1, 1, 0] (idle_shard ex_heap (ex_fx True), ex_threads) = Ret (s1, ts1) \<and>
    run_schedule [0, 0, 1, 1, 1, 1, 1, 3] (s1, ts1) = Ret (s2, ts2) \<and>
    serial_run (log_calls ex_threads (entries1 @ entries2)) (ex_heap, ex_fx True) =
      Ret ((hq, fxq), map snd (entries1 @ entries2)) \<and> distinct (map fst (entries1 @ entries2))"
  using concurrent_calls_linearise [OF ex_fx_ok [of True] ex_threads_start(1) ex_threads_staging,
      where ?sched1.0 = "[0, 1, 0, 1, 1, 0]" and ?sched2.0 = "[0, 0, 1, 1, 1, 1, 1, 3]"] by blast

theorem search_after_delete_faults_witness:
  "run_schedule (replicate 8 1 @ [0, 0]) (idle_shard ex_heap (ex_fx True),
    [Searching [F_num 0] 1 SearchLock, Deleting (DeleteStaged DiscardLock)]) = Panic UseAfterFree"
  using search_after_delete_faults [OF ex_fx_ok [of True], of "[F_num 0]" 1] by simp

end
