(* ===== verification/Store_Threads.thy ===== *)
theory Store_Threads
  imports Shard_Linear
begin

text \<open>
  One entry of the manager's \<open>engineStore\<close> (\<open>internal/engine/manager.go\<close>), used by several goroutines:
  searches load the pointer and then call the shard, a rebalance or the manifest watch loads a
  missing shard and stores it, and an unload removes the entry and frees the shard.  The map is atomic, the
  sequences are not.  Each shard object has its own part of the FAISS memory, and on a shard the
  threads of \<open>Faiss_Threads\<close> run.
\<close>

section \<open>State and threads\<close>

text \<open>The entry holds a pointer to an object, here its number.\<close>

record slot_sys =
  sl_entry :: "nat option"
  sl_objs :: "shard_sys list"

text \<open>
  \<open>SlotSearch\<close>: \<open>SearchShard\<close>.  \<open>SlotLoad\<close>, \<open>SlotMake\<close>, \<open>SlotStore\<close>: the check, \<open>NewIndex\<close> and the
  store of \<open>loadIndex\<close> and \<open>Rebalance\<close>.  \<open>SlotUnload\<close>, \<open>SlotRemove\<close>: the load at the top of
  the loop of \<open>Rebalance\<close> and the removal at its end.  \<open>SlotDrop\<close>: \<open>LoadAndDelete\<close> of \<open>deleteIndex\<close>.
\<close>

datatype slot_pc =
    SlotSearch "f32 list" int
  | SlotLoad world index_manifest shard
  | SlotMake world index_manifest shard
  | SlotStore nat
  | SlotUnload
  | SlotRemove nat
  | SlotDrop
  | OnShard nat thread
  | SlotDone "call_result option"

datatype slot_move = SlotBlocked | SlotGoto slot_pc slot_sys | SlotFault fault

definition delete_call :: thread where
  "delete_call = Deleting (DeleteStaged DiscardLock)"

fun shard_move :: "nat \<Rightarrow> slot_sys \<Rightarrow> thread move \<Rightarrow> slot_move" where
  "shard_move i g (Goto (Returned r) s) = SlotGoto (SlotDone (Some r)) (g\<lparr>sl_objs := (sl_objs g)[i := s]\<rparr>)"
| "shard_move i g (Goto t s) = SlotGoto (OnShard i t) (g\<lparr>sl_objs := (sl_objs g)[i := s]\<rparr>)"
| "shard_move i g (Return r s) = SlotGoto (SlotDone (Some r)) (g\<lparr>sl_objs := (sl_objs g)[i := s]\<rparr>)"
| "shard_move i g Blocked = SlotBlocked"
| "shard_move i g (Fault e) = SlotFault e"

fun slot_step :: "slot_pc \<Rightarrow> slot_sys \<Rightarrow> slot_move" where
  "slot_step (SlotSearch x k) g =
     (case sl_entry g of
        None \<Rightarrow> SlotGoto (SlotDone (Some (SearchRes (Inl (Cfg ErrShardNotFound))))) g
      | Some i \<Rightarrow> SlotGoto (OnShard i (Searching x k SearchLock)) g)"
| "slot_step (SlotLoad w m sh) g =
     SlotGoto (if sl_entry g \<noteq> None then SlotDone None else SlotMake w m sh) g"
| "slot_step (SlotMake w m sh) g =
     (case new_faiss_index w m sh empty_heap of
        Panic e \<Rightarrow> SlotFault e
      | Ret (h, Inl e) \<Rightarrow> SlotGoto (SlotDone None) g
      | Ret (h, Inr fx) \<Rightarrow> SlotGoto (SlotStore (length (sl_objs g))) (g\<lparr>sl_objs := sl_objs g @ [idle_shard h fx]\<rparr>))"
| "slot_step (SlotStore i) g = SlotGoto (SlotDone None) (g\<lparr>sl_entry := Some i\<rparr>)"
| "slot_step SlotUnload g =
     SlotGoto (case sl_entry g of None \<Rightarrow> SlotDone None | Some i \<Rightarrow> SlotRemove i) g"
| "slot_step (SlotRemove i) g = SlotGoto (OnShard i delete_call) (g\<lparr>sl_entry := None\<rparr>)"
| "slot_step SlotDrop g =
     (case sl_entry g of
        None \<Rightarrow> SlotGoto (SlotDone None) g
      | Some i \<Rightarrow> SlotGoto (OnShard i delete_call) (g\<lparr>sl_entry := None\<rparr>))"
| "slot_step (OnShard i t) g = shard_move i g (thread_step t (sl_objs g ! i))"
| "slot_step (SlotDone r) g = SlotBlocked"

fun run_slots :: "nat list \<Rightarrow> slot_sys \<times> slot_pc list \<Rightarrow> (slot_sys \<times> slot_pc list) run" where
  "run_slots [] c = Ret c"
| "run_slots (i # is) (g, ps) =
     (if i < length ps then
        (case slot_step (ps ! i) g of
           SlotGoto p g' \<Rightarrow> run_slots is (g', ps[i := p])
         | SlotFault e \<Rightarrow> Panic e
         | SlotBlocked \<Rightarrow> run_slots is (g, ps))
      else run_slots is (g, ps))"

section \<open>Who holds a pointer\<close>

fun holds_object :: "nat \<Rightarrow> slot_pc \<Rightarrow> bool" where
  "holds_object i (SlotStore j) = (j = i)"
| "holds_object i (SlotRemove j) = (j = i)"
| "holds_object i (OnShard j t) = (j = i)"
| "holds_object i _ = False"

text \<open>Only the threads in \<open>D\<close> may hold the object \<open>i\<close>, and the entry does not.\<close>

definition object_private :: "nat \<Rightarrow> nat set \<Rightarrow> slot_sys \<Rightarrow> slot_pc list \<Rightarrow> bool" where
  "object_private i D g ps \<longleftrightarrow> i < length (sl_objs g) \<and> sl_entry g \<noteq> Some i \<and>
     (\<forall>j < length ps. holds_object i (ps ! j) \<longrightarrow> j \<in> D) \<and> (\<forall>j < length ps. ps ! j \<noteq> SlotStore i)"

lemma shard_move_cases:
  assumes "shard_move i g m = SlotGoto p g'"
  shows "sl_entry g' = sl_entry g \<and> length (sl_objs g') = length (sl_objs g) \<and> (\<forall>l. l \<noteq> i \<longrightarrow> sl_objs g' ! l = sl_objs g ! l) \<and>
    ((\<exists>r. p = SlotDone r) \<or> (\<exists>t. p = OnShard i t))"
proof (cases m)
  case (Goto t s)
  with assms show ?thesis by (cases t) auto
qed (use assms in auto)

lemma slot_step_objects:
  assumes "slot_step p g = SlotGoto p' g'"
  shows "length (sl_objs g) \<le> length (sl_objs g') \<and>
    (i < length (sl_objs g) \<longrightarrow> holds_object i p' \<longrightarrow> holds_object i p \<or> sl_entry g = Some i) \<and>
    (i < length (sl_objs g) \<longrightarrow> p' \<noteq> SlotStore i) \<and> (sl_entry g' = Some i \<longrightarrow> sl_entry g = Some i \<or> p = SlotStore i)"
proof (cases p)
  case (SlotMake w m sh)
  with assms show ?thesis
    by (auto split: run.splits prod.splits sum.splits)
next
  case (OnShard j t)
  with assms shard_move_cases [of j g "thread_step t (sl_objs g ! j)" p' g']
  show ?thesis by auto
qed (use assms in \<open>auto split: option.splits if_splits\<close>)

lemma private_step:
  assumes "object_private i D g ps" "j < length ps" "slot_step (ps ! j) g = SlotGoto p g'"
  shows "object_private i D g' (ps[j := p])"
  using assms slot_step_objects [OF assms(3), where i = i]
  by (auto simp: object_private_def nth_list_update)

lemma private_run:
  assumes "object_private i D g ps" "run_slots is (g, ps) = Ret (g', ps')"
  shows "object_private i D g' ps'"
  using assms
proof (induction "is" arbitrary: g ps)
  case (Cons j "is")
  show ?case
  proof (cases "j < length ps")
    case True
    show ?thesis
    proof (cases "slot_step (ps ! j) g")
      case (SlotGoto p g1)
      with Cons.IH [OF private_step [OF Cons.prems(1) True SlotGoto]] Cons.prems(2) True show ?thesis by simp
    qed (use Cons True in auto)
  qed (use Cons in auto)
qed simp


section \<open>Properties\<close>

definition slot_of :: "c_heap \<Rightarrow> faiss_index \<Rightarrow> slot_sys" where
  "slot_of h fx = \<lparr>sl_entry = Some 0, sl_objs = [idle_shard h fx]\<rparr>"

text \<open>Removing the entry before freeing the shard protects the searches that come later.  When the entry has been removed
  and no other goroutine holds the pointer, then, whatever searches, loads, unloads and deletions run on
  in whatever order, no goroutine but the one that frees the shard gets to it again.\<close>

theorem removed_shard_unreachable:
  assumes "ps ! d = SlotRemove i" "d < length ps" "i < length (sl_objs g)" "sl_entry g = Some i"
    and "\<And>j. j < length ps \<Longrightarrow> j \<noteq> d \<Longrightarrow> \<not> holds_object i (ps ! j)"
    and "run_slots (d # sched) (g, ps) = Ret (g', ps')"
  shows "sl_entry g' \<noteq> Some i \<and> (\<forall>j < length ps'. holds_object i (ps' ! j) \<longrightarrow> j = d)"
proof -
  let ?g = "g\<lparr>sl_entry := None\<rparr>" and ?ps = "ps[d := OnShard i delete_call]"
  have "run_slots sched (?g, ?ps) = Ret (g', ps')" using assms(1,2,6) by simp
  moreover have "object_private i {d} ?g ?ps"
    using assms(2,3,5) holds_object.simps(1) [of i i] by (fastforce simp: object_private_def nth_list_update)
  ultimately have "object_private i {d} g' ps'" by (rule private_run [rotated])
  then show ?thesis by (auto simp: object_private_def)
qed

text \<open>C13: It does not protect the searches that came before.  A search that has loaded the pointer reads freed memory when a
  rebalance removes the entry and frees the shard before the search takes its lock; a rebalance
  and a deletion of the index that meet free the shard twice; and two loads that meet leave a shard that is
  loaded but in no entry.\<close>

theorem store_races:
  assumes "fx_ok h fx" "x \<noteq> []" "new_faiss_index w m sh empty_heap = Ret (h', Inr fx')"
  shows "run_slots ([0] @ replicate 10 1 @ [0, 0]) (slot_of h fx, [SlotSearch x k, SlotUnload]) = Panic UseAfterFree \<and>
    run_slots ([0] @ replicate 9 1 @ replicate 7 0) (slot_of h fx, [SlotUnload, SlotDrop]) = Panic DoubleFree \<and>
    (\<exists>g ps. run_slots [0, 1, 0, 0, 1, 1] (\<lparr>sl_entry = None, sl_objs = []\<rparr>, [SlotLoad w m sh, SlotLoad w m sh]) = Ret (g, ps) \<and>
       sl_entry g = Some 1 \<and> sl_objs g = [idle_shard h' fx', idle_shard h' fx'] \<and> ps = [SlotDone None, SlotDone None])"
proof (intro conjI)
  obtain i d where i: "fx_index fx = Some i" "sm_load (ch_live h) i = Some d"
    using assms(1) by (auto simp: fx_ok_def ch_handles_load)
  note defs = slot_of_def delete_call_def idle_shard_def free_rw_def lock_defs ch_free_def ch_deref_def numeral_eq_Suc
  show "run_slots ([0] @ replicate 10 1 @ [0, 0]) (slot_of h fx, [SlotSearch x k, SlotUnload]) = Panic UseAfterFree"
  proof (cases "fx_staged_index fx")
    case None
    with assms i show ?thesis by (simp add: defs)
  next
    case (Some j)
    with assms(1) i obtain d' where "sm_load (ch_live h) j = Some d'" "j \<noteq> i"
      by (auto simp: fx_ok_def ch_handles_load)
    with Some assms(2) i show ?thesis by (simp add: defs)
  qed
  show "run_slots ([0] @ replicate 9 1 @ replicate 7 0) (slot_of h fx, [SlotUnload, SlotDrop]) = Panic DoubleFree"
  proof (cases "fx_staged_index fx")
    case None
    with assms i show ?thesis by (simp add: defs)
  next
    case (Some j)
    with assms(1) i obtain d' where "sm_load (ch_live h) j = Some d'" "j \<noteq> i"
      by (auto simp: fx_ok_def ch_handles_load)
    with Some i show ?thesis by (simp add: defs)
  qed
  show "\<exists>g ps. run_slots [0, 1, 0, 0, 1, 1] (\<lparr>sl_entry = None, sl_objs = []\<rparr>, [SlotLoad w m sh, SlotLoad w m sh]) = Ret (g, ps) \<and>
       sl_entry g = Some 1 \<and> sl_objs g = [idle_shard h' fx', idle_shard h' fx'] \<and> ps = [SlotDone None, SlotDone None]"
    using assms(3) by simp
qed

section \<open>Witnesses\<close>

theorem removed_shard_unreachable_witness:
  "\<exists>g' ps'. run_slots (1 # [0, 1, 1, 0]) (slot_of ex_heap (ex_fx True), [SlotSearch [F_num 0] 1, SlotRemove 0]) = Ret (g', ps') \<and>
     sl_entry g' \<noteq> Some 0 \<and> \<not> holds_object 0 (ps' ! 0)"
proof -
  have run: "\<exists>g' ps'. run_slots (1 # [0, 1, 1, 0]) (slot_of ex_heap (ex_fx True), [SlotSearch [F_num 0] 1, SlotRemove 0]) =
      Ret (g', ps') \<and> length ps' = 2"
    by (simp add: slot_of_def delete_call_def idle_shard_def free_rw_def lock_defs ch_free_def ex_fx_def ex_heap_def sm_load_def)
  then obtain g' ps' where r: "run_slots (1 # [0, 1, 1, 0]) (slot_of ex_heap (ex_fx True), [SlotSearch [F_num 0] 1, SlotRemove 0]) =
      Ret (g', ps')" "length ps' = 2" by blast
  have other: "\<not> holds_object 0 ([SlotSearch [F_num 0] 1, SlotRemove 0] ! j)"
    if "j < length [SlotSearch [F_num 0] 1, SlotRemove 0]" "j \<noteq> 1" for j
    using that by (cases j) auto
  have u: "sl_entry g' \<noteq> Some 0 \<and> (\<forall>j < length ps'. holds_object 0 (ps' ! j) \<longrightarrow> j = 1)"
    by (rule removed_shard_unreachable [OF _ _ _ _ other r(1)]) (simp_all add: slot_of_def)
  then have "\<not> holds_object 0 (ps' ! 0)" using r(2) by fastforce
  with r(1) u show ?thesis by blast
qed

lemma ex_new_faiss: "\<exists>h fx. new_faiss_index (ex_world ''5'') ex_manifest ex_shard empty_heap = Ret (h, Inr fx)"
proof -
  have "download (ex_world ''5'') (LocalDl (new_local_dl ex_source ex_shard)) = (''idx/5/0'', 5, None)"
    by code_simp
  then show ?thesis
    by (simp add: new_faiss_index_def new_downloader_def ex_manifest_def ex_source_def read_index_def ex_world_def ch_alloc_def)
qed

theorem store_races_witness:
  "run_slots ([0] @ replicate 10 1 @ [0, 0]) (slot_of ex_heap (ex_fx False), [SlotSearch [F_num 0] 1, SlotUnload]) = Panic UseAfterFree"
proof -
  obtain h fx where "new_faiss_index (ex_world ''5'') ex_manifest ex_shard empty_heap = Ret (h, Inr fx)"
    using ex_new_faiss by blast
  from store_races [OF ex_fx_ok [of False] _ this, of "[F_num 0]" 1] show ?thesis by blast
qed

end
