(* ===== verification/Init_Threads.thy ===== *)
theory Init_Threads
  imports Manager
begin

text \<open>
  The loads of \<open>InitManager\<close> (\<open>internal/engine/manager.go\<close>), one goroutine per manifest, as threads: each reads
  and writes the maps of the manager and the memory of the FAISS library step by step, and the counters at its end.  The
  result is compared with that of the loads one after another, which \<open>Manager\<close> has.
\<close>

section \<open>Threads\<close>

text \<open>
  \<open>LoadNext\<close>: the head of the loop of \<open>loadIndex\<close>, with the shards left and the two counters.  \<open>LoadMake\<close>: the call of
  \<open>NewIndex\<close>.  \<open>LoadPut\<close>, \<open>LoadMark\<close>: the store of a shard and the marking of one that failed.
\<close>

datatype load_pc =
    LoadStart index_manifest
  | LoadNext index_manifest "shard list" nat nat
  | LoadMake index_manifest shard "shard list" nat nat
  | LoadPut index_manifest shard index "shard list" nat nat
  | LoadMark index_manifest shard "shard list" nat nat
  | LoadManifest index_manifest nat nat
  | LoadTotal nat nat
  | LoadSuccess nat
  | LoadFailed
  | LoadDone

record init_sys =
  is_sys :: sys
  is_total :: nat
  is_success :: nat
  is_failed :: nat

definition load_cluster :: "cluster_view option \<Rightarrow> sys \<Rightarrow> cluster_view option" where
  "load_cluster cv s = (if im_mode (sy_mgr s) = ClusterMode then cv else None)"

fun init_step :: "(shard \<Rightarrow> world) \<Rightarrow> cluster_view option \<Rightarrow> load_pc \<Rightarrow> init_sys \<Rightarrow> (load_pc \<times> init_sys) run" where
  "init_step ws cv (LoadStart m) g =
     (if im_mode (sy_mgr (is_sys g)) = ClusterMode \<and> cv = None then Ret (LoadFailed, g)
      else (case manifest_validate m of
        Some e \<Rightarrow> Ret (LoadFailed, g)
      | None \<Rightarrow> run_map (\<lambda>shs. (LoadNext m shs 0 0, g)) (generate_shards m)))"
| "init_step ws cv (LoadNext m [] t n) g = Ret (LoadManifest m t n, g)"
| "init_step ws cv (LoadNext m (sh # shs) t n) g =
     (if engine (is_sys g) (unique_shard_key sh) \<noteq> None then Ret (LoadNext m shs t n, g)
      else if \<not> wanted (load_cluster cv (is_sys g)) sh then Ret (LoadNext m shs t n, g)
      else Ret (LoadMake m sh shs (Suc t) n, g))"
| "init_step ws cv (LoadMake m sh shs t n) g =
     run_map (\<lambda>(h, r). (case r of Inl e \<Rightarrow> LoadMark m sh shs t n
         | Inr ix \<Rightarrow> LoadPut m sh (cluster_callback (im_mode (sy_mgr (is_sys g))) (meta_name (mf_meta m)) ix) shs t n,
       g\<lparr>is_sys := (is_sys g)\<lparr>sy_heap := h\<rparr>\<rparr>))
     (new_index (ws sh) m sh (sy_heap (is_sys g)))"
| "init_step ws cv (LoadPut m sh ix shs t n) g =
     Ret (LoadNext m shs t (Suc n), g\<lparr>is_sys := store_index (unique_shard_key sh) ix (sy_heap (is_sys g)) (is_sys g)\<rparr>)"
| "init_step ws cv (LoadMark m sh shs t n) g =
     Ret (LoadNext m shs t n, g\<lparr>is_sys := mark_shard_pending sh (is_sys g)\<rparr>)"
| "init_step ws cv (LoadManifest m t n) g = Ret (LoadTotal t n, g\<lparr>is_sys := store_manifest m (is_sys g)\<rparr>)"
| "init_step ws cv (LoadTotal t n) g = Ret (LoadSuccess n, g\<lparr>is_total := is_total g + t\<rparr>)"
| "init_step ws cv (LoadSuccess n) g = Ret (LoadDone, g\<lparr>is_success := is_success g + n\<rparr>)"
| "init_step ws cv LoadFailed g = Ret (LoadDone, g\<lparr>is_failed := is_failed g + 1\<rparr>)"
| "init_step ws cv LoadDone g = Ret (LoadDone, g)"

fun run_init :: "(shard \<Rightarrow> world) \<Rightarrow> cluster_view option \<Rightarrow> nat list \<Rightarrow> init_sys \<times> load_pc list \<Rightarrow> (init_sys \<times> load_pc list) run" where
  "run_init ws cv [] c = Ret c"
| "run_init ws cv (i # is) (g, ps) =
     (if i < length ps then run_bind (init_step ws cv (ps ! i) g) (\<lambda>(p, g'). run_init ws cv is (g', ps[i := p]))
      else run_init ws cv is (g, ps))"

definition init_start :: "mode \<Rightarrow> sys \<Rightarrow> init_sys" where
  "init_start md s = \<lparr>is_sys = s\<lparr>sy_mgr := new_index_manager md\<rparr>, is_total = 0, is_success = 0, is_failed = 0\<rparr>"

section \<open>What a shard is loaded as\<close>

text \<open>What can be seen of a loaded shard from outside: the shard, its revision and the data behind its handle.\<close>

type_synonym shard_view = "shard \<times> int \<times> faiss_data option"

fun view_of :: "c_heap \<Rightarrow> index \<Rightarrow> shard_view" where
  "view_of h (FaissIx fx) = (fx_shard fx, fx_revision fx, case fx_index fx of None \<Rightarrow> None | Some i \<Rightarrow> sm_load (ch_live h) i)"
| "view_of h (MockIx m) = (mx_shard m, mx_revision m, None)"

definition loaded_view :: "sys \<Rightarrow> string \<Rightarrow> shard_view option" where
  "loaded_view s k = map_option (view_of (sy_heap s)) (engine s k)"

text \<open>Loading does not depend on what else is loaded.\<close>

definition shard_outcome :: "world \<Rightarrow> index_manifest \<Rightarrow> shard \<Rightarrow> shard_view option" where
  "shard_outcome w m sh = (case new_index w m sh \<lparr>ch_live = [], ch_next = 0\<rparr> of
     Ret (h, Inr ix) \<Rightarrow> Some (view_of h ix) | _ \<Rightarrow> None)"

lemma view_callback [simp]: "view_of h (cluster_callback md name ix) = view_of h ix"
  by (cases ix) (auto simp: cluster_callback_def set_reload_callback_def)

lemma start_reload_shape:
  obtains (fails) e where "\<And>fx. start_reload w setting fx = Inl e"
    | (keeps) "\<And>fx. start_reload w setting fx = Inr fx"
    | (entry) n where "\<And>fx. start_reload w setting fx = Inr (fx\<lparr>fx_reload_entry := n\<rparr>)"
proof (cases "reload_mode setting = ''active''")
  case True
  define cs where "cs = (let sch = reload_schedule setting in
    if sched_type sch = ''cron'' then Some (sched_crontab sch)
    else if sched_type sch = ''interval'' then Some (''@every '' @ sched_interval sch)
    else if sched_type sch = ''fixed'' then Some '''' else None)"
  have r: "start_reload w setting fx = (case cs of None \<Rightarrow> Inl (Cfg ErrInvalidScheduleType)
      | Some c \<Rightarrow> (case w_cron_add w c of Inl e \<Rightarrow> Inl e | Inr n \<Rightarrow> Inr (fx\<lparr>fx_reload_entry := n\<rparr>)))" for fx
    using True by (simp add: start_reload_def cs_def Let_def)
  show thesis
  proof (cases cs)
    case None
    with r fails show thesis by simp
  next
    case (Some c)
    with r fails entry show thesis by (cases "w_cron_add w c") auto
  qed
next
  case False
  then show thesis by (intro keeps) (simp add: start_reload_def)
qed

lemma new_faiss_index_view:
  assumes "new_faiss_index w m sh h = Ret (h', r)" "new_faiss_index w m sh g = Ret (g', q)"
  shows "(\<exists>e e'. r = Inl e \<and> q = Inl e') \<or>
    (\<exists>x y. r = Inr x \<and> q = Inr y \<and> view_of h' (FaissIx x) = view_of g' (FaissIx y))"
proof -
  from assms obtain dl where dl: "new_downloader w (mf_source m) sh = Ret dl"
    by (auto simp: new_faiss_index_def run_bind_eq_Ret)
  note d = assms [unfolded new_faiss_index_def dl]
  show ?thesis
  proof (cases dl)
    case (Inl e)
    with d show ?thesis by auto
  next
    case (Inr dd)
    obtain p rv err where p: "download w dd = (p, rv, err)" by (cases "download w dd")
    show ?thesis
    proof (cases "err \<noteq> None")
      case True
      with d Inr p show ?thesis by auto
    next
      case False
      show ?thesis
      proof (cases "w_read_index w p")
        case (Inl e)
        with d Inr p False show ?thesis by (auto simp: read_index_def)
      next
        case data: (Inr c)
        let ?fx = "\<lambda>i. \<lparr>fx_index = Some i, fx_reloading = False, fx_reload_entry = 0, fx_shard = sh, fx_revision = rv,
          fx_staged_index = None, fx_staged_revision = 0, fx_manifest = m, fx_reload_callback = ReloadSelf\<rparr>"
        let ?out = "\<lambda>i. case mf_reload m of Some setting \<Rightarrow> if reload_enable setting then start_reload w setting (?fx i) else Inr (?fx i)
          | None \<Rightarrow> Inr (?fx i)"
        have h: "h' = snd (ch_alloc c h)" "r = ?out (ch_next h)" "g' = snd (ch_alloc c g)" "q = ?out (ch_next g)"
          using d Inr p False data
          by (auto simp: read_index_def ch_alloc_def Let_def split: option.splits if_splits)
        have live: "sm_load (ch_live (snd (ch_alloc c h))) (ch_next h) = Some c" "sm_load (ch_live (snd (ch_alloc c g))) (ch_next g) = Some c"
          by (simp_all add: ch_alloc_def)
        show ?thesis
        proof (cases "\<exists>setting. mf_reload m = Some setting \<and> reload_enable setting")
          case True
          then obtain setting where s: "mf_reload m = Some setting" "reload_enable setting" by blast
          show ?thesis
            by (cases rule: start_reload_shape [of w setting]) (use s h live in simp_all)
        next
          case False
          with h live show ?thesis by (auto split: option.splits)
        qed
      qed
    qed
  qed
qed

lemma new_index_outcome:
  assumes "new_index w m sh h = Ret (h', r)"
  shows "shard_outcome w m sh = (case r of Inl e \<Rightarrow> None | Inr ix \<Rightarrow> Some (view_of h' ix))"
proof (cases "meta_type (mf_meta m) = ''faiss''")
  case True
  with assms obtain q where q: "new_faiss_index w m sh h = Ret (h', q)" "r = (case q of Inl e \<Rightarrow> Inl e | Inr fx \<Rightarrow> Inr (FaissIx fx))"
    by (auto simp: new_index_def run_map_eq_Ret)
  obtain g' q' where q': "new_faiss_index w m sh \<lparr>ch_live = [], ch_next = 0\<rparr> = Ret (g', q')"
    using new_faiss_index_Ret [OF new_faiss_index_source [OF q(1)]] by blast
  from new_faiss_index_view [OF q(1) q'] q(2) q' True show ?thesis
    by (auto simp: shard_outcome_def new_index_def)
next
  case False
  with assms show ?thesis
    by (auto simp: shard_outcome_def new_index_def split: if_splits sum.splits)
qed

section \<open>The reference: one manifest on its own\<close>

text \<open>The shards loaded and what as, the shards left pending, the number of shards tried and of those loaded.\<close>

type_synonym load_result = "(string \<Rightarrow> shard_view option) \<times> shard set \<times> nat \<times> nat"

fun ref_load :: "(shard \<Rightarrow> world) \<Rightarrow> cluster_view option \<Rightarrow> index_manifest \<Rightarrow> shard list \<Rightarrow> load_result \<Rightarrow> load_result" where
  "ref_load ws cv m [] x = x"
| "ref_load ws cv m (sh # shs) (V, P, t, n) =
     (if V (unique_shard_key sh) \<noteq> None \<or> \<not> wanted cv sh then ref_load ws cv m shs (V, P, t, n)
      else case shard_outcome (ws sh) m sh of
          None \<Rightarrow> ref_load ws cv m shs (V, insert sh P, Suc t, n)
        | Some v \<Rightarrow> ref_load ws cv m shs (V(unique_shard_key sh \<mapsto> v), P, Suc t, Suc n))"

definition load_goal :: "(shard \<Rightarrow> world) \<Rightarrow> cluster_view option \<Rightarrow> index_manifest \<Rightarrow> load_result" where
  "load_goal ws cv m =
     (case generate_shards m of Ret shs \<Rightarrow> ref_load ws cv m shs (Map.empty, {}, 0, 0) | Panic e \<Rightarrow> (Map.empty, {}, 0, 0))"

abbreviation index_name_of :: "index_manifest \<Rightarrow> string" where
  "index_name_of m \<equiv> meta_name (mf_meta m)"

text \<open>The part of the manager that belongs to an index.\<close>

definition own_keys :: "string \<Rightarrow> string set" where
  "own_keys name = {k. \<exists>sh. sh_index_name sh = name \<and> k = unique_shard_key sh}"

definition view_part :: "string \<Rightarrow> sys \<Rightarrow> string \<Rightarrow> shard_view option" where
  "view_part name s = (loaded_view s) |` own_keys name"

definition pending_part :: "string \<Rightarrow> sys \<Rightarrow> shard set" where
  "pending_part name s = {sh \<in> pending s. sh_index_name sh = name}"

lemma own_keys_unique [simp]: "unique_shard_key sh \<in> own_keys name \<longleftrightarrow> sh_index_name sh = name"
  by (auto simp: own_keys_def unique_shard_key_eq)

lemma own_keys_disjoint: "k \<in> own_keys name \<Longrightarrow> k \<in> own_keys name' \<Longrightarrow> name = name'"
  by (auto simp: own_keys_def unique_shard_key_eq)

lemma view_of_frame:
  assumes "index_ok h ix" "ch_frame {} h h'"
  shows "view_of h' ix = view_of h ix"
proof (cases ix)
  case (FaissIx fx)
  with assms(1) obtain i where i: "fx_index fx = Some i" "i \<in> ch_handles h" "ch_ok h" by (auto simp: fx_ok_def)
  then have "i < ch_next h" by (auto simp: ch_ok_def)
  with i assms(2) FaissIx show ?thesis by (simp add: ch_frame_def)
qed simp

lemma loaded_view_heap:
  assumes "store_ok (sy_heap s) (im_engine_store (sy_mgr s))" "ch_frame {} (sy_heap s) h"
  shows "loaded_view (s\<lparr>sy_heap := h\<rparr>) = loaded_view s"
  using view_of_frame [OF store_okD(3) [OF assms(1)] assms(2)]
  by (auto simp: loaded_view_def fun_eq_iff map_option_case split: option.splits)

lemma loaded_view_mark [simp]: "loaded_view (mark_shard_pending sh s) = loaded_view s"
  by (simp add: loaded_view_def fun_eq_iff)

lemma loaded_view_manifest [simp]: "loaded_view (store_manifest m s) = loaded_view s"
  by (simp add: loaded_view_def fun_eq_iff)

lemma loaded_view_store:
  assumes "store_ok (sy_heap s) (im_engine_store (sy_mgr s))" "ch_frame {} (sy_heap s) h"
  shows "loaded_view (store_index k ix h s) = (loaded_view s)(k \<mapsto> view_of h ix)"
  using view_of_frame [OF store_okD(3) [OF assms(1)] assms(2)]
  by (auto simp: loaded_view_def store_index_def fun_eq_iff map_option_case split: option.splits)

lemma loaded_view_None: "loaded_view s k = None \<longleftrightarrow> engine s k = None"
  by (simp add: loaded_view_def)

text \<open>Loading one after another does what the reference says to the part of the index, and leaves the others alone.\<close>

definition load_part :: "string \<Rightarrow> sys \<Rightarrow> nat \<Rightarrow> nat \<Rightarrow> load_result" where
  "load_part name s t n = (view_part name s, pending_part name s, t, n)"

lemma view_part_other: "name \<noteq> name' \<Longrightarrow> k \<in> own_keys name \<Longrightarrow> view_part name' s k = None"
  using own_keys_disjoint by (fastforce simp: view_part_def restrict_map_def)

lemma load_shards_skip:
  "engine s (unique_shard_key sh) \<noteq> None \<or> \<not> wanted cv sh \<Longrightarrow> load_shards ws cv m (sh # shs) s = load_shards ws cv m shs s"
  by (auto simp: wanted_def split: option.splits)

lemma load_shards_ref:
  assumes "manifest_ok m" "\<forall>sh \<in> set shs. sh_index_name sh = index_name_of m"
    and "load_shards ws cv m shs s = Ret (s', t, n)" "store_ok (sy_heap s) (im_engine_store (sy_mgr s))"
  shows "ref_load ws cv m shs (load_part (index_name_of m) s a b) = load_part (index_name_of m) s' (a + t) (b + n) \<and>
    (\<forall>name. name \<noteq> index_name_of m \<longrightarrow> view_part name s' = view_part name s \<and> pending_part name s' = pending_part name s) \<and>
    (\<forall>k. loaded_view s' k \<noteq> None \<longrightarrow> loaded_view s k \<noteq> None \<or> k \<in> own_keys (index_name_of m)) \<and>
    (\<forall>sh \<in> pending s'. sh \<in> pending s \<or> sh_index_name sh = index_name_of m)"
  using assms(2-)
proof (induction shs arbitrary: s t n a b)
  case Nil
  then show ?case by simp
next
  case (Cons sh shs)
  let ?name = "index_name_of m"
  have name: "sh_index_name sh = ?name" and names: "\<forall>sh \<in> set shs. sh_index_name sh = ?name" using Cons.prems(1) by auto
  have own: "view_part ?name s (unique_shard_key sh) = loaded_view s (unique_shard_key sh)"
    using name by (simp add: view_part_def)
  show ?case
  proof (cases "engine s (unique_shard_key sh) \<noteq> None \<or> \<not> wanted cv sh")
    case True
    then have "load_shards ws cv m shs s = Ret (s', t, n)"
      using Cons.prems(2) load_shards_skip [OF True] by simp
    from Cons.IH [OF names this Cons.prems(3), of a b] True own show ?thesis
      by (auto simp: load_part_def loaded_view_def)
  next
    case False
    then have e: "engine s (unique_shard_key sh) = None" "wanted cv sh" by auto
    obtain h r where n: "new_index (ws sh) m sh (sy_heap s) = Ret (h, r)"
      using manifest_ok_index [OF assms(1)] by blast
    note fr = new_index_heap [OF store_okD(1) [OF Cons.prems(3)] n]
    note out = new_index_outcome [OF n]
    note ok = store_ok_new_index [OF Cons.prems(3) n]
    show ?thesis
    proof (cases r)
      case (Inl er)
      let ?s = "mark_shard_pending sh (s\<lparr>sy_heap := h\<rparr>)"
      obtain t1 where l: "load_shards ws cv m shs ?s = Ret (s', t1, n)" "t = Suc t1"
        using Cons.prems(2) e n Inl by (auto simp: wanted_def run_map_eq_Ret split: option.splits)
      have "load_part ?name ?s (Suc a) b = (view_part ?name s, insert sh (pending_part ?name s), Suc a, b)"
        using loaded_view_heap [OF Cons.prems(3) fr] name by (auto simp: load_part_def view_part_def pending_part_def)
      then have 1: "ref_load ws cv m (sh # shs) (load_part ?name s a b) = ref_load ws cv m shs (load_part ?name ?s (Suc a) b)"
        using e own out Inl by (simp add: load_part_def loaded_view_def)
      from Cons.IH [OF names l(1), of "Suc a" b] ok(1) 1 l(2) loaded_view_heap [OF Cons.prems(3) fr] name show ?thesis
        by (auto simp: view_part_def pending_part_def)
    next
      case (Inr ix)
      let ?ix = "cluster_callback (im_mode (sy_mgr s)) ?name ix"
      let ?s = "store_index (unique_shard_key sh) ?ix h s"
      obtain t1 n1 where l: "load_shards ws cv m shs ?s = Ret (s', t1, n1)" "t = Suc t1" "n = Suc n1"
        using Cons.prems(2) e n Inr by (auto simp: wanted_def run_map_eq_Ret split: option.splits)
      have v: "loaded_view ?s = (loaded_view s)(unique_shard_key sh \<mapsto> view_of h ix)"
        using loaded_view_store [OF Cons.prems(3) fr] by simp
      have "pending ?s = pending s" by (simp add: store_index_def)
      then have "load_part ?name ?s (Suc a) (Suc b) = ((view_part ?name s)(unique_shard_key sh \<mapsto> view_of h ix), pending_part ?name s, Suc a, Suc b)"
        using v name by (auto simp: load_part_def view_part_def pending_part_def restrict_map_def fun_eq_iff)
      then have 1: "ref_load ws cv m (sh # shs) (load_part ?name s a b) = ref_load ws cv m shs (load_part ?name ?s (Suc a) (Suc b))"
        using e own out Inr by (simp add: load_part_def loaded_view_def)
      have others: "view_part name' ?s = view_part name' s" if "name' \<noteq> ?name" for name'
        using that v name by (auto simp: view_part_def restrict_map_def fun_eq_iff)
      from Cons.IH [OF names l(1), of "Suc a" "Suc b"] ok(2) [OF Inr] have
        "ref_load ws cv m shs (load_part ?name ?s (Suc a) (Suc b)) = load_part ?name s' (Suc a + t1) (Suc b + n1) \<and>
         (\<forall>name. name \<noteq> ?name \<longrightarrow> view_part name s' = view_part name ?s \<and> pending_part name s' = pending_part name ?s) \<and>
         (\<forall>k. loaded_view s' k \<noteq> None \<longrightarrow> loaded_view ?s k \<noteq> None \<or> k \<in> own_keys ?name) \<and>
         (\<forall>sh \<in> pending s'. sh \<in> pending ?s \<or> sh_index_name sh = ?name)"
        by (simp add: store_index_def)
      note IH = this
      have "loaded_view s k \<noteq> None \<or> k \<in> own_keys ?name" if "loaded_view s' k \<noteq> None" for k
      proof -
        have "loaded_view ?s k \<noteq> None \<or> k \<in> own_keys ?name" using IH that by blast
        then show ?thesis using name by (cases "k = unique_shard_key sh") (simp_all add: v)
      qed
      moreover have "pending_part name' ?s = pending_part name' s" for name'
        using \<open>pending ?s = pending s\<close> by (simp add: pending_part_def)
      ultimately show ?thesis
        using IH 1 l(2,3) others \<open>pending ?s = pending s\<close> by simp
    qed
  qed
qed

section \<open>The loads one after another\<close>

text \<open>What one load changes: its own part, which is then as the reference says, and its manifest.\<close>

definition loaded_alone :: "(shard \<Rightarrow> world) \<Rightarrow> cluster_view option \<Rightarrow> index_manifest \<Rightarrow> sys \<Rightarrow> sys \<Rightarrow> nat \<Rightarrow> nat \<Rightarrow> bool" where
  "loaded_alone ws cv m s s' t n \<longleftrightarrow>
     load_part (index_name_of m) s' t n = load_goal ws cv m \<and>
     (\<forall>name. name \<noteq> index_name_of m \<longrightarrow> view_part name s' = view_part name s \<and> pending_part name s' = pending_part name s) \<and>
     (\<forall>k. loaded_view s' k \<noteq> None \<longrightarrow> loaded_view s k \<noteq> None \<or> k \<in> own_keys (index_name_of m)) \<and>
     (\<forall>sh \<in> pending s'. sh \<in> pending s \<or> sh_index_name sh = index_name_of m) \<and>
     sm_load (im_manifests (sy_mgr s')) = (sm_load (im_manifests (sy_mgr s)))(index_name_of m \<mapsto> m) \<and>
     im_mode (sy_mgr s') = im_mode (sy_mgr s)"

lemma load_index_alone:
  assumes "sys_ok s" "manifest_ok m" "cv \<noteq> None \<or> im_mode (sy_mgr s) = Single"
    and "view_part (index_name_of m) s = Map.empty" "pending_part (index_name_of m) s = {}"
  shows "\<exists>s' t n. load_index ws cv m s = Ret (s', t, n, None) \<and> sys_ok s' \<and> loaded_alone ws (load_cluster cv s) m s s' t n"
proof -
  obtain shs where shs: "generate_shards m = Ret shs" using generate_Ret [OF assms(2)] by blast
  from load_index_ok [OF assms(1,2) shs assms(3), of ws] obtain s1 t n where
    l: "load_index ws cv m s = Ret (store_manifest m s1, t, n, None)" "sys_ok (store_manifest m s1)"
      "loaded_from (load_cluster cv s) shs s s1 t n" by (auto simp: load_cluster_def)
  have "load_shards ws (load_cluster cv s) m shs s = Ret (s1', t, n) \<and> store_manifest m s1' = store_manifest m s1"
    if "load_shards ws (load_cluster cv s) m shs s = Ret (s1', t', n')" for s1' t' n'
    using l(1) that shs assms(3) by (auto simp: load_index_def manifest_validate_def load_cluster_def split: if_splits)
  moreover obtain s1' t' n' where "load_shards ws (load_cluster cv s) m shs s = Ret (s1', t', n')"
    using load_shards_ok [OF assms(2), of s ws "load_cluster cv s" shs] assms(1) by (auto simp: sys_ok_def)
  ultimately have ld: "load_shards ws (load_cluster cv s) m shs s = Ret (s1', t, n)" "store_manifest m s1' = store_manifest m s1"
    by blast+
  have names: "\<forall>sh \<in> set shs. sh_index_name sh = index_name_of m" using generate_shards_Ret [OF shs] by blast
  have same: "view_part name (store_manifest m s1') = view_part name s1'" "pending_part name (store_manifest m s1') = pending_part name s1'" for name
    by (simp_all add: view_part_def pending_part_def)
  have "load_part (index_name_of m) s 0 0 = (Map.empty, {}, 0, 0)" using assms(4,5) by (simp add: load_part_def)
  with load_shards_ref [OF assms(2) names ld(1), of 0 0] assms(1) have
    "load_part (index_name_of m) s1' t n = load_goal ws (load_cluster cv s) m"
    "\<forall>name. name \<noteq> index_name_of m \<longrightarrow> view_part name s1' = view_part name s \<and> pending_part name s1' = pending_part name s"
    "\<forall>k. loaded_view s1' k \<noteq> None \<longrightarrow> loaded_view s k \<noteq> None \<or> k \<in> own_keys (index_name_of m)"
    "\<forall>sh \<in> pending s1'. sh \<in> pending s \<or> sh_index_name sh = index_name_of m"
    by (simp_all add: load_goal_def shs sys_ok_def)
  moreover have "im_manifests (sy_mgr s1) = im_manifests (sy_mgr s)" "im_mode (sy_mgr s1) = im_mode (sy_mgr s)"
    using l(3) by (simp_all add: loaded_from_def)
  moreover have "loaded_view (store_manifest m s1) = loaded_view s1'" "pending (store_manifest m s1) = pending s1'"
    using ld(2) loaded_view_manifest store_manifest_simps(3) by metis+
  moreover have "sm_load (im_manifests (sy_mgr (store_manifest m s1))) = (sm_load (im_manifests (sy_mgr s1)))(index_name_of m \<mapsto> m)"
    by (simp add: fun_eq_iff)
  ultimately have "loaded_alone ws (load_cluster cv s) m s (store_manifest m s1) t n"
    using same unfolding ld(2) by (simp add: loaded_alone_def load_part_def)
  with l(1,2) show ?thesis by blast
qed

definition goal_total :: "(shard \<Rightarrow> world) \<Rightarrow> cluster_view option \<Rightarrow> index_manifest \<Rightarrow> nat" where
  "goal_total ws cv m = fst (snd (snd (load_goal ws cv m)))"

definition goal_success :: "(shard \<Rightarrow> world) \<Rightarrow> cluster_view option \<Rightarrow> index_manifest \<Rightarrow> nat" where
  "goal_success ws cv m = snd (snd (snd (load_goal ws cv m)))"

text \<open>A state in which the parts of \<open>ms\<close> are as the reference says, and nothing else is loaded or pending.\<close>

definition all_loaded :: "(shard \<Rightarrow> world) \<Rightarrow> cluster_view option \<Rightarrow> index_manifest set \<Rightarrow> sys \<Rightarrow> bool" where
  "all_loaded ws cv ms s \<longleftrightarrow>
     (\<forall>m \<in> ms. view_part (index_name_of m) s = fst (load_goal ws cv m) \<and> pending_part (index_name_of m) s = fst (snd (load_goal ws cv m))) \<and>
     (\<forall>k. loaded_view s k \<noteq> None \<longrightarrow> (\<exists>m \<in> ms. k \<in> own_keys (index_name_of m))) \<and>
     (\<forall>sh \<in> pending s. \<exists>m \<in> ms. sh_index_name sh = index_name_of m)"

lemma part_untouched:
  assumes "\<forall>k. loaded_view s k \<noteq> None \<longrightarrow> (\<exists>m \<in> ms. k \<in> own_keys (index_name_of m))"
    and "\<forall>sh \<in> pending s. \<exists>m \<in> ms. sh_index_name sh = index_name_of m" "name \<notin> index_name_of ` ms"
  shows "view_part name s = Map.empty" "pending_part name s = {}"
proof -
  have "view_part name s k = None" for k
  proof (rule ccontr)
    assume "view_part name s k \<noteq> None"
    then have k: "k \<in> own_keys name" "loaded_view s k \<noteq> None"
      by (simp_all add: view_part_def restrict_map_def split: if_splits)
    with assms(1) obtain m where "m \<in> ms" "k \<in> own_keys (index_name_of m)" by blast
    with own_keys_disjoint [OF k(1)] assms(3) show False by blast
  qed
  then show "view_part name s = Map.empty" by blast
  show "pending_part name s = {}" using assms(2,3) by (auto simp: pending_part_def)
qed

lemma load_manifests_alone:
  assumes "all_loaded ws (load_cluster cv s) ds s" "sys_ok s" "cv \<noteq> None \<or> im_mode (sy_mgr s) = Single"
    and "\<forall>m \<in> set ms. manifest_ok m" "distinct (map index_name_of ms)" "index_name_of ` set ms \<inter> index_name_of ` ds = {}"
  shows "\<exists>s'. load_manifests ws cv ms s =
      Ret (s', sum_list (map (goal_total ws (load_cluster cv s)) ms), sum_list (map (goal_success ws (load_cluster cv s)) ms), 0) \<and>
    sys_ok s' \<and> all_loaded ws (load_cluster cv s) (ds \<union> set ms) s' \<and> im_mode (sy_mgr s') = im_mode (sy_mgr s) \<and>
    (\<forall>k. sm_load (im_manifests (sy_mgr s')) k =
       (case map_of (map (\<lambda>m. (index_name_of m, m)) ms) k of None \<Rightarrow> sm_load (im_manifests (sy_mgr s)) k | Some m \<Rightarrow> Some m))"
  using assms
proof (induction ms arbitrary: s ds)
  case Nil
  then show ?case by simp
next
  case (Cons m ms)
  let ?cv = "load_cluster cv s"
  have "index_name_of m \<notin> index_name_of ` ds" using Cons.prems(6) by auto
  with part_untouched [of s ds] Cons.prems(1) have u: "view_part (index_name_of m) s = Map.empty" "pending_part (index_name_of m) s = {}"
    by (auto simp: all_loaded_def)
  have "manifest_ok m" using Cons.prems(4) by simp
  from load_index_alone [OF Cons.prems(2) this Cons.prems(3) u, of ws] obtain s1 t n where
    1: "load_index ws cv m s = Ret (s1, t, n, None)" "sys_ok s1" "loaded_alone ws ?cv m s s1 t n" by blast
  have md: "im_mode (sy_mgr s1) = im_mode (sy_mgr s)" "load_cluster cv s1 = ?cv"
    using 1(3) by (simp_all add: loaded_alone_def load_cluster_def)
  have goal: "goal_total ws ?cv m = t" "goal_success ws ?cv m = n" "view_part (index_name_of m) s1 = fst (load_goal ws ?cv m)"
    "pending_part (index_name_of m) s1 = fst (snd (load_goal ws ?cv m))"
    using 1(3) by (auto simp: loaded_alone_def load_part_def goal_total_def goal_success_def dest: sym)
  have a: "all_loaded ws (load_cluster cv s1) (insert m ds) s1"
    unfolding all_loaded_def md(2)
  proof (intro conjI ballI allI impI)
    fix m' assume "m' \<in> insert m ds"
    with \<open>index_name_of m \<notin> index_name_of ` ds\<close> consider "m' = m" | "m' \<in> ds" "index_name_of m' \<noteq> index_name_of m"
      by (metis imageI insertE)
    then show "view_part (index_name_of m') s1 = fst (load_goal ws ?cv m')" "pending_part (index_name_of m') s1 = fst (snd (load_goal ws ?cv m'))"
      using goal 1(3) Cons.prems(1) by (cases; simp add: loaded_alone_def all_loaded_def)+
  next
    fix k assume "loaded_view s1 k \<noteq> None"
    then have "loaded_view s k \<noteq> None \<or> k \<in> own_keys (index_name_of m)" using 1(3) unfolding loaded_alone_def by blast
    then show "\<exists>m \<in> insert m ds. k \<in> own_keys (index_name_of m)" using Cons.prems(1) by (auto simp: all_loaded_def)
  next
    fix sh assume "sh \<in> pending s1"
    then have "sh \<in> pending s \<or> sh_index_name sh = index_name_of m" using 1(3) by (simp add: loaded_alone_def)
    then show "\<exists>m \<in> insert m ds. sh_index_name sh = index_name_of m" using Cons.prems(1) by (auto simp: all_loaded_def)
  qed
  have "\<forall>m \<in> set ms. manifest_ok m" "distinct (map index_name_of ms)"
    "index_name_of ` set ms \<inter> index_name_of ` insert m ds = {}" "cv \<noteq> None \<or> im_mode (sy_mgr s1) = Single"
    using Cons.prems(3-6) md(1) by auto
  from Cons.IH [OF a 1(2) this(4,1-3)] obtain s' where
    2: "load_manifests ws cv ms s1 = Ret (s', sum_list (map (goal_total ws ?cv) ms), sum_list (map (goal_success ws ?cv) ms), 0)"
      "sys_ok s'" "all_loaded ws ?cv (insert m ds \<union> set ms) s'" "im_mode (sy_mgr s') = im_mode (sy_mgr s1)"
      "\<forall>k. sm_load (im_manifests (sy_mgr s')) k =
       (case map_of (map (\<lambda>m. (index_name_of m, m)) ms) k of None \<Rightarrow> sm_load (im_manifests (sy_mgr s1)) k | Some m \<Rightarrow> Some m)"
    unfolding md(2) by blast
  have "sm_load (im_manifests (sy_mgr s1)) = (sm_load (im_manifests (sy_mgr s)))(index_name_of m \<mapsto> m)"
    using 1(3) by (simp add: loaded_alone_def)
  moreover have "map_of (map (\<lambda>m. (index_name_of m, m)) ms) (index_name_of m) = None"
    using Cons.prems(5) by (auto simp: map_of_eq_None_iff image_image)
  ultimately have "sm_load (im_manifests (sy_mgr s')) k =
     (case map_of (map (\<lambda>m. (index_name_of m, m)) (m # ms)) k of None \<Rightarrow> sm_load (im_manifests (sy_mgr s)) k | Some m \<Rightarrow> Some m)" for k
    using 2(5) by (auto split: option.splits)
  with 1(1) 2(1-4) goal(1,2) md(1) show ?case by (simp add: insert_commute)
qed

section \<open>The loads at once\<close>

fun held_handles :: "load_pc \<Rightarrow> nat set" where
  "held_handles (LoadPut m sh ix shs t n) = index_owned ix"
| "held_handles _ = {}"

text \<open>Where a thread stands agrees with its part of the manager: the reference, run from here on, reaches its goal.\<close>

fun thread_at :: "(shard \<Rightarrow> world) \<Rightarrow> cluster_view option \<Rightarrow> index_manifest \<Rightarrow> load_pc \<Rightarrow> sys \<Rightarrow> bool" where
  "thread_at ws cv m (LoadStart m') s \<longleftrightarrow> m' = m \<and> load_part (index_name_of m) s 0 0 = (Map.empty, {}, 0, 0)"
| "thread_at ws cv m (LoadNext m' shs t n) s \<longleftrightarrow> m' = m \<and> (\<forall>sh \<in> set shs. sh_index_name sh = index_name_of m) \<and>
     ref_load ws cv m shs (load_part (index_name_of m) s t n) = load_goal ws cv m"
| "thread_at ws cv m (LoadMake m' sh shs t n) s \<longleftrightarrow> m' = m \<and> (\<forall>x \<in> set (sh # shs). sh_index_name x = index_name_of m) \<and>
     engine s (unique_shard_key sh) = None \<and>
     (case shard_outcome (ws sh) m sh of
        None \<Rightarrow> ref_load ws cv m shs (view_part (index_name_of m) s, insert sh (pending_part (index_name_of m) s), t, n)
      | Some v \<Rightarrow> ref_load ws cv m shs ((view_part (index_name_of m) s)(unique_shard_key sh \<mapsto> v), pending_part (index_name_of m) s, t, Suc n)) =
     load_goal ws cv m"
| "thread_at ws cv m (LoadPut m' sh ix shs t n) s \<longleftrightarrow> m' = m \<and> (\<forall>x \<in> set (sh # shs). sh_index_name x = index_name_of m) \<and>
     engine s (unique_shard_key sh) = None \<and> index_ok (sy_heap s) ix \<and> index_shard ix = sh \<and>
     (\<forall>k ix'. engine s k = Some ix' \<longrightarrow> index_owned ix' \<inter> index_owned ix = {}) \<and>
     ref_load ws cv m shs ((view_part (index_name_of m) s)(unique_shard_key sh \<mapsto> view_of (sy_heap s) ix), pending_part (index_name_of m) s, t, Suc n) =
     load_goal ws cv m"
| "thread_at ws cv m (LoadMark m' sh shs t n) s \<longleftrightarrow> m' = m \<and> (\<forall>x \<in> set (sh # shs). sh_index_name x = index_name_of m) \<and>
     ref_load ws cv m shs (view_part (index_name_of m) s, insert sh (pending_part (index_name_of m) s), t, n) = load_goal ws cv m"
| "thread_at ws cv m (LoadManifest m' t n) s \<longleftrightarrow> m' = m \<and> load_part (index_name_of m) s t n = load_goal ws cv m"
| "thread_at ws cv m (LoadTotal t n) s \<longleftrightarrow> load_part (index_name_of m) s t n = load_goal ws cv m \<and>
     sm_load (im_manifests (sy_mgr s)) (index_name_of m) = Some m"
| "thread_at ws cv m (LoadSuccess n) s \<longleftrightarrow> (\<exists>t. load_part (index_name_of m) s t n = load_goal ws cv m) \<and>
     sm_load (im_manifests (sy_mgr s)) (index_name_of m) = Some m"
| "thread_at ws cv m LoadDone s \<longleftrightarrow> (\<exists>t n. load_part (index_name_of m) s t n = load_goal ws cv m) \<and>
     sm_load (im_manifests (sy_mgr s)) (index_name_of m) = Some m"
| "thread_at ws cv m LoadFailed s \<longleftrightarrow> False"

text \<open>What a step of the thread of an index, standing at \<open>p\<close>, may change.\<close>

definition touches :: "string \<Rightarrow> load_pc \<Rightarrow> sys \<Rightarrow> sys \<Rightarrow> bool" where
  "touches name p s s' \<longleftrightarrow> ch_frame {} (sy_heap s) (sy_heap s') \<and> im_mode (sy_mgr s') = im_mode (sy_mgr s) \<and>
     (\<forall>k. k \<notin> own_keys name \<longrightarrow> engine s' k = engine s k) \<and>
     (\<forall>k ix. engine s' k = Some ix \<longrightarrow> engine s k = Some ix \<or> index_owned ix \<subseteq> held_handles p) \<and>
     (\<forall>sh. sh_index_name sh \<noteq> name \<longrightarrow> (sh \<in> pending s' \<longleftrightarrow> sh \<in> pending s)) \<and>
     (\<forall>k. k \<noteq> name \<longrightarrow> sm_load (im_manifests (sy_mgr s')) k = sm_load (im_manifests (sy_mgr s)) k)"

fun counted_total :: "nat \<Rightarrow> load_pc \<Rightarrow> nat" where
  "counted_total t (LoadSuccess n) = t"
| "counted_total t LoadDone = t"
| "counted_total t _ = 0"

fun counted_success :: "nat \<Rightarrow> load_pc \<Rightarrow> nat" where
  "counted_success n LoadDone = n"
| "counted_success n _ = 0"

text \<open>How many steps a thread has left, at most.\<close>

fun load_left :: "load_pc \<Rightarrow> nat" where
  "load_left (LoadStart m) = 3 * (nat (meta_shards (mf_meta m)) * nat (meta_replicas (mf_meta m))) + 5"
| "load_left (LoadNext m shs t n) = 3 * length shs + 4"
| "load_left (LoadMake m sh shs t n) = 3 * length shs + 6"
| "load_left (LoadPut m sh ix shs t n) = 3 * length shs + 5"
| "load_left (LoadMark m sh shs t n) = 3 * length shs + 5"
| "load_left (LoadManifest m t n) = 3"
| "load_left (LoadTotal t n) = 2"
| "load_left (LoadSuccess n) = 1"
| "load_left LoadFailed = 1"
| "load_left LoadDone = 0"

lemma load_left_done: "load_left p = 0 \<longleftrightarrow> p = LoadDone"
  by (cases p) auto

lemma touches_same [simp]: "ch_ok (sy_heap s) \<Longrightarrow> touches name p s s"
  by (simp add: touches_def)

lemma touched_parts:
  assumes "touches name p s s'" "store_ok (sy_heap s) (im_engine_store (sy_mgr s))" "name' \<noteq> name"
  shows "view_part name' s' = view_part name' s" "pending_part name' s' = pending_part name' s"
proof -
  have "loaded_view s' k = loaded_view s k" if "k \<in> own_keys name'" for k
  proof -
    have e: "engine s' k = engine s k"
      using assms(1,3) own_keys_disjoint [OF that, of name] by (auto simp: touches_def)
    have f: "ch_frame {} (sy_heap s) (sy_heap s')" using assms(1) by (simp add: touches_def)
    show ?thesis
      using view_of_frame [OF store_okD(3) [OF assms(2)] f] e by (cases "engine s k") (auto simp: loaded_view_def)
  qed
  then show "view_part name' s' = view_part name' s" by (auto simp: view_part_def restrict_map_def)
  show "pending_part name' s' = pending_part name' s" using assms(1,3) by (auto simp: pending_part_def touches_def)
qed

text \<open>A thread does not notice the steps of the others.\<close>

lemma thread_at_frame:
  assumes "thread_at ws cv m q s" "touches name p s s'" "store_ok (sy_heap s) (im_engine_store (sy_mgr s))"
    and "index_name_of m \<noteq> name" "held_handles q \<inter> held_handles p = {}"
  shows "thread_at ws cv m q s'"
proof -
  note parts = touched_parts [OF assms(2,3,4)]
  have lp: "load_part (index_name_of m) s' t n = load_part (index_name_of m) s t n" for t n
    by (simp add: load_part_def parts)
  have mf: "sm_load (im_manifests (sy_mgr s')) (index_name_of m) = sm_load (im_manifests (sy_mgr s)) (index_name_of m)"
    using assms(2,4) by (simp add: touches_def)
  have e: "engine s' (unique_shard_key sh) = engine s (unique_shard_key sh)" if "sh_index_name sh = index_name_of m" for sh
    using assms(2,4) that by (simp add: touches_def)
  show ?thesis
  proof (cases q)
    case (LoadPut m' sh ix shs t n)
    have f: "ch_frame {} (sy_heap s) (sy_heap s')" using assms(2) by (simp add: touches_def)
    have ok: "index_ok (sy_heap s) ix" using assms(1) LoadPut by simp
    have dis: "index_owned ix' \<inter> index_owned ix = {}" if "engine s' k = Some ix'" for k ix'
    proof -
      from that assms(2) have "engine s k = Some ix' \<or> index_owned ix' \<subseteq> held_handles p" unfolding touches_def by blast
      moreover have "\<forall>k ix'. engine s k = Some ix' \<longrightarrow> index_owned ix' \<inter> index_owned ix = {}" using assms(1) LoadPut by simp
      moreover have "index_owned ix \<inter> held_handles p = {}" using assms(5) LoadPut by simp
      ultimately show ?thesis by blast
    qed
    have "view_of (sy_heap s') ix = view_of (sy_heap s) ix" "index_ok (sy_heap s') ix"
      using view_of_frame [OF ok f] index_ok_frame [OF f ok] by auto
    with assms(1) LoadPut parts e [of sh] dis show ?thesis by auto
  qed (use assms(1) lp mf parts e in \<open>auto split: option.splits\<close>)
qed

text \<open>One step of a thread.\<close>

definition step_ok :: "(shard \<Rightarrow> world) \<Rightarrow> cluster_view option \<Rightarrow> index_manifest \<Rightarrow> load_pc \<Rightarrow> init_sys \<Rightarrow> load_pc \<Rightarrow> init_sys \<Rightarrow> bool" where
  "step_ok ws cv m p g p' g' \<longleftrightarrow>
     thread_at ws cv m p' (is_sys g') \<and> sys_ok (is_sys g') \<and> touches (index_name_of m) p (is_sys g) (is_sys g') \<and>
     is_failed g' = is_failed g \<and>
     is_total g' + counted_total (goal_total ws cv m) p = is_total g + counted_total (goal_total ws cv m) p' \<and>
     is_success g' + counted_success (goal_success ws cv m) p = is_success g + counted_success (goal_success ws cv m) p' \<and>
     (held_handles p' \<subseteq> held_handles p \<union> {i. ch_next (sy_heap (is_sys g)) \<le> i}) \<and> load_left p' \<le> load_left p - 1"

lemma goal_of_part:
  "load_part name s t n = load_goal ws cv m \<Longrightarrow> goal_total ws cv m = t \<and> goal_success ws cv m = n"
  by (auto simp: load_part_def goal_total_def goal_success_def dest: sym)

lemma load_part_manifest [simp]: "load_part name (store_manifest m s) t n = load_part name s t n"
  by (simp add: load_part_def view_part_def pending_part_def)

lemma sys_ok_manifest: "sys_ok s \<Longrightarrow> manifest_ok m \<Longrightarrow> sys_ok (store_manifest m s)"
  by (simp add: sys_ok_def manifests_ok_store)

lemma sys_ok_mark: "sys_ok s \<Longrightarrow> sys_ok (mark_shard_pending sh s)"
  by (simp add: sys_ok_def)

lemma step_start:
  assumes "thread_at ws cv m (LoadStart m) (is_sys g)" "sys_ok (is_sys g)" "manifest_ok m"
    and "cv0 \<noteq> None \<or> im_mode (sy_mgr (is_sys g)) = Single"
  shows "\<exists>p' g'. init_step ws cv0 (LoadStart m) g = Ret (p', g') \<and> step_ok ws cv m (LoadStart m) g p' g'"
proof -
  obtain shs where shs: "generate_shards m = Ret shs" using generate_Ret [OF assms(3)] by blast
  have "init_step ws cv0 (LoadStart m) g = Ret (LoadNext m shs 0 0, g)"
    using assms(4) by (auto simp: shs manifest_validate_def)
  moreover have "thread_at ws cv m (LoadNext m shs 0 0) (is_sys g)"
    using assms(1) generate_shards_Ret [OF shs] by (simp add: load_goal_def shs)
  moreover have "ch_ok (sy_heap (is_sys g))" using assms(2) by (auto simp: sys_ok_def store_ok_def)
  ultimately show ?thesis
    using assms(2) generate_shards_length [OF shs] by (auto simp: step_ok_def)
qed

lemma step_next:
  assumes "thread_at ws (load_cluster cv (is_sys g)) m (LoadNext m shs t n) (is_sys g)" "sys_ok (is_sys g)"
  shows "\<exists>p' g'. init_step ws cv (LoadNext m shs t n) g = Ret (p', g') \<and>
    step_ok ws (load_cluster cv (is_sys g)) m (LoadNext m shs t n) g p' g'"
proof -
  have ch: "ch_ok (sy_heap (is_sys g))" using assms(2) by (auto simp: sys_ok_def store_ok_def)
  show ?thesis
  proof (cases shs)
    case Nil
    with assms ch show ?thesis by (auto simp: step_ok_def)
  next
    case (Cons sh rest)
    let ?s = "is_sys g" and ?cv = "load_cluster cv (is_sys g)"
    have name: "sh_index_name sh = index_name_of m" using assms(1) Cons by simp
    have own: "view_part (index_name_of m) ?s (unique_shard_key sh) = None \<longleftrightarrow> engine ?s (unique_shard_key sh) = None"
      using name by (simp add: view_part_def loaded_view_None)
    show ?thesis
    proof (cases "engine ?s (unique_shard_key sh) \<noteq> None \<or> \<not> wanted ?cv sh")
      case True
      then have "thread_at ws ?cv m (LoadNext m rest t n) ?s"
        using assms(1) Cons own by (auto simp: load_part_def)
      with True Cons assms(2) ch show ?thesis by (auto simp: step_ok_def)
    next
      case False
      then have "thread_at ws ?cv m (LoadMake m sh rest (Suc t) n) ?s"
        using assms(1) Cons own by (auto simp: load_part_def split: option.splits)
      with False Cons assms(2) ch show ?thesis by (auto simp: step_ok_def)
    qed
  qed
qed

lemma step_make:
  assumes "thread_at ws cv m (LoadMake m sh shs t n) (is_sys g)" "sys_ok (is_sys g)" "manifest_ok m"
  shows "\<exists>p' g'. init_step ws cv0 (LoadMake m sh shs t n) g = Ret (p', g') \<and> step_ok ws cv m (LoadMake m sh shs t n) g p' g'"
proof -
  let ?s = "is_sys g"
  obtain h r where n: "new_index (ws sh) m sh (sy_heap ?s) = Ret (h, r)" using manifest_ok_index [OF assms(3)] by blast
  have st: "store_ok (sy_heap ?s) (im_engine_store (sy_mgr ?s))" using assms(2) by (simp add: sys_ok_def)
  note fr = new_index_heap [OF store_okD(1) [OF st] n]
  let ?s' = "?s\<lparr>sy_heap := h\<rparr>"
  let ?g' = "g\<lparr>is_sys := ?s'\<rparr>"
  have sys: "sys_ok ?s'" using store_ok_heap [OF st fr] assms(2) by (simp add: sys_ok_def)
  have touch: "touches (index_name_of m) p ?s ?s'" for p using fr by (simp add: touches_def)
  have parts: "view_part name ?s' = view_part name ?s" "pending_part name ?s' = pending_part name ?s" for name
    using loaded_view_heap [OF st fr] by (simp_all add: view_part_def pending_part_def)
  note out = new_index_outcome [OF n]
  show ?thesis
  proof (cases r)
    case (Inl e)
    have "init_step ws cv0 (LoadMake m sh shs t n) g = Ret (LoadMark m sh shs t n, ?g')" using n Inl by simp
    moreover have "thread_at ws cv m (LoadMark m sh shs t n) ?s'" using assms(1) out Inl parts by simp
    ultimately show ?thesis using sys touch by (auto simp: step_ok_def)
  next
    case (Inr ix)
    let ?ix = "cluster_callback (im_mode (sy_mgr ?s)) (index_name_of m) ix"
    note ok = new_index_ok [OF store_okD(1) [OF st] n [unfolded Inr]]
    have dis: "index_owned ix' \<inter> index_owned ix = {}" if "engine ?s k = Some ix'" for k ix'
      using owned_below [OF store_okD(3) [OF st that]] ok(2) by fastforce
    have "init_step ws cv0 (LoadMake m sh shs t n) g = Ret (LoadPut m sh ?ix shs t n, ?g')" using n Inr by simp
    moreover have "thread_at ws cv m (LoadPut m sh ?ix shs t n) ?s'" using assms(1) out Inr parts ok dis by simp
    moreover have "held_handles (LoadPut m sh ?ix shs t n) \<subseteq> {i. ch_next (sy_heap ?s) \<le> i}" using ok(2) by auto
    ultimately show ?thesis using sys touch by (auto simp: step_ok_def)
  qed
qed

lemma step_put:
  assumes "thread_at ws cv m (LoadPut m sh ix shs t n) (is_sys g)" "sys_ok (is_sys g)"
  shows "\<exists>p' g'. init_step ws cv0 (LoadPut m sh ix shs t n) g = Ret (p', g') \<and> step_ok ws cv m (LoadPut m sh ix shs t n) g p' g'"
proof -
  let ?s = "is_sys g" and ?k = "unique_shard_key sh"
  let ?s' = "store_index ?k ix (sy_heap ?s) ?s"
  have st: "store_ok (sy_heap ?s) (im_engine_store (sy_mgr ?s))" using assms(2) by (simp add: sys_ok_def)
  have ch: "ch_frame {} (sy_heap ?s) (sy_heap ?s)" "ch_frame (index_owned ix) (sy_heap ?s) (sy_heap ?s)"
    using store_okD(1) [OF st] by simp_all
  have name: "sh_index_name sh = index_name_of m" using assms(1) by simp
  have "store_ok (sy_heap ?s) (sm_store ?k ix (im_engine_store (sy_mgr ?s)))"
    by (rule store_ok_replace [OF st ch(2)]) (use assms(1) in auto)
  then have sys: "sys_ok ?s'" using assms(2) by (simp add: sys_ok_def store_index_def)
  have "loaded_view ?s' = (loaded_view ?s)(?k \<mapsto> view_of (sy_heap ?s) ix)" using loaded_view_store [OF st ch(1)] .
  then have "view_part (index_name_of m) ?s' = (view_part (index_name_of m) ?s)(?k \<mapsto> view_of (sy_heap ?s) ix)"
    "pending_part (index_name_of m) ?s' = pending_part (index_name_of m) ?s"
    using name by (auto simp: view_part_def pending_part_def store_index_def restrict_map_def fun_eq_iff)
  then have "thread_at ws cv m (LoadNext m shs t (Suc n)) ?s'" using assms(1) by (simp add: load_part_def)
  moreover have "touches (index_name_of m) (LoadPut m sh ix shs t n) ?s ?s'"
    using ch(1) name by (auto simp: touches_def store_index_def)
  ultimately show ?thesis using sys by (auto simp: step_ok_def)
qed

lemma init_step_thread:
  assumes "thread_at ws (load_cluster cv (is_sys g)) m p (is_sys g)" "sys_ok (is_sys g)" "manifest_ok m"
    and "cv \<noteq> None \<or> im_mode (sy_mgr (is_sys g)) = Single"
  shows "\<exists>p' g'. init_step ws cv p g = Ret (p', g') \<and> step_ok ws (load_cluster cv (is_sys g)) m p g p' g'"
proof -
  have ch: "ch_ok (sy_heap (is_sys g))" using assms(2) by (auto simp: sys_ok_def store_ok_def)
  show ?thesis
  proof (cases p)
    case (LoadStart m')
    with assms(1) have "m' = m" by simp
    with step_start [OF _ assms(2-4)] assms(1) LoadStart show ?thesis by blast
  next
    case (LoadNext m' shs t n)
    with assms(1) have "m' = m" by simp
    with step_next [OF _ assms(2)] assms(1) LoadNext show ?thesis by blast
  next
    case (LoadMake m' sh shs t n)
    with assms(1) have "m' = m" by simp
    with step_make [OF _ assms(2,3)] assms(1) LoadMake show ?thesis by blast
  next
    case (LoadPut m' sh ix shs t n)
    with assms(1) have "m' = m" by simp
    with step_put [OF _ assms(2)] assms(1) LoadPut show ?thesis by blast
  next
    case (LoadMark m' sh shs t n)
    let ?s' = "mark_shard_pending sh (is_sys g)"
    have m: "m' = m" "sh_index_name sh = index_name_of m" using assms(1) LoadMark by simp_all
    have "load_part (index_name_of m) ?s' t n = (view_part (index_name_of m) (is_sys g), insert sh (pending_part (index_name_of m) (is_sys g)), t, n)"
      using m(2) by (auto simp: load_part_def view_part_def pending_part_def)
    with LoadMark assms ch m show ?thesis by (auto simp: step_ok_def touches_def sys_ok_mark)
  next
    case (LoadManifest m' t n)
    with assms ch show ?thesis by (auto simp: step_ok_def touches_def sys_ok_manifest)
  next
    case (LoadTotal t n)
    with assms ch show ?thesis by (auto simp: step_ok_def dest: goal_of_part)
  next
    case (LoadSuccess n)
    with assms ch show ?thesis by (auto simp: step_ok_def dest: goal_of_part)
  qed (use assms ch in \<open>auto simp: step_ok_def\<close>)
qed

section \<open>All threads together\<close>

definition init_inv :: "(shard \<Rightarrow> world) \<Rightarrow> cluster_view option \<Rightarrow> index_manifest list \<Rightarrow> init_sys \<times> load_pc list \<Rightarrow> bool" where
  "init_inv ws cv ms x \<longleftrightarrow> (case x of (g, ps) \<Rightarrow>
     length ps = length ms \<and> sys_ok (is_sys g) \<and> is_failed g = 0 \<and> (cv \<noteq> None \<or> im_mode (sy_mgr (is_sys g)) = Single) \<and>
     (\<forall>i < length ms. thread_at ws (load_cluster cv (is_sys g)) (ms ! i) (ps ! i) (is_sys g)) \<and>
     (\<forall>i < length ms. \<forall>j < length ms. i \<noteq> j \<longrightarrow> held_handles (ps ! i) \<inter> held_handles (ps ! j) = {}) \<and>
     is_total g = (\<Sum>i<length ms. counted_total (goal_total ws (load_cluster cv (is_sys g)) (ms ! i)) (ps ! i)) \<and>
     is_success g = (\<Sum>i<length ms. counted_success (goal_success ws (load_cluster cv (is_sys g)) (ms ! i)) (ps ! i)) \<and>
     (\<forall>k. engine (is_sys g) k \<noteq> None \<longrightarrow> (\<exists>m \<in> set ms. k \<in> own_keys (index_name_of m))) \<and>
     (\<forall>sh \<in> pending (is_sys g). \<exists>m \<in> set ms. sh_index_name sh = index_name_of m) \<and>
     (\<forall>k. sm_load (im_manifests (sy_mgr (is_sys g))) k \<noteq> None \<longrightarrow> k \<in> index_name_of ` set ms))"

lemma sum_list_update_nat:
  fixes f :: "nat \<Rightarrow> 'a \<Rightarrow> nat"
  assumes "j < n" "length ps = n"
  shows "(\<Sum>i<n. f i (ps[j := p] ! i)) + f j (ps ! j) = (\<Sum>i<n. f i (ps ! i)) + f j p"
proof -
  have "(\<Sum>i<n. f i (ps[j := p] ! i)) = f j p + (\<Sum>i\<in>{..<n} - {j}. f i (ps ! i))"
    using assms by (subst sum.remove [of _ j]) (auto intro!: sum.cong)
  moreover have "(\<Sum>i<n. f i (ps ! i)) = f j (ps ! j) + (\<Sum>i\<in>{..<n} - {j}. f i (ps ! i))"
    using assms by (subst sum.remove [of _ j]) auto
  ultimately show ?thesis by simp
qed

lemma held_below: "thread_at ws cv m p s \<Longrightarrow> i \<in> held_handles p \<Longrightarrow> i < ch_next (sy_heap s)"
  by (cases p) (auto dest: owned_below)

lemma init_inv_step:
  assumes "init_inv ws cv ms (g, ps)" "\<forall>m \<in> set ms. manifest_ok m" "distinct (map index_name_of ms)" "j < length ps"
  shows "\<exists>p g'. init_step ws cv (ps ! j) g = Ret (p, g') \<and> init_inv ws cv ms (g', ps[j := p]) \<and>
    im_mode (sy_mgr (is_sys g')) = im_mode (sy_mgr (is_sys g)) \<and> load_left p \<le> load_left (ps ! j) - 1"
proof -
  let ?cv = "load_cluster cv (is_sys g)" and ?m = "ms ! j"
  have len: "length ps = length ms" "j < length ms" "?m \<in> set ms"
    using assms(1,4) by (auto simp: init_inv_def)
  have at: "thread_at ws ?cv (ms ! i) (ps ! i) (is_sys g)" if "i < length ms" for i
    using assms(1) that by (simp add: init_inv_def)
  have sys: "sys_ok (is_sys g)" and st: "store_ok (sy_heap (is_sys g)) (im_engine_store (sy_mgr (is_sys g)))"
    and md: "cv \<noteq> None \<or> im_mode (sy_mgr (is_sys g)) = Single"
    using assms(1) by (simp_all add: init_inv_def sys_ok_def)
  have "manifest_ok ?m" using assms(2) len by simp
  from init_step_thread [OF at [OF len(2)] sys this md] obtain p g' where
    p: "init_step ws cv (ps ! j) g = Ret (p, g')" "step_ok ws ?cv ?m (ps ! j) g p g'" by blast
  from p(2) have s: "thread_at ws ?cv ?m p (is_sys g')" "sys_ok (is_sys g')" "touches (index_name_of ?m) (ps ! j) (is_sys g) (is_sys g')"
    "is_failed g' = is_failed g" "held_handles p \<subseteq> held_handles (ps ! j) \<union> {i. ch_next (sy_heap (is_sys g)) \<le> i}"
    by (simp_all add: step_ok_def)
  have mode: "im_mode (sy_mgr (is_sys g')) = im_mode (sy_mgr (is_sys g))" using s(3) by (simp add: touches_def)
  then have cv: "load_cluster cv (is_sys g') = ?cv" by (simp add: load_cluster_def)
  have dis: "held_handles (ps ! i) \<inter> held_handles (ps ! k) = {}" if "i < length ms" "k < length ms" "i \<noteq> k" for i k
    using assms(1) that by (simp add: init_inv_def)
  have other: "thread_at ws ?cv (ms ! i) (ps ! i) (is_sys g')" if "i < length ms" "i \<noteq> j" for i
  proof (rule thread_at_frame [OF at [OF that(1)] s(3) st _ dis [OF that(1) len(2) that(2)]])
    show "index_name_of (ms ! i) \<noteq> index_name_of ?m"
      using assms(3) that len(2) nth_eq_iff_index_eq [OF assms(3), of i j] by simp
  qed
  have held: "held_handles (ps ! i) \<inter> held_handles p = {}" if "i < length ms" "i \<noteq> j" for i
    using s(5) dis [OF that(1) len(2) that(2)] held_below [OF at [OF that(1)]] by fastforce
  have "init_inv ws cv ms (g', ps[j := p])"
    unfolding init_inv_def prod.case cv
  proof (intro conjI allI impI ballI)
    show "length (ps[j := p]) = length ms" "sys_ok (is_sys g')" using len s(2) by simp_all
    show "is_failed g' = 0" "cv \<noteq> None \<or> im_mode (sy_mgr (is_sys g')) = Single"
      using assms(1) s(4) mode by (simp_all add: init_inv_def)
    show "thread_at ws ?cv (ms ! i) (ps[j := p] ! i) (is_sys g')" if "i < length ms" for i
      using that other s(1) len by (cases "i = j") simp_all
    show "held_handles (ps[j := p] ! i) \<inter> held_handles (ps[j := p] ! k) = {}" if "i < length ms" "k < length ms" "i \<noteq> k" for i k
      using that dis held len by (cases "i = j"; cases "k = j") (auto simp: Int_commute)
    have "is_total g = (\<Sum>i<length ms. counted_total (goal_total ws ?cv (ms ! i)) (ps ! i))"
      "is_success g = (\<Sum>i<length ms. counted_success (goal_success ws ?cv (ms ! i)) (ps ! i))"
      using assms(1) by (simp_all add: init_inv_def)
    with p(2) sum_list_update_nat [OF len(2,1), of "\<lambda>i. counted_total (goal_total ws ?cv (ms ! i))" p]
      sum_list_update_nat [OF len(2,1), of "\<lambda>i. counted_success (goal_success ws ?cv (ms ! i))" p]
    show "is_total g' = (\<Sum>i<length ms. counted_total (goal_total ws ?cv (ms ! i)) (ps[j := p] ! i))"
      "is_success g' = (\<Sum>i<length ms. counted_success (goal_success ws ?cv (ms ! i)) (ps[j := p] ! i))"
      by (simp_all add: step_ok_def)
    show "\<exists>m \<in> set ms. k \<in> own_keys (index_name_of m)" if "engine (is_sys g') k \<noteq> None" for k
    proof (cases "k \<in> own_keys (index_name_of ?m)")
      case False
      then have "engine (is_sys g) k \<noteq> None" using that s(3) by (simp add: touches_def)
      with assms(1) show ?thesis by (simp add: init_inv_def)
    qed (use len in blast)
    show "\<exists>m \<in> set ms. sh_index_name sh = index_name_of m" if "sh \<in> pending (is_sys g')" for sh
    proof (cases "sh_index_name sh = index_name_of ?m")
      case False
      then have "sh \<in> pending (is_sys g)" using that s(3) by (simp add: touches_def)
      with assms(1) show ?thesis by (simp add: init_inv_def)
    qed (use len in blast)
    show "k \<in> index_name_of ` set ms" if "sm_load (im_manifests (sy_mgr (is_sys g'))) k \<noteq> None" for k
    proof (cases "k = index_name_of ?m")
      case False
      then have "sm_load (im_manifests (sy_mgr (is_sys g))) k \<noteq> None" using that s(3) by (simp add: touches_def)
      with assms(1) show ?thesis by (simp add: init_inv_def)
    qed (use len in blast)
  qed
  with p mode show ?thesis by (auto simp: step_ok_def)
qed

lemma init_inv_start:
  assumes "ch_ok (sy_heap s)" "cv \<noteq> None \<or> md = Single"
  shows "init_inv ws cv ms (init_start md s, map LoadStart ms)"
  using assms
  by (auto simp: init_inv_def init_start_def sys_ok_def store_ok_def manifests_ok_def new_index_manager_def load_part_def
      view_part_def pending_part_def loaded_view_def restrict_map_def fun_eq_iff)

lemma run_init_inv:
  assumes "init_inv ws cv ms (g, ps)" "\<forall>m \<in> set ms. manifest_ok m" "distinct (map index_name_of ms)"
  shows "\<exists>g' ps'. run_init ws cv sched (g, ps) = Ret (g', ps') \<and> init_inv ws cv ms (g', ps') \<and>
    im_mode (sy_mgr (is_sys g')) = im_mode (sy_mgr (is_sys g)) \<and>
    (\<forall>i < length ps. load_left (ps' ! i) \<le> load_left (ps ! i) - count_list sched i)"
  using assms(1)
proof (induction sched arbitrary: g ps)
  case Nil
  then show ?case by simp
next
  case (Cons j sched)
  show ?case
  proof (cases "j < length ps")
    case True
    from init_inv_step [OF Cons.prems assms(2,3) True] obtain p g1 where
      1: "init_step ws cv (ps ! j) g = Ret (p, g1)" "init_inv ws cv ms (g1, ps[j := p])"
        "im_mode (sy_mgr (is_sys g1)) = im_mode (sy_mgr (is_sys g))" "load_left p \<le> load_left (ps ! j) - 1" by blast
    from Cons.IH [OF 1(2)] obtain g' ps' where
      2: "run_init ws cv sched (g1, ps[j := p]) = Ret (g', ps')" "init_inv ws cv ms (g', ps')"
        "im_mode (sy_mgr (is_sys g')) = im_mode (sy_mgr (is_sys g1))"
        "\<forall>i < length (ps[j := p]). load_left (ps' ! i) \<le> load_left (ps[j := p] ! i) - count_list sched i" by blast
    have "load_left (ps' ! i) \<le> load_left (ps ! i) - count_list (j # sched) i" if "i < length ps" for i
      using 2(4) that 1(4) by (cases "i = j") (auto dest!: spec [of _ i])
    with 1 2(1-3) True show ?thesis by auto
  next
    case False
    from Cons.IH [OF Cons.prems] obtain g' ps' where
      "run_init ws cv sched (g, ps) = Ret (g', ps')" "init_inv ws cv ms (g', ps')"
      "im_mode (sy_mgr (is_sys g')) = im_mode (sy_mgr (is_sys g))"
      "\<forall>i < length ps. load_left (ps' ! i) \<le> load_left (ps ! i) - count_list sched i" by blast
    with False show ?thesis by auto
  qed
qed


section \<open>The end of InitManager\<close>

lemma init_inv_goals:
  assumes "init_inv ws cv ms (g, ps)" "\<forall>i < length ms. ps ! i = LoadDone" "m \<in> set ms"
  shows "view_part (index_name_of m) (is_sys g) = fst (load_goal ws (load_cluster cv (is_sys g)) m)"
    and "pending_part (index_name_of m) (is_sys g) = fst (snd (load_goal ws (load_cluster cv (is_sys g)) m))"
    and "sm_load (im_manifests (sy_mgr (is_sys g))) (index_name_of m) = Some m"
proof -
  from assms(3) obtain i where i: "i < length ms" "ms ! i = m" by (auto simp: in_set_conv_nth)
  have "thread_at ws (load_cluster cv (is_sys g)) (ms ! i) (ps ! i) (is_sys g)" using assms(1) i(1) by (simp add: init_inv_def)
  then have "\<exists>t n. load_part (index_name_of m) (is_sys g) t n = load_goal ws (load_cluster cv (is_sys g)) m"
    "sm_load (im_manifests (sy_mgr (is_sys g))) (index_name_of m) = Some m"
    using assms(2) i by simp_all
  then show "view_part (index_name_of m) (is_sys g) = fst (load_goal ws (load_cluster cv (is_sys g)) m)"
    "pending_part (index_name_of m) (is_sys g) = fst (snd (load_goal ws (load_cluster cv (is_sys g)) m))"
    "sm_load (im_manifests (sy_mgr (is_sys g))) (index_name_of m) = Some m"
    by (auto simp: load_part_def dest: sym)
qed

lemma init_inv_all_loaded:
  assumes "init_inv ws cv ms (g, ps)" "\<forall>i < length ms. ps ! i = LoadDone"
  shows "all_loaded ws (load_cluster cv (is_sys g)) (set ms) (is_sys g)"
  using init_inv_goals [OF assms] assms(1) by (auto simp: all_loaded_def init_inv_def loaded_view_None)

text \<open>The parts of the indexes and nothing besides determine what is loaded and pending.\<close>

lemma all_loaded_unique:
  assumes "all_loaded ws cv ms s" "all_loaded ws cv ms s'"
  shows "loaded_view s = loaded_view s'" "pending s = pending s'"
proof -
  have part: "view_part (index_name_of m) s = view_part (index_name_of m) s'"
    "pending_part (index_name_of m) s = pending_part (index_name_of m) s'" if "m \<in> ms" for m
    using assms that by (simp_all add: all_loaded_def)
  have "loaded_view s k = loaded_view s' k" for k
  proof (cases "\<exists>m \<in> ms. k \<in> own_keys (index_name_of m)")
    case True
    then obtain m where "m \<in> ms" "k \<in> own_keys (index_name_of m)" by blast
    with fun_cong [OF part(1), of m k] show ?thesis by (simp add: view_part_def)
  next
    case False
    with assms have "loaded_view s k = None" "loaded_view s' k = None" unfolding all_loaded_def by blast+
    then show ?thesis by simp
  qed
  then show "loaded_view s = loaded_view s'" by blast
  have "sh \<in> pending s \<longleftrightarrow> sh \<in> pending s'" for sh
  proof (cases "\<exists>m \<in> ms. sh_index_name sh = index_name_of m")
    case True
    then obtain m where "m \<in> ms" "sh_index_name sh = index_name_of m" by blast
    with part(2) [of m] show ?thesis by (auto simp: pending_part_def)
  next
    case False
    with assms show ?thesis unfolding all_loaded_def by blast
  qed
  then show "pending s = pending s'" by blast
qed

lemma map_of_names:
  assumes "distinct (map index_name_of ms)" "m \<in> set ms"
  shows "map_of (map (\<lambda>m. (index_name_of m, m)) ms) (index_name_of m) = Some m"
  using assms by (intro map_of_is_SomeI) (auto simp: comp_def)

lemma init_inv_manifests:
  assumes "init_inv ws cv ms (g, ps)" "\<forall>i < length ms. ps ! i = LoadDone" "distinct (map index_name_of ms)"
  shows "sm_load (im_manifests (sy_mgr (is_sys g))) k = map_of (map (\<lambda>m. (index_name_of m, m)) ms) k"
proof (cases "k \<in> index_name_of ` set ms")
  case True
  then show ?thesis using init_inv_goals(3) [OF assms(1,2)] map_of_names [OF assms(3)] by auto
next
  case False
  then have "map_of (map (\<lambda>m. (index_name_of m, m)) ms) k = None" by (auto simp: map_of_eq_None_iff image_image)
  moreover have "sm_load (im_manifests (sy_mgr (is_sys g))) k = None"
    using assms(1) False by (auto simp: init_inv_def)
  ultimately show ?thesis by simp
qed

lemma init_inv_counts:
  assumes "init_inv ws cv ms (g, ps)" "\<forall>i < length ms. ps ! i = LoadDone"
  shows "is_total g = sum_list (map (goal_total ws (load_cluster cv (is_sys g))) ms)"
    and "is_success g = sum_list (map (goal_success ws (load_cluster cv (is_sys g))) ms)" "is_failed g = 0"
  using assms by (simp_all add: init_inv_def sum_list_sum_nth atLeast0LessThan)

text \<open>C11: The order of the loads does not matter.  \<open>InitManager\<close> starts one goroutine per manifest; with sound manifests
  of distinct names, however their steps interleave, no step faults, and once every goroutine has had its steps, at most
  five and three for each replica of each shard, all have returned.  The shards loaded then, with revision and data, the
  shards pending, the manifests and the result of \<open>InitManager\<close> are those of the loads one after another: no goroutine
  loads, overwrites or miscounts a shard of another.\<close>

theorem concurrent_load_is_sequential:
  assumes "ch_ok (sy_heap s)" "cv \<noteq> None \<or> md = Single"
    and "\<forall>m \<in> set (List.map_filter decode vs). manifest_ok m"
    and "distinct (map (\<lambda>m. meta_name (mf_meta m)) (List.map_filter decode vs))"
    and "\<forall>i < length (List.map_filter decode vs). load_left (LoadStart (List.map_filter decode vs ! i)) \<le> count_list sched i"
  shows "\<exists>g ps s'. run_init ws cv sched (init_start md s, map LoadStart (List.map_filter decode vs)) = Ret (g, ps) \<and>
    (\<forall>p \<in> set ps. p = LoadDone) \<and> sys_ok (is_sys g) \<and>
    init_manager ws decode cv md (Inr vs) s = Ret (s', init_result (is_total g) (is_success g) (is_failed g)) \<and>
    loaded_view (is_sys g) = loaded_view s' \<and> pending (is_sys g) = pending s' \<and>
    (\<forall>name. sm_load (im_manifests (sy_mgr (is_sys g))) name = sm_load (im_manifests (sy_mgr s')) name)"
proof -
  let ?ms = "List.map_filter decode vs" and ?s0 = "s\<lparr>sy_mgr := new_index_manager md\<rparr>"
  have start: "is_sys (init_start md s) = ?s0" by (simp add: init_start_def)
  from run_init_inv [OF init_inv_start [OF assms(1,2)] assms(3,4)] obtain g ps where
    run: "run_init ws cv sched (init_start md s, map LoadStart ?ms) = Ret (g, ps)" and inv: "init_inv ws cv ?ms (g, ps)"
    and mode: "im_mode (sy_mgr (is_sys g)) = im_mode (sy_mgr (is_sys (init_start md s)))"
    and left: "\<forall>i < length (map LoadStart ?ms). load_left (ps ! i) \<le> load_left (map LoadStart ?ms ! i) - count_list sched i"
    by blast
  have finished: "\<forall>i < length ?ms. ps ! i = LoadDone"
  proof (intro allI impI)
    fix i assume i: "i < length ?ms"
    then have "load_left (ps ! i) \<le> load_left (LoadStart (?ms ! i)) - count_list sched i" using left by simp
    also have "\<dots> = 0" using assms(5) i by (simp only: diff_is_0_eq)
    finally show "ps ! i = LoadDone" using load_left_done by simp
  qed
  have len: "length ps = length ?ms" and ok: "sys_ok (is_sys g)" using inv by (simp_all add: init_inv_def)
  have cl: "load_cluster cv (is_sys g) = load_cluster cv ?s0" using mode start by (simp add: load_cluster_def)
  have "all_loaded ws (load_cluster cv ?s0) {} ?s0" "sys_ok ?s0" "cv \<noteq> None \<or> im_mode (sy_mgr ?s0) = Single"
    using init_inv_start [OF assms(1,2), of ws "[]"] start by (auto simp: init_inv_def all_loaded_def loaded_view_None)
  from load_manifests_alone [OF this assms(3,4)] obtain s' where
    seq: "load_manifests ws cv ?ms ?s0 =
        Ret (s', sum_list (map (goal_total ws (load_cluster cv ?s0)) ?ms), sum_list (map (goal_success ws (load_cluster cv ?s0)) ?ms), 0)"
      "all_loaded ws (load_cluster cv ?s0) (set ?ms) s'"
      "\<forall>k. sm_load (im_manifests (sy_mgr s')) k = (case map_of (map (\<lambda>m. (index_name_of m, m)) ?ms) k of
         None \<Rightarrow> sm_load (im_manifests (sy_mgr ?s0)) k | Some m \<Rightarrow> Some m)"
    by auto
  have "init_manager ws decode cv md (Inr vs) s = Ret (s', init_result (is_total g) (is_success g) (is_failed g))"
    using seq(1) init_inv_counts [OF inv finished] cl by (simp add: init_manager_def)
  moreover have "loaded_view (is_sys g) = loaded_view s'" "pending (is_sys g) = pending s'"
    using all_loaded_unique [OF _ seq(2)] init_inv_all_loaded [OF inv finished] cl by auto
  moreover have "sm_load (im_manifests (sy_mgr (is_sys g))) name = sm_load (im_manifests (sy_mgr s')) name" for name
    using seq(3) init_inv_manifests [OF inv finished assms(4)]
    by (simp add: new_index_manager_def split: option.splits)
  moreover have "\<forall>p \<in> set ps. p = LoadDone" using finished len by (auto simp: in_set_conv_nth)
  ultimately show ?thesis using run ok by blast
qed

section \<open>An example\<close>

text \<open>Two indexes of two shards each, loaded with the steps of the two goroutines taken alternately.\<close>

definition ex_two :: "index_manifest list" where
  "ex_two = [ex_mock_manifest, ex_mock_manifest\<lparr>mf_meta := (mf_meta ex_mock_manifest)\<lparr>meta_name := ''news''\<rparr>\<rparr>]"

definition ex_turns :: "nat list" where
  "ex_turns = concat (replicate 20 [0, 1])"


lemma ex_two_ok: "\<forall>m \<in> set ex_two. manifest_ok m" "distinct (map (\<lambda>m. meta_name (mf_meta m)) ex_two)"
  by (auto simp: ex_two_def manifest_ok_def ex_mock_manifest_def wrap32_def)

lemma ex_turns_enough: "i < 2 \<Longrightarrow> load_left (LoadStart (ex_two ! i)) \<le> count_list ex_turns i"
  by (auto simp: less_2_cases_iff ex_two_def ex_mock_manifest_def ex_turns_def eval_nat_numeral)

theorem concurrent_load_is_sequential_witness:
  "\<exists>g ps s'. run_init (\<lambda>sh. ex_world ''5'') (Some (ex_view True)) ex_turns (init_start ClusterMode (ex_sys Single [] []), map LoadStart ex_two) =
       Ret (g, ps) \<and> (\<forall>p \<in> set ps. p = LoadDone) \<and>
     init_manager (\<lambda>sh. ex_world ''5'') Some (Some (ex_view True)) ClusterMode (Inr ex_two) (ex_sys Single [] []) =
       Ret (s', init_result (is_total g) (is_success g) (is_failed g)) \<and> loaded_view (is_sys g) = loaded_view s'"
proof -
  have ms: "List.map_filter Some ex_two = ex_two" by (simp add: ex_two_def map_filter_simps)
  have "ch_ok (sy_heap (ex_sys Single [] []))" by (simp add: ex_sys_def ch_ok_def empty_heap_def ch_handles_def)
  moreover have "\<forall>i < length ex_two. load_left (LoadStart (ex_two ! i)) \<le> count_list ex_turns i"
    using ex_turns_enough by (simp add: ex_two_def)
  ultimately show ?thesis
    using concurrent_load_is_sequential [of "ex_sys Single [] []" "Some (ex_view True)" ClusterMode Some ex_two ex_turns "\<lambda>sh. ex_world ''5''"]
      ex_two_ok unfolding ms by fast
qed

end
