(* ===== verification/Load_Races.thy ===== *)
theory Load_Races
  imports Init_Threads Cluster_Runs
begin

text \<open>
  A load of an index and a rebalance at once: \<open>loadIndex\<close>, called by \<open>InitManager\<close> and by the manifest watch, and
  \<open>Rebalance\<close>, called by the watch of the members, both of \<open>internal/engine/manager.go\<close>, run in goroutines of their own.  The hook
  is set before the first load, and a load makes its manifest known only at its end.
\<close>

section \<open>Loads and rebalances\<close>

text \<open>The threads of \<open>Init_Threads\<close>, with rebalances in between; every act sees the ring as it is then.\<close>

datatype load_act = LoadTurn nat | RebalanceTurn

fun load_act_step :: "(shard \<Rightarrow> world) \<Rightarrow> cluster_view \<Rightarrow> load_act \<Rightarrow> init_sys \<times> load_pc list \<Rightarrow> (init_sys \<times> load_pc list) run" where
  "load_act_step ws cv (LoadTurn i) x = run_init ws (Some cv) [i] x"
| "load_act_step ws cv RebalanceTurn (g, ps) = run_map (\<lambda>s'. (g\<lparr>is_sys := s'\<rparr>, ps)) (rebalance ws cv (is_sys g))"

fun run_load_acts :: "(shard \<Rightarrow> world) \<Rightarrow> (cluster_view \<times> load_act) list \<Rightarrow> init_sys \<times> load_pc list \<Rightarrow> (init_sys \<times> load_pc list) run" where
  "run_load_acts ws [] x = Ret x"
| "run_load_acts ws ((cv, a) # as) x = run_bind (load_act_step ws cv a x) (run_load_acts ws as)"

lemma run_load_acts_append:
  "run_load_acts ws (as @ bs) x = run_bind (run_load_acts ws as x) (run_load_acts ws bs)"
proof (induction as arbitrary: x)
  case (Cons ca as)
  then show ?case by (cases ca; cases "load_act_step ws (fst ca) (snd ca) x") simp_all
qed simp

section \<open>What a rebalance leaves alone\<close>

lemma rebalance_pending:
  assumes "sys_ok s" "rebalance ws cv s = Ret s'" "sh \<in> pending s'"
  shows "sh \<in> pending s \<or> (\<exists>name m. sm_load (im_manifests (sy_mgr s)) name = Some m \<and> sh \<in> set (unique_shards m))"
proof -
  let ?s1 = "clear_pending cv (put_status Rebalancing s)" and ?ms = "im_manifests (sy_mgr s)"
  have ok: "store_ok (sy_heap ?s1) (im_engine_store (sy_mgr ?s1))" "manifests_ok ?ms"
    using assms(1) by (simp_all add: sys_ok_def)
  from rebalance_manifests_ok [OF ok(1) manifests_ok_names(1) [OF ok(2)] manifests_ok_names(2) [OF ok(2)], of ws cv]
  obtain s2 where 2: "run_fold (rebalance_manifest ws cv) ?ms ?s1 = Ret s2"
    "pending s2 \<subseteq> pending ?s1 \<union> (\<Union>km \<in> set ?ms. set (unique_shards (snd km)))" by blast
  then have "pending s' = pending s2"
    using assms(2) by (auto simp: rebalance_def Let_def notify_listeners_def)
  with 2(2) assms(3) consider "sh \<in> pending s" | km where "km \<in> set ?ms" "sh \<in> set (unique_shards (snd km))" by auto
  then show ?thesis using manifests_ok_names(3) [OF ok(2)] by cases blast+
qed

text \<open>The shards of an index that is not known are neither loaded nor unloaded nor marked.\<close>

lemma rebalance_unknown:
  assumes "sys_ok s" "manifest_ok m" "sm_load (im_manifests (sy_mgr s)) (index_name_of m) = None" "u \<in> set (unique_shards m)"
    and "rebalance ws cv s = Ret s'"
  shows "engine s' (unique_shard_key u) = engine s (unique_shard_key u)"
    and "pending_key s' (unique_shard_key u) \<Longrightarrow> pending_key s (unique_shard_key u)"
proof -
  have other: "unique_shard_key v \<noteq> unique_shard_key u"
    if "sm_load (im_manifests (sy_mgr s)) name = Some m'" "v \<in> set (unique_shards m')" for name m' v
  proof
    assume "unique_shard_key v = unique_shard_key u"
    from key_manifest(1) [OF assms(1) that this] unique_shards_name [OF assms(2,4)] assms(3) that(1) show False by simp
  qed
  from rebalance_ok [OF assms(1), of ws cv] assms(5)
  have "\<forall>k. (\<forall>name m. sm_load (im_manifests (sy_mgr s)) name = Some m \<longrightarrow>
      k \<notin> unique_shard_key ` set (unique_shards m)) \<longrightarrow> engine s' k = engine s k" by auto
  then show "engine s' (unique_shard_key u) = engine s (unique_shard_key u)" using other by (metis imageE)
  show "pending_key s (unique_shard_key u)" if "pending_key s' (unique_shard_key u)"
    using that rebalance_pending [OF assms(1,5)] other unfolding pending_key_def by metis
qed

section \<open>A load that wants nothing\<close>

lemma not_wanted:
  assumes "generate_shards m = Ret shs" "manifest_ok m" "\<forall>u \<in> set (unique_shards m). \<not> needs_shard cv m u" "sh \<in> set shs"
  shows "\<not> cv_need_load cv (shard_key sh)"
proof
  assume need: "cv_need_load cv (shard_key sh)"
  have eta: "\<lparr>sh_index_name = sh_index_name sh, sh_shard_id = sh_shard_id sh, sh_replica_id = sh_replica_id sh\<rparr> = sh"
    by (cases sh) simp
  have "sh_replica_id sh \<in> {0..<meta_replicas (mf_meta m)}" using generate_shards_Ret [OF assms(1)] assms(4) by simp
  then have "needs_shard cv m (sh\<lparr>sh_replica_id := 0\<rparr>)"
    unfolding needs_shard_def by (rule bexI [rotated]) (simp add: need eta)
  with shard_home(1) [OF assms(1,2,4)] assms(3) show False by blast
qed

lemma run_skipped:
  assumes "\<forall>sh \<in> set shs. \<not> cv_need_load cv (shard_key sh)" "im_mode (sy_mgr (is_sys g)) = ClusterMode"
  shows "run_load_acts ws (replicate (length shs) (cv, LoadTurn 0)) (g, [LoadNext m shs t n]) = Ret (g, [LoadNext m [] t n])"
  using assms(1)
proof (induction shs)
  case (Cons sh shs)
  then have "\<not> wanted (load_cluster (Some cv) (is_sys g)) sh" using assms(2) by (simp add: load_cluster_def wanted_def)
  with Cons show ?case by simp
qed simp

section \<open>Properties\<close>

text \<open>C12: A change of the ring during a load is lost for the index.  When the ring gives the node no shard of an index, and while the load of
  the index is between its loop and its end the ring changes and the rebalance runs, then the load still ends without an
  error, the index is known, and none of its shards is loaded or pending, whatever the new ring gives the node: the
  rebalance does not see the manifest yet, and the load has already looked at the ring.  The node even calls itself healthy
  when nothing else is pending.\<close>

theorem rebalance_misses_loading_index:
  assumes "sys_ok s" "im_mode (sy_mgr s) = ClusterMode" "manifest_ok m"
    and "sm_load (im_manifests (sy_mgr s)) (meta_name (mf_meta m)) = None"
    and "\<forall>u \<in> set (unique_shards m). engine s (unique_shard_key u) = None \<and> \<not> pending_key s (unique_shard_key u)"
    and "\<forall>u \<in> set (unique_shards m). \<not> needs_shard cv m u"
  shows "\<exists>g. run_load_acts ws
      (replicate (nat (meta_shards (mf_meta m)) * nat (meta_replicas (mf_meta m)) + 2) (cv, LoadTurn 0) @
       (cv', RebalanceTurn) # replicate 3 (cv', LoadTurn 0))
      (\<lparr>is_sys = s, is_total = 0, is_success = 0, is_failed = 0\<rparr>, [LoadStart m]) = Ret (g, [LoadDone]) \<and>
    is_failed g = 0 \<and> sm_load (im_manifests (sy_mgr (is_sys g))) (meta_name (mf_meta m)) = Some m \<and>
    (\<forall>u \<in> set (unique_shards m). engine (is_sys g) (unique_shard_key u) = None \<and> \<not> pending_key (is_sys g) (unique_shard_key u)) \<and>
    get_status (sy_pkg (is_sys g)) = (if pending (is_sys g) = {} then Healthy else Unhealthy)"
proof -
  let ?g = "\<lparr>is_sys = s, is_total = 0, is_success = 0, is_failed = 0\<rparr> :: init_sys"
  obtain shs where shs: "generate_shards m = Ret shs" using generate_Ret [OF assms(3)] by blast
  have len: "nat (meta_shards (mf_meta m)) * nat (meta_replicas (mf_meta m)) + 2 = Suc (length shs + 1)"
    using generate_shards_length [OF shs] by simp
  have "run_load_acts ws (replicate (length shs) (cv, LoadTurn 0)) (?g, [LoadNext m shs 0 0]) = Ret (?g, [LoadNext m [] 0 0])"
    using run_skipped [of shs cv ?g] not_wanted [OF shs assms(3,6)] assms(2) by simp
  then have 1: "run_load_acts ws (replicate (Suc (length shs + 1)) (cv, LoadTurn 0)) (?g, [LoadStart m]) = Ret (?g, [LoadManifest m 0 0])"
    using shs by (simp only: replicate_Suc replicate_add run_load_acts.simps)
      (simp add: run_load_acts_append manifest_validate_def)
  obtain s1 where 2: "rebalance ws cv' s = Ret s1" "get_status (sy_pkg s1) = (if pending s1 = {} then Healthy else Unhealthy)"
    using rebalance_ok [OF assms(1), of ws cv'] by blast
  note un = rebalance_unknown [OF assms(1,3,4) _ 2(1)]
  let ?g' = "\<lparr>is_sys = store_manifest m s1, is_total = 0, is_success = 0, is_failed = 0\<rparr> :: init_sys"
  have 3: "run_load_acts ws ((cv', RebalanceTurn) # replicate 3 (cv', LoadTurn 0)) (?g, [LoadManifest m 0 0]) = Ret (?g', [LoadDone])"
    using 2(1) by (simp add: numeral_3_eq_3)
  have "pending_key (store_manifest m s1) k = pending_key s1 k" for k by (simp add: pending_key_def)
  moreover have "sy_pkg (store_manifest m s1) = sy_pkg s1" by (simp add: store_manifest_def)
  ultimately show ?thesis
    unfolding len run_load_acts_append 1 run_bind.simps 3
    using un assms(5) 2(2) by (intro exI [of _ ?g']) auto
qed

section \<open>Witness\<close>

text \<open>The ring gives nothing to the node, and then everything.\<close>

theorem rebalance_misses_loading_index_witness:
  "\<exists>g m s. run_load_acts (\<lambda>sh. ex_world ''5'')
      (replicate 6 (ex_view False, LoadTurn 0) @ (ex_view True, RebalanceTurn) # replicate 3 (ex_view True, LoadTurn 0))
      (\<lparr>is_sys = s, is_total = 0, is_success = 0, is_failed = 0\<rparr>, [LoadStart m]) = Ret (g, [LoadDone]) \<and>
    (\<forall>u \<in> set (unique_shards m). needs_shard (ex_view True) m u) \<and> unique_shards m \<noteq> [] \<and>
    (\<forall>u \<in> set (unique_shards m). engine (is_sys g) (unique_shard_key u) = None)"
proof -
  let ?s = "(ex_sys ClusterMode [] [])\<lparr>sy_mgr := new_index_manager ClusterMode\<rparr>" and ?m = ex_mock_manifest
  have ok: "sys_ok ?s" "im_mode (sy_mgr ?s) = ClusterMode" "sm_load (im_manifests (sy_mgr ?s)) (meta_name (mf_meta ?m)) = None"
    by (simp_all add: sys_ok_def store_ok_def manifests_ok_def new_index_manager_def ex_sys_def ch_ok_def empty_heap_def ch_handles_def)
  have none: "\<forall>u \<in> set (unique_shards ?m). engine ?s (unique_shard_key u) = None \<and> \<not> pending_key ?s (unique_shard_key u)"
    by (simp add: new_index_manager_def pending_key_def)
  have need: "\<forall>u \<in> set (unique_shards ?m). \<not> needs_shard (ex_view False) ?m u" "\<forall>u \<in> set (unique_shards ?m). needs_shard (ex_view True) ?m u"
    using ex_needs by simp_all
  have six: "nat (meta_shards (mf_meta ?m)) * nat (meta_replicas (mf_meta ?m)) + 2 = 6" by (simp add: ex_mock_manifest_def)
  have some: "unique_shards ?m \<noteq> []" by (simp add: ex_unique_shards)
  from rebalance_misses_loading_index [OF ok(1,2) ex_mock_manifest_ok ok(3) none need(1), of "\<lambda>sh. ex_world ''5''" "ex_view True"]
  show ?thesis unfolding six using need(2) some by blast
qed

end
