(* ===== verification/Reload_Linear.thy ===== *)
theory Reload_Linear
  imports Shard_Linear
begin

text \<open>
  The other way a shard is run: without the two-phase activation its callers search, query and reload at once.  \<open>Reload\<close>
  takes no mutex, only the flag \<open>reloading\<close>: what it read of the shard stays true because nobody else can swap the index while
  the flag is up.  The discipline satisfies the contract \<open>linearised\<close> with its own calls: a reload counts as the sequential one, or
  as the sequential one on a shard whose flag another reload has raised.
\<close>

section \<open>The discipline\<close>

fun single_mode :: "thread \<Rightarrow> bool" where
  "single_mode (Searching x k p) = True"
| "single_mode (Querying q p) = True"
| "single_mode (Reloading w w' p) = True"
| "single_mode (Returned r) = True"
| "single_mode _ = False"

fun single_serial :: "bool \<times> shard_call \<Rightarrow> shard_state \<Rightarrow> (shard_state \<times> call_result) run" where
  "single_serial (False, a) c = serial_call a c"
| "single_serial (True, a) (h, fx) =
     run_map (\<lambda>((h', fx'), r). ((h', fx'\<lparr>fx_reloading := False\<rparr>), r)) (serial_call a (h, fx\<lparr>fx_reloading := True\<rparr>))"

text \<open>A reload takes effect when it finds the flag up, when it fails, and when it swaps.\<close>

fun single_effect :: "thread \<Rightarrow> call_result option" where
  "single_effect (Reloading w w' ReloadRelease) = Some (ErrRes None)"
| "single_effect (Reloading w w' (ReloadClear res)) = Some (ErrRes res)"
| "single_effect t = outcome t"

fun single_calls :: "thread \<Rightarrow> (bool \<times> shard_call) set" where
  "single_calls (Reloading w w' p) = {(False, CallReload w w'), (True, CallReload w w')}"
| "single_calls t = {(False, call_of t)}"

text \<open>What a reload has seen and relies on until it swaps.\<close>

definition saw_update :: "world \<Rightarrow> world \<Rightarrow> string \<Rightarrow> int \<Rightarrow> error option \<Rightarrow> faiss_index \<Rightarrow> bool" where
  "saw_update w w' p r err fx \<longleftrightarrow> (\<exists>d. reads_source w d fx \<and> download_update w w' d (fx_revision fx) = (p, r, err))"

definition may_read :: "error option \<Rightarrow> bool" where
  "may_read err \<longleftrightarrow> (\<forall>e. err = Some e \<longrightarrow> err_is e ErrIndexRevisionUpToDate)"

definition saw_file :: "world \<Rightarrow> world \<Rightarrow> nat \<Rightarrow> int \<Rightarrow> shard_sys \<Rightarrow> bool" where
  "saw_file w w' i r s \<longleftrightarrow> (\<exists>p err fd. saw_update w w' p r err (sh_fx s) \<and> may_read err \<and> w_read_index w' p = Inr fd \<and>
     sh_data s (Some i) = Some fd)"

fun reload_sees :: "shard_sys \<Rightarrow> thread \<Rightarrow> bool" where
  "reload_sees s (Reloading w w' (ReloadRLock d)) = reads_source w d (sh_fx s)"
| "reload_sees s (Reloading w w' (ReloadDownload d)) = reads_source w d (sh_fx s)"
| "reload_sees s (Reloading w w' (ReloadRUnlock p r err)) = saw_update w w' p r err (sh_fx s)"
| "reload_sees s (Reloading w w' (ReloadCheck p r err)) = saw_update w w' p r err (sh_fx s)"
| "reload_sees s (Reloading w w' (ReloadReadFile p r)) = (\<exists>err. saw_update w w' p r err (sh_fx s) \<and> may_read err)"
| "reload_sees s (Reloading w w' (ReloadAnnounce i r)) = saw_file w w' i r s"
| "reload_sees s (Reloading w w' (ReloadWait i r)) = saw_file w w' i r s"
| "reload_sees s (Reloading w w' (ReloadSwap i r)) = saw_file w w' i r s"
| "reload_sees s t = True"

definition single_related :: "shard_sys \<Rightarrow> thread list \<Rightarrow> shard_state \<Rightarrow> bool" where
  "single_related s ts c \<longleftrightarrow> shard_inv s ts \<and> sim s ts c \<and> (\<forall>t \<in> set ts. single_mode t \<and> reload_sees s t)"

section \<open>What a reload has seen stays\<close>

lemma single_frame:
  assumes "single_mode t" "thread_step t s = Goto t' s'"
  shows "step_frame t s s'" "single_mode t'" "\<not> holds_staged t"
proof -
  show "step_frame t s s'" by (rule step_frames [OF assms(2)]) (use assms(1) in auto)
  show "single_mode t'" using assms by (cases t) (auto simp: thread_simps)
  show "\<not> holds_staged t" using assms(1) by (cases t) auto
qed

lemma others_see:
  assumes inv: "lock_inv s (t # ts)" "handle_inv s (t # ts)" and mode: "single_mode t" and mv: "thread_step t s = Goto t' s'"
    and u: "u \<in> set ts" "reload_sees s u"
  shows "reload_sees s' u"
proof -
  note frame = single_frame [OF mode mv]
  note ex = exclusion(2) [OF inv(1) u(1)]
  have upd: "saw_update w w' p r err (sh_fx s') = saw_update w w' p r err (sh_fx s)" if "holds_flag u" for w w' p r err
    using ex [OF that] frame reads_source_kept [OF frame(1)] by (simp add: saw_update_def step_frame_def)
  have data: "sh_data s' (Some i) = sh_data s (Some i)" if "owned_handle u = Some i" for i
    using data_kept [OF inv(2,1) frame(1), of i] that u(1) by blast
  have filed: "saw_file w w' i r s' = saw_file w w' i r s" if "holds_flag u" "owned_handle u = Some i" for w w' i r
    using upd [OF that(1)] data [OF that(2)] by (simp add: saw_file_def)
  show ?thesis using u(2) upd filed reads_source_kept [OF frame(1)]
    by (cases "(s, u)" rule: reload_sees.cases) auto
qed

lemma itself_sees:
  assumes mv: "thread_step (Reloading w w' p) s = Goto t' s'" and see: "reload_sees s (Reloading w w' p)"
    and ok: "ch_ok (sh_heap s)"
  shows "reload_sees s' t'"
proof (cases p)
  case (ReloadReadFile path r)
  with mv see ok show ?thesis
    by (auto simp: thread_simps saw_file_def fx_data_def read_index_def ch_alloc_def split: prod.splits sum.splits) blast
next
  case (ReloadCheck path r err)
  with mv see show ?thesis by (auto simp: thread_simps may_read_def split: option.splits if_splits)
qed (use mv see in \<open>auto simp: thread_simps reads_source_def saw_update_def saw_file_def split: if_splits prod.splits\<close>)

section \<open>The sequential reload\<close>

lemma serial_reload:
  assumes "\<not> fx_reloading fx" "new_downloader w (mf_source (fx_manifest fx)) (fx_shard fx) = Ret (Inr d)"
    and "download_update w w' d (fx_revision fx) = (p, r, err)"
  shows "err = Some e \<Longrightarrow> \<not> may_read err \<Longrightarrow> faiss_reload w w' h fx = Ret (h, fx, Some e)"
    and "may_read err \<Longrightarrow> read_index w' p h = (h', Inl e) \<Longrightarrow> faiss_reload w w' h fx = Ret (h', fx, Some e)"
    and "may_read err \<Longrightarrow> read_index w' p h = (h', Inr i) \<Longrightarrow>
      faiss_reload w w' h fx = Ret (h', fx\<lparr>fx_index := Some i, fx_revision := r\<rparr>, None)"
  using assms by (auto simp: faiss_reload_def may_read_def split: option.splits)

lemma reload_busy:
  assumes "\<not> fx_reloading fx"
  shows "single_serial (True, CallReload w w') (h, fx) = Ret ((h, fx), ErrRes (Some (Cfg ErrAlreadyReloading)))"
proof -
  have "fx\<lparr>fx_reloading := False\<rparr> = fx" using assms by (cases fx) simp
  then show ?thesis by (simp add: faiss_reload_def)
qed

text \<open>A swap of both shards to the same data and revision.\<close>

lemma sim_swap:
  assumes sim: "sim s (t # ts) (h, fx)" and ok: "fx_ok h' (fx\<lparr>fx_index := Some j, fx_revision := r\<rparr>)"
    and rd: "read_index w p h = (h', Inr j)" "w_read_index w p = Inr fd" and data: "sh_data s (Some i) = Some fd"
    and quiet: "pending_staged t = None" "pending_staged t' = None"
  shows "sim (s\<lparr>sh_fx := (sh_fx s)\<lparr>fx_index := Some i, fx_revision := r\<rparr>\<rparr>) (t' # ts)
    (h', fx\<lparr>fx_index := Some j, fx_revision := r\<rparr>)" (is "sim ?s _ (h', ?fx)")
proof -
  from sim have fx: "fx_ok h fx" by (simp add: sim_def)
  have new: "fx_data h' (Some j) = Some fd" using rd by (auto simp: read_index_def ch_alloc_def fx_data_def)
  have kept: "fx_staged (h', ?fx) = fx_staged (h, fx)"
    using fx read_index_keeps [OF rd(1)] by (auto simp: fx_staged_def fx_ok_def split: option.splits)
  have "fx_staged (sh_heap ?s, sh_fx ?s) = fx_staged (sh_heap s, sh_fx s)"
    by (simp add: fx_staged_def split: option.split)
  moreover have "staged_agrees ?s u (h', ?fx) = staged_agrees s u (h, fx)" for u
    using kept by (simp add: staged_agrees_def split: option.split)
  moreover have "fx_serving (h', ?fx) = fx_serving (sh_heap ?s, sh_fx ?s)"
    using new data by (simp add: fx_serving_def)
  ultimately show ?thesis
    using sim ok kept quiet by (simp add: sim_def staged_agrees_def pending_dead)
qed

section \<open>Steps against the sequential shard\<close>

definition counts_as :: "thread \<Rightarrow> thread list \<Rightarrow> shard_sys \<Rightarrow> thread \<Rightarrow> shard_state \<Rightarrow> bool" where
  "counts_as t ts s' t' c \<longleftrightarrow>
     single_effect t' = single_effect t \<and> (single_effect t = None \<longrightarrow> single_calls t' = single_calls t) \<and> sim s' (t' # ts) c \<or>
     single_effect t = None \<and> (\<exists>a c' r. a \<in> single_calls t \<and> single_serial a c = Ret (c', r) \<and> single_effect t' = Some r \<and>
       sim s' (t' # ts) c')"

lemma counts_idle:
  "single_effect t' = single_effect t \<Longrightarrow> single_calls t' = single_calls t \<or> single_effect t \<noteq> None \<Longrightarrow> sim s' (t' # ts) c \<Longrightarrow>
   counts_as t ts s' t' c"
  by (auto simp: counts_as_def)

lemma counts_call:
  "single_effect t = None \<Longrightarrow> a \<in> single_calls t \<Longrightarrow> single_serial a c = Ret (c', r) \<Longrightarrow> single_effect t' = Some r \<Longrightarrow>
   sim s' (t' # ts) c' \<Longrightarrow> counts_as t ts s' t' c"
  unfolding counts_as_def by blast

lemma counts_reading:
  assumes "explained s t ts s' t' c" "thread_step t s = Goto t' s'" "(\<exists>x k p. t = Searching x k p) \<or> (\<exists>q p. t = Querying q p)"
  shows "counts_as t ts s' t' c"
proof -
  have t: "single_effect t = outcome t" "single_calls t = {(False, call_of t)}" using assms(3) by auto
  have t': "single_effect t' = outcome t'" "outcome t' = None \<Longrightarrow> single_calls t' = {(False, call_of t')}"
    using assms(2,3) by (auto simp: thread_simps)
  from assms(1) consider "outcome t' = outcome t" "outcome t = None \<longrightarrow> call_of t' = call_of t" "sim s' (t' # ts) c"
    | c' r where "outcome t = None" "serial_call (call_of t) c = Ret (c', r)" "outcome t' = Some r" "sim s' (t' # ts) c'"
    by (auto simp: explained_def)
  then show ?thesis
  proof cases
    case 1
    with t t' show ?thesis by (auto simp: counts_as_def)
  next
    case 2
    with t t' show ?thesis by (intro counts_call [of t "(False, call_of t)"]) auto
  qed
qed

lemma counts_reload:
  assumes sim: "sim s (Reloading w w' p # ts) (h, fx)" and inv: "lock_inv s (Reloading w w' p # ts)" "handle_inv s (Reloading w w' p # ts)"
    and see: "reload_sees s (Reloading w w' p)" and mv: "thread_step (Reloading w w' p) s = Goto t' s'"
  shows "counts_as (Reloading w w' p) ts s' t' (h, fx)"
proof -
  have same: "fx_ok h fx" "\<not> fx_reloading fx" "fx_revision fx = fx_revision (sh_fx s)"
    "mf_source (fx_manifest fx) = mf_source (fx_manifest (sh_fx s))" "fx_shard fx = fx_shard (sh_fx s)"
    using sim by (auto simp: sim_def fx_serving_def fx_ok_def)
  have src: "new_downloader w (mf_source (fx_manifest fx)) (fx_shard fx) = Ret (Inr d)" if "reads_source w d (sh_fx s)" for d
    using that same by (simp add: reads_source_def)
  have quiet: "pending_staged (Reloading w w' p) = None" by simp
  have plain: "(False, CallReload w w') \<in> single_calls (Reloading w w' p)"
    "(True, CallReload w w') \<in> single_calls (Reloading w w' p)" by simp_all
  show ?thesis
  proof (cases p)
    case ReloadFlag
    show ?thesis
    proof (cases "fx_reloading (sh_fx s)")
      case True
      with mv ReloadFlag have "t' = Returned (ErrRes (Some (Cfg ErrAlreadyReloading)))" "s' = s" by auto
      with ReloadFlag reload_busy [OF same(2)] sim_same_fx [OF sim] show ?thesis
        by (intro counts_call [OF _ plain(2)]) auto
    next
      case False
      with mv ReloadFlag have "t' = Reloading w w' ReloadSource" "s' = set_flag True s" by auto
      with ReloadFlag sim_same [OF sim, of s' True t'] show ?thesis by (intro counts_idle) (auto simp: set_flag_def)
    qed
  next
    case ReloadSource
    from mv ReloadSource consider (err) e where "new_downloader w (mf_source (fx_manifest fx)) (fx_shard fx) = Ret (Inl e)"
        "t' = Reloading w w' (ReloadClear (Some e))" "s' = s"
      | (src) d where "t' = Reloading w w' (ReloadRLock d)" "s' = s"
      using same by (auto simp: thread_simps)
    then show ?thesis
    proof cases
      case err
      then have "single_serial (False, CallReload w w') (h, fx) = Ret ((h, fx), ErrRes (Some e))"
        using same(2) by (simp add: faiss_reload_def)
      with err ReloadSource sim_same_fx [OF sim] show ?thesis by (intro counts_call [OF _ plain(1)]) auto
    next
      case src
      with ReloadSource sim_same_fx [OF sim] show ?thesis by (intro counts_idle) auto
    qed
  next
    case (ReloadCheck path r err)
    with see obtain d where d: "reads_source w d (sh_fx s)" "download_update w w' d (fx_revision fx) = (path, r, err)"
      using same(3) by (auto simp: saw_update_def)
    show ?thesis
    proof (cases "may_read err")
      case True
      with mv ReloadCheck have "t' = Reloading w w' (ReloadReadFile path r)" "s' = s"
        by (auto simp: may_read_def split: option.splits)
      with ReloadCheck sim_same_fx [OF sim] show ?thesis by (intro counts_idle) auto
    next
      case False
      then obtain e where e: "err = Some e" by (auto simp: may_read_def)
      with False mv ReloadCheck have t': "t' = Reloading w w' (ReloadClear (Some e))" "s' = s" by (auto simp: may_read_def)
      from serial_reload(1) [OF same(2) src [OF d(1)] d(2) e False] t' ReloadCheck sim_same_fx [OF sim] show ?thesis
        by (intro counts_call [OF _ plain(1)]) auto
    qed
  next
    case (ReloadReadFile path r)
    with see obtain d err where d: "reads_source w d (sh_fx s)" "download_update w w' d (fx_revision fx) = (path, r, err)"
      "may_read err"
      using same(3) by (auto simp: saw_update_def)
    obtain hp res where rd: "read_index w' path (sh_heap s) = (hp, res)" by fastforce
    with mv ReloadReadFile have s': "s' = s\<lparr>sh_heap := hp\<rparr>"
      "t' = Reloading w w' (case res of Inl e \<Rightarrow> ReloadClear (Some e) | Inr i \<Rightarrow> ReloadAnnounce i r)"
      by (auto split: sum.splits)
    have sim': "sim s' (t' # ts) (h, fx)"
      by (rule sim_heap [OF sim inv(2,1)])
        (use s' read_index_keeps [OF rd] inv(2) in \<open>auto simp: handle_inv_def split: sum.splits\<close>)
    show ?thesis
    proof (cases res)
      case (Inl e)
      with rd have "read_index w' path h = (h, Inl e)" by (auto simp: read_index_def split: sum.splits prod.splits)
      from serial_reload(2) [OF same(2) src [OF d(1)] d(2,3) this] sim' s' Inl ReloadReadFile show ?thesis
        by (intro counts_call [OF _ plain(1)]) auto
    next
      case (Inr i)
      with sim' s' ReloadReadFile show ?thesis by (intro counts_idle) auto
    qed
  next
    case (ReloadSwap i r)
    with see obtain d path err fd where d: "reads_source w d (sh_fx s)" "download_update w w' d (fx_revision fx) = (path, r, err)"
      "may_read err" "w_read_index w' path = Inr fd" "sh_data s (Some i) = Some fd"
      using same(3) by (auto simp: saw_update_def saw_file_def)
    obtain h' j where rd: "read_index w' path h = (h', Inr j)" using d(4) by (auto simp: read_index_def ch_alloc_def)
    note rl = serial_reload(3) [OF same(2) src [OF d(1)] d(2,3) rd]
    have ok: "fx_ok h' (fx\<lparr>fx_index := Some j, fx_revision := r\<rparr>)"
      using faiss_reload_ok [OF same(1), of w w'] rl by auto
    from mv ReloadSwap have s': "t' = Reloading w w' ReloadRelease"
      "s' = s\<lparr>sh_fx := (sh_fx s)\<lparr>fx_index := Some i, fx_revision := r\<rparr>\<rparr>" by simp_all
    from sim_swap [OF sim ok rd d(4,5) quiet, of t'] s' rl ReloadSwap show ?thesis
      by (intro counts_call [OF _ plain(1)]) auto
  next
    case (ReloadClear res)
    with mv have "t' = Returned (ErrRes res)" "s' = set_flag False s" by simp_all
    with ReloadClear sim_same [OF sim, of s' False t'] show ?thesis by (intro counts_idle) (auto simp: set_flag_def)
  qed (use sim_same_fx [OF sim] mv in \<open>auto simp: thread_simps intro!: counts_idle split: prod.splits\<close>)
qed

section \<open>The discipline keeps the contract\<close>

lemma single_related_step:
  assumes rel: "single_related s (t # ts) c" and mv: "thread_step t s = Goto t' s'"
  shows "counts_as t ts s' t' c" "sim s' (t' # ts) c' \<Longrightarrow> single_related s' (t' # ts) c'"
proof -
  obtain h fx where c: "c = (h, fx)" by fastforce
  from rel have inv: "lock_inv s (t # ts)" "handle_inv s (t # ts)" "thread_ok s t" "ch_ok (sh_heap s)"
    and sim: "sim s (t # ts) (h, fx)" and mode: "single_mode t" "reload_sees s t"
    and rest: "\<And>u. u \<in> set ts \<Longrightarrow> single_mode u \<and> reload_sees s u"
    by (auto simp: single_related_def shard_inv_def handle_inv_def c)
  show "counts_as t ts s' t' c"
  proof (cases t)
    case (Searching x k p)
    with explain_search [of s x k p ts h fx t' s'] inv sim mv c counts_reading show ?thesis by blast
  next
    case (Querying q p)
    with explain_query [of s q p ts h fx t' s'] sim mv c counts_reading show ?thesis by blast
  next
    case (Reloading w w' p)
    with counts_reload [of s w w' p ts h fx t' s'] inv sim mode mv c show ?thesis by blast
  qed (use mode mv in simp_all)
  have itself: "reload_sees s' t'"
  proof (cases t)
    case (Reloading w w' p)
    with itself_sees mv mode inv(4) show ?thesis by blast
  qed (use mode mv in \<open>auto simp: thread_simps\<close>)
  show "single_related s' (t' # ts) c'" if "sim s' (t' # ts) c'"
    using that itself shard_inv_step [OF _ mv] rel rest single_frame(2) [OF mode(1) mv] others_see [OF inv(1,2) mode(1) mv]
    by (auto simp: single_related_def)
qed

interpretation single: linearised single_effect single_calls single_serial single_related
proof unfold_locales
  fix s t ts c t' s'
  assume rel: "single_related s (t # ts) c" and mv: "thread_step t s = Goto t' s'"
  note step = single_related_step [OF rel mv]
  from step(1) step(2) show "single_effect t' = single_effect t \<and> (single_effect t = None \<longrightarrow> single_calls t' = single_calls t) \<and>
      single_related s' (t' # ts) c \<or>
      single_effect t = None \<and> (\<exists>a c' r. a \<in> single_calls t \<and> single_serial a c = Ret (c', r) \<and> single_effect t' = Some r \<and>
      single_related s' (t' # ts) c')"
    unfolding counts_as_def by blast
next
  show "single_related s ts c \<Longrightarrow> shard_inv s ts" for s ts c by (simp add: single_related_def)
  show "single_related s ts c = single_related s us c" if "\<And>P. tcount P ts = tcount P us" "set ts = set us" for s ts us c
    using shard_inv_cong [OF that] sim_perm [OF that] that(2) by (simp add: single_related_def)
  show "call_start t \<Longrightarrow> single_effect t = None" for t by (cases t) auto
qed simp

lemma single_related_start:
  assumes "fx_ok h fx" "list_all call_start ts" "list_all single_mode ts"
  shows "single_related (idle_shard h fx) ts (h, fx)"
proof -
  have start: "pending_staged t = None" "reload_sees (idle_shard h fx) t" if "t \<in> set ts" for t
    using assms(2) that by (cases t; auto simp: list_all_iff)+
  then have "sim (idle_shard h fx) ts (h, fx)" using assms(1) by (auto simp: sim_def idle_shard_def staged_agrees_def)
  with start(2) idle_shard_inv [OF assms(1,2)] assms(3) show ?thesis by (simp add: single_related_def list_all_iff)
qed

text \<open>In this discipline nothing is ever half written outside the write lock, and the flag is up while one reload runs.\<close>

lemma single_agrees:
  assumes "single_related s ts c"
  shows "fx_serving c = fx_serving (sh_heap s, sh_fx s)" "fx_staged c = fx_staged (sh_heap s, sh_fx s)"
    "fx_reloading (sh_fx s) \<longleftrightarrow> list_ex holds_flag ts" "tcount holds_flag ts \<le> 1"
proof -
  have "\<not> staged_dead t" if "t \<in> set ts" for t using assms that by (cases t) (auto simp: single_related_def)
  then have "tcount staged_dead ts = 0" by (rule tcount_none)
  with assms show "fx_serving c = fx_serving (sh_heap s, sh_fx s)" "fx_staged c = fx_staged (sh_heap s, sh_fx s)"
    by (simp_all add: single_related_def sim_def)
  have flag: "one_if (fx_reloading (sh_fx s)) = tcount holds_flag ts"
    using assms by (simp add: single_related_def shard_inv_def lock_inv_def)
  then show "tcount holds_flag ts \<le> 1" using one_if_le by metis
  show "fx_reloading (sh_fx s) \<longleftrightarrow> list_ex holds_flag ts"
  proof
    show "list_ex holds_flag ts" if "fx_reloading (sh_fx s)"
      using flag that tcount_none [of ts holds_flag] by (force simp: list_ex_iff)
    show "fx_reloading (sh_fx s)" if "list_ex holds_flag ts"
      using flag that tcount_member [of _ ts holds_flag] by (force simp: list_ex_iff one_if_def split: if_splits)
  qed
qed

section \<open>Properties\<close>

text \<open>C6: Without two-phase activation, concurrent searches, queries and reloads of a shard linearise.  At any two moments of any
  execution the results so far are those of the sequential methods run in the order of a log that only grows, a call that returned
  before another began comes first, and the shard serves the data and the revision of the sequential one.  At most one
  reload runs, and a call of \<open>Reload\<close> is refused exactly when another is running.\<close>

theorem single_mode_linearises:
  assumes "fx_ok h fx" "list_all call_start ts" "list_all single_mode ts"
  shows "\<exists>s1 ts1 e1 s2 ts2 e2 c.
    run_schedule sched1 (idle_shard h fx, ts) = Ret (s1, ts1) \<and> run_schedule sched2 (s1, ts1) = Ret (s2, ts2) \<and>
    run_calls single_serial (log_of (e1 @ e2)) (h, fx) = Ret (c, results_of (e1 @ e2)) \<and>
    distinct (map fst (e1 @ e2)) \<and> (\<forall>e \<in> set (e1 @ e2). log_entry_ok single_calls ts e) \<and>
    (\<forall>i < length ts. (\<forall>r. ts1 ! i = Returned r \<longrightarrow> (\<exists>a. (i, a, r) \<in> set e1)) \<and>
       (\<forall>r. ts2 ! i = Returned r \<longrightarrow> (\<exists>a. (i, a, r) \<in> set (e1 @ e2))) \<and> (call_start (ts1 ! i) \<longrightarrow> i \<notin> set (map fst e1))) \<and>
    fx_serving c = fx_serving (sh_heap s2, sh_fx s2) \<and> fx_staged c = fx_staged (sh_heap s2, sh_fx s2) \<and>
    tcount holds_flag ts2 \<le> 1 \<and>
    (\<forall>w w'. thread_step (Reloading w w' ReloadFlag) s2 =
       (if list_ex holds_flag ts2 then Goto (Returned (ErrRes (Some (Cfg ErrAlreadyReloading)))) s2
        else Goto (Reloading w w' ReloadSource) (set_flag True s2)))"
proof -
  from single.linearises [OF single_related_start [OF assms] assms(2), of sched1 sched2] obtain s1 ts1 e1 s2 ts2 e2 c where
    run: "run_schedule sched1 (idle_shard h fx, ts) = Ret (s1, ts1)" "run_schedule sched2 (s1, ts1) = Ret (s2, ts2)"
      "run_calls single_serial (log_of (e1 @ e2)) (h, fx) = Ret (c, results_of (e1 @ e2))"
      "distinct (map fst (e1 @ e2))" "\<forall>e \<in> set (e1 @ e2). log_entry_ok single_calls ts e"
      "\<forall>i < length ts. (\<forall>r. ts1 ! i = Returned r \<longrightarrow> (\<exists>a. (i, a, r) \<in> set e1)) \<and>
       (\<forall>r. ts2 ! i = Returned r \<longrightarrow> (\<exists>a. (i, a, r) \<in> set (e1 @ e2))) \<and> (call_start (ts1 ! i) \<longrightarrow> i \<notin> set (map fst e1))"
    and rel: "single_related s2 ts2 c" by blast
  note now = single_agrees [OF rel]
  have "\<forall>w w'. thread_step (Reloading w w' ReloadFlag) s2 =
       (if list_ex holds_flag ts2 then Goto (Returned (ErrRes (Some (Cfg ErrAlreadyReloading)))) s2
        else Goto (Reloading w w' ReloadSource) (set_flag True s2))"
    using now(3) by simp
  with run now(1,2,4) show ?thesis by blast
qed

section \<open>Witnesses\<close>

definition ex_reloads :: "thread list" where
  "ex_reloads = [Reloading (ex_world ''5'') (ex_world ''5'') ReloadFlag, Searching [F_num 0, F_num 1] 2 SearchLock,
     Reloading (ex_world ''6'') (ex_world ''6'') ReloadFlag]"

theorem single_mode_linearises_witness:
  "\<exists>s1 ts1 e1 s2 ts2 e2 c. run_schedule [0, 0, 1, 2, 1] (idle_shard ex_heap (ex_fx False), ex_reloads) = Ret (s1, ts1) \<and>
    run_schedule [0, 0, 0, 0, 1, 1, 0, 1, 0, 0, 0, 0, 0] (s1, ts1) = Ret (s2, ts2) \<and>
    run_calls single_serial (log_of (e1 @ e2)) (ex_heap, ex_fx False) = Ret (c, results_of (e1 @ e2)) \<and>
    fx_serving c = fx_serving (sh_heap s2, sh_fx s2)"
proof -
  have "list_all call_start ex_reloads" "list_all single_mode ex_reloads" by (simp_all add: ex_reloads_def)
  from single_mode_linearises [OF ex_fx_ok [of False] this, where ?sched1.0 = "[0, 0, 1, 2, 1]"
      and ?sched2.0 = "[0, 0, 0, 0, 1, 1, 0, 1, 0, 0, 0, 0, 0]"] show ?thesis by blast
qed

end
