(* ===== verification/Index_Ops.thy ===== *)
theory Index_Ops
  imports Staged_Reload
begin

text \<open>
  The interface \<open>Index\<close> of \<open>internal/engine/index.go\<close>: the methods of \<open>mock.go\<close>, those of a FAISS shard are in
  \<open>Faiss_Index\<close>, and their dispatch on the kind of the index.  The locale \<open>index_contract\<close> is
  what the comments of the interface promise of the read methods.
\<close>

section \<open>The methods of the mock index\<close>

definition mock_delete :: "mock_index \<Rightarrow> mock_index" where
  "mock_delete m = m"

definition mock_vector_count :: "mock_index \<Rightarrow> int" where
  "mock_vector_count m = 123"

definition mock_metric_type :: "mock_index \<Rightarrow> string" where
  "mock_metric_type m = ''mockType''"

definition mock_check_available :: "mock_index \<Rightarrow> error option" where
  "mock_check_available m = None"

definition mock_revision :: "mock_index \<Rightarrow> int" where
  "mock_revision m = mx_revision m"

definition mock_reload :: "mock_index \<Rightarrow> mock_index \<times> error option" where
  "mock_reload m = (m, None)"

definition mock_meta :: "mock_index \<Rightarrow> index_meta" where
  "mock_meta m = mf_meta (mx_manifest m)"

definition mock_shard :: "mock_index \<Rightarrow> shard" where
  "mock_shard m = mx_shard m"

definition mock_start_reload :: "reload_setting \<Rightarrow> mock_index \<Rightarrow> mock_index \<times> error option" where
  "mock_start_reload setting m = (m, None)"

section \<open>The texts of optional settings\<close>

text \<open>\<open>ToString\<close> of \<open>IndexType\<close> and of \<open>ScheduleType\<close>, on pointers that may be nil.\<close>

definition index_type_string :: "string option \<Rightarrow> string" where
  "index_type_string i = (case i of None \<Rightarrow> '''' | Some s \<Rightarrow> s)"

definition schedule_type_string :: "string option \<Rightarrow> string" where
  "schedule_type_string i = (case i of None \<Rightarrow> '''' | Some s \<Rightarrow> s)"

section \<open>Dispatch\<close>

fun index_vector_count :: "c_heap \<Rightarrow> index \<Rightarrow> int run" where
  "index_vector_count h (FaissIx fx) = vector_count h fx"
| "index_vector_count h (MockIx m) = Ret (mock_vector_count m)"

fun index_metric_type :: "c_heap \<Rightarrow> index \<Rightarrow> string run" where
  "index_metric_type h (FaissIx fx) = faiss_metric_type h fx"
| "index_metric_type h (MockIx m) = Ret (mock_metric_type m)"

fun index_input_dim :: "c_heap \<Rightarrow> index \<Rightarrow> int run" where
  "index_input_dim h (FaissIx fx) = faiss_input_dim h fx"
| "index_input_dim h (MockIx m) = Ret (mock_input_dim m)"

fun index_check_available :: "index \<Rightarrow> error option" where
  "index_check_available (FaissIx fx) = check_available fx"
| "index_check_available (MockIx m) = mock_check_available m"

fun index_reload :: "world \<Rightarrow> world \<Rightarrow> c_heap \<Rightarrow> index \<Rightarrow> (c_heap \<times> index \<times> error option) run" where
  "index_reload w w' h (FaissIx fx) =
     run_map (\<lambda>(h', fx', oe). (h', FaissIx fx', oe)) (faiss_reload w w' h fx)"
| "index_reload w w' h (MockIx m) = Ret (h, MockIx (fst (mock_reload m)), snd (mock_reload m))"

section \<open>What the interface promises\<close>

locale index_contract =
  fixes search :: "'i \<Rightarrow> f32 list \<Rightarrow> int \<Rightarrow> search_out run"
    and input_dim :: "'i \<Rightarrow> int run"
    and available :: "'i \<Rightarrow> error option"
    and ok :: "'i \<Rightarrow> bool"
  assumes ok_available: "ok i \<Longrightarrow> available i = None"
    and ok_dim: "ok i \<Longrightarrow> \<exists>d. input_dim i = Ret d"
    and ok_search: "ok i \<Longrightarrow> \<exists>r. search i x k = Ret r"
    and short_input: "ok i \<Longrightarrow> input_dim i = Ret d \<Longrightarrow> int (length x) < d \<Longrightarrow> search i x k \<noteq> Ret (Inr r)"
begin

lemma answer_has_dim:
  assumes "ok i" "search i x k = Ret (Inr r)"
  shows "\<exists>d. input_dim i = Ret d \<and> d \<le> int (length x)"
proof -
  obtain d where "input_dim i = Ret d" using ok_dim [OF assms(1)] by blast
  with short_input [OF assms(1) this, of x k] assms(2) show ?thesis by (metis not_less)
qed

lemma short_input_error:
  assumes "ok i" "input_dim i = Ret d" "int (length x) < d"
  shows "\<exists>e. search i x k = Ret (Inl e)"
proof -
  obtain r where r: "search i x k = Ret r" using ok_search [OF assms(1)] by blast
  with short_input [OF assms] show ?thesis by (cases r) auto
qed

end

lemma faiss_handle:
  assumes "fx_ok h fx"
  shows "\<exists>i d. fx_index fx = Some i \<and> ch_deref h i = Ret d \<and> handle_data h fx = Ret d"
  using assms by (auto simp: fx_ok_def handle_data_def ch_deref_def ch_handles_def sm_keys_load split: option.splits)

interpretation faiss_contract: index_contract "faiss_search h" "faiss_input_dim h" check_available "fx_ok h" for h
proof unfold_locales
  fix fx x k d
  assume ok: "fx_ok h fx"
  from faiss_handle [OF ok] obtain i c where h: "fx_index fx = Some i" "ch_deref h i = Ret c" "handle_data h fx = Ret c"
    by blast
  show "check_available fx = None" using h by (simp add: check_available_def)
  show "\<exists>d. faiss_input_dim h fx = Ret d" using h by (simp add: faiss_input_dim_def)
  show "\<exists>r. faiss_search h fx x k = Ret r" using h by (simp add: faiss_search_def)
  show "faiss_search h fx x k \<noteq> Ret (Inr r)" if "faiss_input_dim h fx = Ret d" "int (length x) < d" for r
    using h that by (auto simp: faiss_search_def faiss_input_dim_def)
qed

interpretation mock_contract: index_contract "\<lambda>m x k. Ret (mock_search m x k)" "\<lambda>m. Ret (mock_input_dim m)" mock_check_available "\<lambda>m. True"
  by unfold_locales (auto simp: mock_search_def mock_check_available_def)

interpretation any_index: index_contract "index_search h" "index_input_dim h" index_check_available "index_ok h" for h
proof unfold_locales
  fix ix x k d
  assume ok: "index_ok h ix"
  show "index_check_available ix = None"
    using ok faiss_contract.ok_available by (cases ix) (auto simp: mock_contract.ok_available)
  show "\<exists>d. index_input_dim h ix = Ret d"
    using ok faiss_contract.ok_dim by (cases ix) auto
  show "\<exists>r. index_search h ix x k = Ret r"
    using ok faiss_contract.ok_search by (cases ix) auto
  show "index_search h ix x k \<noteq> Ret (Inr r)" if "index_input_dim h ix = Ret d" "int (length x) < d" for r
    using ok that faiss_contract.short_input mock_contract.short_input by (cases ix) auto
qed

section \<open>Properties\<close>

text \<open>Whatever kind of index is loaded, it is available, its searches return, and a vector shorter than the dimension it
  reports is answered with an error.\<close>

theorem loaded_index_answers:
  assumes "index_ok h ix"
  shows "index_check_available ix = None \<and> (\<exists>d r. index_input_dim h ix = Ret d \<and> index_search h ix x k = Ret r \<and>
    (int (length x) < d \<longrightarrow> (\<exists>e. r = Inl e)))"
proof -
  obtain d r where d: "index_input_dim h ix = Ret d" "index_search h ix x k = Ret r"
    using any_index.ok_dim [OF assms] any_index.ok_search [OF assms] by blast
  have "\<exists>e. r = Inl e" if "int (length x) < d"
    using any_index.short_input_error [OF assms d(1) that, of k] d(2) by auto
  with d any_index.ok_available [OF assms] show ?thesis by auto
qed

text \<open>The two kinds of index part on longer vectors: the mock refuses every length but its own, a FAISS index passes
  a longer vector on to the library.\<close>

theorem long_vectors:
  assumes "fx_index fx = Some i" "ch_deref h i = Ret c" "fd_d c < int (length x)" "x \<noteq> []"
    and "mock_input_dim m = fd_d c"
  shows "index_search h (MockIx m) x k = Ret (Inl (Cfg ErrWrongInputDimension)) \<and>
    index_search h (FaissIx fx) x k = Ret (case fd_search c x k of Inl e \<Rightarrow> Inl e | Inr (ds, ls) \<Rightarrow> Inr (ds, map itoa ls))"
  using assms by (auto simp: mock_search_def faiss_search_def)

theorem loaded_index_answers_witness:
  "\<exists>d r. index_input_dim ex_heap (FaissIx (ex_fx False)) = Ret d \<and>
     index_search ex_heap (FaissIx (ex_fx False)) [F_num 0] 1 = Ret r \<and> (int (length [F_num 0]) < d \<longrightarrow> (\<exists>e. r = Inl e))"
proof -
  have "index_ok ex_heap (FaissIx (ex_fx False))" using ex_fx_ok by simp
  from loaded_index_answers [OF this] show ?thesis by blast
qed

end
