(* ===== verification/Mock_Server.thy ===== *)
theory Mock_Server
  imports Etcd_Store
begin

text \<open>
  The rest of \<open>mocks/etcd_svr.go\<close>, on top of the key-value service of \<open>Etcd_Store\<close>: the channel on which the
  changes are sent, the watch streams that forward them, the leases, and the group of servers the tests
  start and stop.  A change is sent while the store's lock is held, so a full channel blocks the store.
\<close>

section \<open>Watchers\<close>

type_synonym mock_change = "event_type \<times> string \<times> string"

text \<open>A watcher is a stream with a range of keys; no range end means: every key from \<open>wa_key\<close> on.\<close>

record watcher =
  wa_stream :: nat
  wa_key :: string
  wa_range_end :: "string option"

record watch_reply =
  wy_id :: int
  wy_created :: bool
  wy_canceled :: bool
  wy_events :: "mock_change list"

text \<open>\<open>wv_sent\<close> is what was sent on the streams, oldest first.\<close>

record watch_server =
  wv_watchers :: "(int, watcher) smap"
  wv_sent :: "(nat \<times> watch_reply) list"

definition new_mock_watch_server :: watch_server where
  "new_mock_watch_server = \<lparr>wv_watchers = [], wv_sent = []\<rparr>"

datatype watch_request = CancelRequest int | CreateRequest string "string option" | ProgressRequest | RecvError

text \<open>One turn of the receiving loop of the stream; \<open>rnd\<close> is the random number drawn for a new watcher.\<close>

fun watch_recv :: "nat \<Rightarrow> int \<Rightarrow> watch_request \<Rightarrow> watch_server \<Rightarrow> watch_server" where
  "watch_recv stream rnd (CancelRequest i) w =
     w\<lparr>wv_watchers := sm_delete i (wv_watchers w),
       wv_sent := wv_sent w @ [(stream, \<lparr>wy_id = i, wy_created = False, wy_canceled = True, wy_events = []\<rparr>)]\<rparr>"
| "watch_recv stream rnd (CreateRequest key range_end) w =
     w\<lparr>wv_watchers := sm_store rnd \<lparr>wa_stream = stream, wa_key = key, wa_range_end = range_end\<rparr> (wv_watchers w),
       wv_sent := wv_sent w @ [(stream, \<lparr>wy_id = rnd, wy_created = True, wy_canceled = False, wy_events = []\<rparr>)]\<rparr>"
| "watch_recv stream rnd ProgressRequest w = w"
| "watch_recv stream rnd RecvError w = w"

fun in_range :: "watcher \<Rightarrow> mock_change \<Rightarrow> bool" where
  "in_range wa (ty, k, v) = (wa_key wa \<le> k \<and> (case wa_range_end wa of None \<Rightarrow> True | Some e \<Rightarrow> k < e))"

text \<open>The other loop: an event read from the channel goes to every watcher of the server whose range it is in.\<close>

definition forward_event :: "mock_change \<Rightarrow> watch_server \<Rightarrow> watch_server" where
  "forward_event e w =
     w\<lparr>wv_sent := wv_sent w @
         map (\<lambda>(i, wa). (wa_stream wa, \<lparr>wy_id = i, wy_created = False, wy_canceled = False, wy_events = [e]\<rparr>))
           (filter (\<lambda>(i, wa). in_range wa e) (wv_watchers w))\<rparr>"

section \<open>Leases and the empty services\<close>

text \<open>\<open>LeaseGrant\<close>: always the same lease.  The other answers are empty messages.\<close>

definition mock_lease_grant :: "int \<Rightarrow> int \<times> int" where
  "mock_lease_grant ttl = (123456, ttl)"

section \<open>One server\<close>

text \<open>
  \<open>mh_sending\<close>: a handler that holds the lock of the store and waits for room in the channel, which has the
  capacity \<open>chan_cap\<close>; \<open>mh_streams\<close> counts the running \<open>Watch\<close> calls.
\<close>

record mock_host =
  mh_kv :: mock_kv
  mh_chan :: "mock_change list"
  mh_sending :: "mock_change option"
  mh_streams :: nat
  mh_watch :: watch_server

definition chan_cap :: nat where
  "chan_cap = 10"

definition new_mock_host :: mock_host where
  "new_mock_host = \<lparr>mh_kv = new_mock_kv, mh_chan = [], mh_sending = None, mh_streams = 0,
     mh_watch = new_mock_watch_server\<rparr>"

datatype kv_request = RangeReq string string | PutReq string string | DeleteReq string string

fun kv_handler :: "kv_request \<Rightarrow> mock_kv \<Rightarrow> mock_kv" where
  "kv_handler (RangeReq key range_end) m = m"
| "kv_handler (PutReq key v) m = mock_put key v m"
| "kv_handler (DeleteReq key range_end) m = fst (mock_delete_range key range_end m)"

text \<open>A handler waits for the lock, changes the store and sends its event; without room it waits with the lock held.\<close>

definition kv_call :: "kv_request \<Rightarrow> mock_host \<Rightarrow> mock_host option" where
  "kv_call req g =
     (if mh_sending g \<noteq> None then None
      else let kv' = kv_handler req (mh_kv g) in
        Some (case drop (length (mk_events (mh_kv g))) (mk_events kv') of
            [] \<Rightarrow> g\<lparr>mh_kv := kv'\<rparr>
          | e # _ \<Rightarrow>
              if length (mh_chan g) < chan_cap then g\<lparr>mh_kv := kv', mh_chan := mh_chan g @ [e]\<rparr>
              else g\<lparr>mh_kv := kv', mh_sending := Some e\<rparr>))"

text \<open>A watch stream takes the oldest event; the waiting handler's event then enters the channel.\<close>

definition take_event :: "mock_host \<Rightarrow> mock_host option" where
  "take_event g =
     (if mh_streams g = 0 then None
      else case mh_chan g of
        [] \<Rightarrow> None
      | e # es \<Rightarrow>
          Some (g\<lparr>mh_chan := es @ (case mh_sending g of None \<Rightarrow> [] | Some e' \<Rightarrow> [e']), mh_sending := None,
                  mh_watch := forward_event e (mh_watch g)\<rparr>))"

datatype host_act = KvCall kv_request | OpenStream | CloseStream | StreamRecv nat int watch_request | TakeEvent

fun host_step :: "host_act \<Rightarrow> mock_host \<Rightarrow> mock_host option" where
  "host_step (KvCall req) g = kv_call req g"
| "host_step OpenStream g = Some (g\<lparr>mh_streams := Suc (mh_streams g)\<rparr>)"
| "host_step CloseStream g = (if mh_streams g = 0 then None else Some (g\<lparr>mh_streams := mh_streams g - 1\<rparr>))"
| "host_step (StreamRecv stream rnd req) g = Some (g\<lparr>mh_watch := watch_recv stream rnd req (mh_watch g)\<rparr>)"
| "host_step TakeEvent g = take_event g"

text \<open>A run: an act that cannot happen now is skipped.\<close>

fun run_host :: "host_act list \<Rightarrow> mock_host \<Rightarrow> mock_host" where
  "run_host [] g = g"
| "run_host (a # as) g = run_host as (case host_step a g of None \<Rightarrow> g | Some g' \<Rightarrow> g')"

section \<open>What a watcher has been told\<close>

definition delivered :: "int \<Rightarrow> mock_host \<Rightarrow> mock_change list" where
  "delivered i g = concat (map (\<lambda>(s, y). if wy_id y = i then wy_events y else []) (wv_sent (mh_watch g)))"

text \<open>The changes on their way, and all changes since the store was made.\<close>

definition backlog :: "mock_host \<Rightarrow> mock_change list" where
  "backlog g = mh_chan g @ (case mh_sending g of None \<Rightarrow> [] | Some e \<Rightarrow> [e])"

definition change_log :: "mock_host \<Rightarrow> mock_change list" where
  "change_log g = mk_events (mh_kv g)"

definition host_ok :: "mock_host \<Rightarrow> bool" where
  "host_ok g \<longleftrightarrow> sm_wf (wv_watchers (mh_watch g)) \<and> length (mh_chan g) \<le> chan_cap \<and>
     (mh_sending g \<noteq> None \<longrightarrow> length (mh_chan g) = chan_cap)"

text \<open>An act that leaves the watcher \<open>i\<close> alone.\<close>

fun spares_watcher :: "int \<Rightarrow> host_act \<Rightarrow> bool" where
  "spares_watcher i (StreamRecv stream rnd (CancelRequest j)) = (j \<noteq> i)"
| "spares_watcher i (StreamRecv stream rnd (CreateRequest key range_end)) = (rnd \<noteq> i)"
| "spares_watcher i _ = True"

lemma kv_handler_events:
  "\<exists>new. mk_events (kv_handler req m) = mk_events m @ new \<and> length new \<le> 1"
  by (cases req) (auto simp: mock_put_def mock_delete_range_def Let_def split: option.splits)

lemma load_of_member:
  assumes "sm_wf m"
  shows "concat (map (\<lambda>(j, w). if j = i then f w else []) m) = (case sm_load m i of None \<Rightarrow> [] | Some w \<Rightarrow> f w)"
proof -
  have absent: "concat (map (\<lambda>(j, w). if j = i then f w else []) m) = []" if "i \<notin> fst ` set m"
    for m :: "('a, 'b) smap" using that by (induction m) auto
  from assms show ?thesis unfolding sm_wf_def
  proof (induction m)
    case (Cons kv m)
    then show ?case using absent [of m] by (cases kv) (auto simp: sm_load_Cons)
  qed simp
qed

lemma delivered_forward:
  assumes "sm_wf (wv_watchers (mh_watch g))" "sm_load (wv_watchers (mh_watch g)) i = Some wa"
    and "mh_watch g' = forward_event e (mh_watch g)"
  shows "delivered i g' = delivered i g @ filter (in_range wa) [e]"
proof -
  have "concat (map (\<lambda>(s, y). if wy_id y = i then wy_events y else [])
      (map (\<lambda>(i, wa). (wa_stream wa, \<lparr>wy_id = i, wy_created = False, wy_canceled = False, wy_events = [e]\<rparr>))
        (filter (\<lambda>(i, wa). in_range wa e) ws))) =
    concat (map (\<lambda>(j, w). if j = i then filter (in_range w) [e] else []) ws)" for ws
    by (induction ws) auto
  with load_of_member [OF assms(1), of i "\<lambda>w. filter (in_range w) [e]"] assms(2,3)
  show ?thesis by (simp add: delivered_def forward_event_def)
qed

lemma kv_call_backlog:
  assumes "kv_call req g = Some g'"
  shows "mh_watch g' = mh_watch g \<and> mh_streams g' = mh_streams g \<and> mh_kv g' = kv_handler req (mh_kv g) \<and>
    (\<exists>new. change_log g' = change_log g @ new \<and> backlog g' = backlog g @ new)"
proof -
  obtain new where new: "mk_events (kv_handler req (mh_kv g)) = mk_events (mh_kv g) @ new" "length new \<le> 1"
    using kv_handler_events by blast
  show ?thesis
    using assms new
    by (cases new) (auto simp: kv_call_def backlog_def change_log_def Let_def split: if_splits option.splits)
qed

lemma kv_call_ok: "kv_call req g = Some g' \<Longrightarrow> host_ok g \<Longrightarrow> host_ok g'"
  by (auto simp: kv_call_def host_ok_def Let_def split: if_splits list.splits)

lemma take_event_ok: "take_event g = Some g' \<Longrightarrow> host_ok g \<Longrightarrow> host_ok g'"
  by (auto simp: take_event_def host_ok_def forward_event_def split: if_splits list.splits option.splits)

lemma host_step_ok:
  assumes "host_step a g = Some g'" "host_ok g"
  shows "host_ok g'"
proof (cases a)
  case (StreamRecv stream rnd req)
  with assms show ?thesis by (cases req) (auto simp: host_ok_def)
qed (use assms kv_call_ok take_event_ok in \<open>auto simp: host_ok_def split: if_splits\<close>)

lemma host_step_delivers:
  assumes "host_step a g = Some g'" "host_ok g" "spares_watcher i a"
    and "sm_load (wv_watchers (mh_watch g)) i = Some wa"
  shows "sm_load (wv_watchers (mh_watch g')) i = Some wa \<and>
    (\<exists>new. change_log g' = change_log g @ new \<and>
      delivered i g' @ filter (in_range wa) (backlog g') = delivered i g @ filter (in_range wa) (backlog g @ new))"
proof (cases a)
  case (KvCall req)
  with assms(1) kv_call_backlog [of req g g'] assms(4) show ?thesis
    by (auto simp: delivered_def)
next
  case (StreamRecv stream rnd req)
  with assms show ?thesis
    by (cases req) (auto simp: delivered_def backlog_def change_log_def)
next
  case TakeEvent
  with assms(1) obtain e es where e: "mh_chan g = e # es" "mh_watch g' = forward_event e (mh_watch g)"
    "backlog g = e # backlog g'" "change_log g' = change_log g"
    by (auto simp: take_event_def backlog_def change_log_def split: if_splits list.splits option.splits)
  moreover have "sm_wf (wv_watchers (mh_watch g))" using assms(2) by (simp add: host_ok_def)
  ultimately show ?thesis
    using delivered_forward [OF _ assms(4) e(2)] assms(4) by (simp add: forward_event_def)
qed (use assms in \<open>auto simp: delivered_def backlog_def change_log_def split: if_splits\<close>)

lemma run_host_delivers:
  assumes "host_ok g" "\<forall>a \<in> set as. spares_watcher i a" "sm_load (wv_watchers (mh_watch g)) i = Some wa"
  shows "host_ok (run_host as g) \<and> sm_load (wv_watchers (mh_watch (run_host as g))) i = Some wa \<and>
    (\<exists>new. change_log (run_host as g) = change_log g @ new \<and>
      delivered i (run_host as g) @ filter (in_range wa) (backlog (run_host as g)) =
      delivered i g @ filter (in_range wa) (backlog g @ new))"
  using assms
proof (induction "as" arbitrary: g)
  case (Cons a "as")
  show ?case
  proof (cases "host_step a g")
    case None
    with Cons show ?thesis by simp
  next
    case (Some g1)
    have "spares_watcher i a" using Cons.prems(2) by simp
    from host_step_delivers [OF Some Cons.prems(1) this Cons.prems(3)] host_step_ok [OF Some Cons.prems(1)]
    obtain new1 where
      1: "host_ok g1" "sm_load (wv_watchers (mh_watch g1)) i = Some wa" "change_log g1 = change_log g @ new1"
        "delivered i g1 @ filter (in_range wa) (backlog g1) = delivered i g @ filter (in_range wa) (backlog g @ new1)"
      by auto
    from Cons.IH [OF 1(1) _ 1(2)] Cons.prems(2) obtain new2 where
      2: "host_ok (run_host as g1)" "sm_load (wv_watchers (mh_watch (run_host as g1))) i = Some wa"
        "change_log (run_host as g1) = change_log g1 @ new2"
        "delivered i (run_host as g1) @ filter (in_range wa) (backlog (run_host as g1)) =
         delivered i g1 @ filter (in_range wa) (backlog g1 @ new2)"
      by auto
    from 2 1(3,4) Some show ?thesis by auto
  qed
qed simp

lemma take_event_backlog:
  assumes "host_ok g" "0 < mh_streams g"
  shows "(backlog g = [] \<and> take_event g = None) \<or>
    (\<exists>e g'. take_event g = Some g' \<and> backlog g = e # backlog g' \<and> mh_streams g' = mh_streams g \<and> change_log g' = change_log g)"
proof (cases "mh_chan g")
  case Nil
  with assms show ?thesis by (auto simp: take_event_def backlog_def host_ok_def chan_cap_def split: option.split)
next
  case (Cons e es)
  then have "take_event g = Some (g\<lparr>mh_chan := es @ (case mh_sending g of None \<Rightarrow> [] | Some e' \<Rightarrow> [e']),
      mh_sending := None, mh_watch := forward_event e (mh_watch g)\<rparr>)"
    using assms by (simp add: take_event_def)
  with Cons show ?thesis by (cases e) (simp add: backlog_def change_log_def)
qed

lemma takes_drain:
  assumes "host_ok g" "0 < mh_streams g" "length (backlog g) \<le> n"
  shows "backlog (run_host (replicate n TakeEvent) g) = [] \<and>
    change_log (run_host (replicate n TakeEvent) g) = change_log g"
  using assms
proof (induction n arbitrary: g)
  case (Suc n)
  from take_event_backlog [OF Suc.prems(1,2)] show ?case
  proof
    assume "backlog g = [] \<and> take_event g = None"
    with Suc.IH [OF Suc.prems(1,2)] show ?thesis by simp
  next
    assume "\<exists>e g'. take_event g = Some g' \<and> backlog g = e # backlog g' \<and> mh_streams g' = mh_streams g \<and> change_log g' = change_log g"
    then obtain e g' where g': "take_event g = Some g'" "backlog g = e # backlog g'" "mh_streams g' = mh_streams g"
      "change_log g' = change_log g" by blast
    from Suc.IH [of g'] take_event_ok [OF g'(1) Suc.prems(1)] g' Suc.prems(2,3) show ?thesis by simp
  qed
qed simp

lemma backlog_bound: "host_ok g \<Longrightarrow> length (backlog g) \<le> Suc chan_cap"
  by (auto simp: backlog_def host_ok_def split: option.splits)

lemma drain_delivers:
  assumes "host_ok g" "sm_load (wv_watchers (mh_watch g)) i = Some wa" "0 < mh_streams g" "length (backlog g) \<le> n"
  shows "delivered i (run_host (replicate n TakeEvent) g) = delivered i g @ filter (in_range wa) (backlog g)"
proof -
  let ?g = "run_host (replicate n TakeEvent) g"
  have "\<forall>a \<in> set (replicate n TakeEvent). spares_watcher i a" by simp
  from run_host_delivers [OF assms(1) this assms(2)] obtain more where
    "change_log ?g = change_log g @ more"
    "delivered i ?g @ filter (in_range wa) (backlog ?g) = delivered i g @ filter (in_range wa) (backlog g @ more)"
    by blast
  with takes_drain [OF assms(1,3,4)] show ?thesis by simp
qed

lemma mock_watch_told:
  assumes "host_ok g" "sm_load (wv_watchers (mh_watch g)) i = Some wa" "\<forall>a \<in> set as. spares_watcher i a"
    and "g' = run_host as g" "0 < mh_streams g'"
  shows "\<exists>new. change_log g' = change_log g @ new \<and>
    delivered i (run_host (replicate 11 TakeEvent) g') = delivered i g @ filter (in_range wa) (backlog g @ new)"
proof -
  from run_host_delivers [OF assms(1,3,2)] obtain new where
    new: "host_ok g'" "sm_load (wv_watchers (mh_watch g')) i = Some wa" "change_log g' = change_log g @ new"
      "delivered i g' @ filter (in_range wa) (backlog g') = delivered i g @ filter (in_range wa) (backlog g @ new)"
    unfolding assms(4) by blast
  moreover have "length (backlog g') \<le> 11" using backlog_bound [OF new(1)] by (simp add: chan_cap_def)
  ultimately show ?thesis using drain_delivers [OF new(1,2) assms(5), of 11] by metis
qed

section \<open>Properties of the store and its watches\<close>


text \<open>Without a watch stream nothing reads the channel: the eleventh change leaves its handler waiting with the lock
  of the store held, and from then on, until a stream is opened, no request of any client returns.\<close>

lemma stuck_store:
  assumes "mh_sending g \<noteq> None" "mh_streams g = 0" "OpenStream \<notin> set as"
  shows "mh_sending (run_host as g) = mh_sending g \<and> mh_streams (run_host as g) = 0"
  using assms
proof (induction "as" arbitrary: g)
  case (Cons a "as")
  then show ?case by (cases a) (auto simp: kv_call_def take_event_def)
qed simp

lemma kv_call_put:
  assumes "mh_sending g = None"
  shows "kv_call (PutReq k v) g = Some (if length (mh_chan g) < chan_cap
    then g\<lparr>mh_kv := mock_put k v (mh_kv g), mh_chan := mh_chan g @ [(PutEvent, k, v)]\<rparr>
    else g\<lparr>mh_kv := mock_put k v (mh_kv g), mh_sending := Some (PutEvent, k, v)\<rparr>)"
  using assms by (simp add: kv_call_def mock_put_def Let_def)

lemma puts_fill:
  assumes "mh_streams g = 0" "mh_sending g = None" "length (mh_chan g) + length kvs = Suc chan_cap" "kvs \<noteq> []"
  shows "mh_sending (run_host (map (\<lambda>(k, v). KvCall (PutReq k v)) kvs) g) \<noteq> None \<and>
    mh_streams (run_host (map (\<lambda>(k, v). KvCall (PutReq k v)) kvs) g) = 0"
  using assms
proof (induction kvs arbitrary: g)
  case (Cons kv kvs)
  obtain k v where kv: "kv = (k, v)" by (cases kv)
  from Cons.prems have len: "length (mh_chan g) + length kvs = chan_cap" by simp
  show ?case
  proof (cases "kvs = []")
    case True
    with Cons.prems len kv_call_put [OF Cons.prems(2)] show ?thesis by (simp add: kv)
  next
    case False
    then have "length (mh_chan g) < chan_cap" using len by (cases kvs) auto
    with Cons.prems(1,2) len False kv_call_put [OF Cons.prems(2), of k v]
      Cons.IH [of "g\<lparr>mh_kv := mock_put k v (mh_kv g), mh_chan := mh_chan g @ [(PutEvent, k, v)]\<rparr>"]
    show ?thesis by (simp add: kv)
  qed
qed simp

theorem mock_store_blocks:
  assumes "length kvs = 11" "OpenStream \<notin> set as"
    and "g = run_host (map (\<lambda>(k, v). KvCall (PutReq k v)) kvs) new_mock_host"
  shows "kv_call req (run_host as g) = None"
proof -
  have "length (mh_chan new_mock_host) + length kvs = Suc chan_cap" "kvs \<noteq> []"
    "mh_streams new_mock_host = 0" "mh_sending new_mock_host = None"
    using assms(1) by (auto simp: new_mock_host_def chan_cap_def)
  from puts_fill [OF this(3,4,1,2)] stuck_store [of g "as"] assms(2,3)
  show ?thesis by (simp add: kv_call_def)
qed

section \<open>The group of servers\<close>

text \<open>
  A server has a listener when \<open>sv_ln\<close>, and a gRPC server when \<open>sv_grpc\<close>.  The group keeps pointers to
  servers, nil until the server is made, and a wait group, here its counter.  \<open>net\<close> is \<open>net.Listen\<close> for the
  turn, the network and the address, and answers the address bound.
\<close>

record mock_server =
  sv_ln :: bool
  sv_network :: string
  sv_address :: string
  sv_grpc :: bool

record mock_servers =
  mm_servers :: "mock_server option list"
  mm_wg :: int

definition resolver_address :: "mock_server \<Rightarrow> string run" where
  "resolver_address s =
     (if sv_network s = ''unix'' then Ret (''unix://'' @ sv_address s)
      else if sv_network s = ''tcp'' then Ret (sv_address s)
      else Panic (ExplicitPanic (''illegal network type: '' @ sv_network s)))"

definition start_at ::
    "(string \<Rightarrow> string \<Rightarrow> error + string) \<Rightarrow> nat \<Rightarrow> mock_servers \<Rightarrow> (mock_servers \<times> error option) run" where
  "start_at net idx ms =
     (if length (mm_servers ms) \<le> idx then Panic IndexOutOfRange
      else case mm_servers ms ! idx of
        None \<Rightarrow> Panic NilDereference
      | Some s \<Rightarrow>
          (case (if sv_ln s then Inr (sv_address s) else net (sv_network s) (sv_address s)) of
             Inl e \<Rightarrow> Ret (ms, Some (ErrText (''failed to listen '' @ err_text e)))
           | Inr a \<Rightarrow>
               Ret (ms\<lparr>mm_servers := (mm_servers ms)[idx := Some (s\<lparr>sv_ln := True, sv_grpc := True\<rparr>)],
                       mm_wg := mm_wg ms + 1\<rparr>, None)))"

definition stop_at :: "nat \<Rightarrow> mock_servers \<Rightarrow> mock_servers run" where
  "stop_at idx ms =
     (if length (mm_servers ms) \<le> idx then Panic IndexOutOfRange
      else case mm_servers ms ! idx of
        None \<Rightarrow> Panic NilDereference
      | Some s \<Rightarrow>
          if \<not> sv_ln s then Ret ms
          else if \<not> sv_grpc s then Panic NilDereference
          else if mm_wg ms \<le> 0 then Panic WaitGroupNegative
          else Ret (ms\<lparr>mm_servers := (mm_servers ms)[idx := Some (s\<lparr>sv_ln := False, sv_grpc := False\<rparr>)],
                       mm_wg := mm_wg ms - 1\<rparr>))"

fun stop_from :: "nat list \<Rightarrow> mock_servers \<Rightarrow> mock_servers run" where
  "stop_from [] ms = Ret ms"
| "stop_from (i # is) ms = run_bind (stop_at i ms) (stop_from is)"

text \<open>\<open>Stop\<close>, called on a pointer: the second part of the answer says whether the wait returns.\<close>

definition stop_servers :: "mock_servers option \<Rightarrow> (mock_servers \<times> bool) run" where
  "stop_servers p =
     (case p of
        None \<Rightarrow> Panic NilDereference
      | Some ms \<Rightarrow> run_map (\<lambda>ms'. (ms', mm_wg ms' = 0)) (stop_from [0..<length (mm_servers ms)] ms))"

text \<open>
  \<open>startMockServers\<close>.  The loop returns nil and an error at the first address that cannot be
  listened on; the named result is then nil, and the deferred function calls \<open>Stop\<close> on it.
\<close>

fun start_each ::
    "(nat \<Rightarrow> string \<Rightarrow> string \<Rightarrow> error + string) \<Rightarrow> string \<Rightarrow> nat \<Rightarrow> string list \<Rightarrow> mock_servers \<Rightarrow>
     (mock_servers option \<times> error option) run" where
  "start_each net network idx [] ms = Ret (Some ms, None)"
| "start_each net network idx (a # as) ms =
     (case net idx network a of
        Inl e \<Rightarrow> Ret (None, Some (ErrText (''failed to listen '' @ err_text e)))
      | Inr bound \<Rightarrow>
          run_bind (start_at (net idx) idx
              (ms\<lparr>mm_servers := (mm_servers ms)[idx := Some \<lparr>sv_ln = True, sv_network = network, sv_address = bound, sv_grpc = False\<rparr>]\<rparr>))
            (\<lambda>(ms', oe). start_each net network (Suc idx) as ms'))"

definition start_mock_servers ::
    "(nat \<Rightarrow> string \<Rightarrow> string \<Rightarrow> error + string) \<Rightarrow> string \<Rightarrow> string list \<Rightarrow> (mock_servers option \<times> error option) run" where
  "start_mock_servers net network addrs =
     run_bind (start_each net network 0 addrs \<lparr>mm_servers = replicate (length addrs) None, mm_wg = 0\<rparr>) (\<lambda>(ms, oe).
       case oe of
         None \<Rightarrow> Ret (ms, None)
       | Some e \<Rightarrow> run_map (\<lambda>_. (ms, Some e)) (stop_servers ms))"

definition start_mock_servers_tcp ::
    "(nat \<Rightarrow> string \<Rightarrow> string \<Rightarrow> error + string) \<Rightarrow> int \<Rightarrow> (mock_servers option \<times> error option) run" where
  "start_mock_servers_tcp net cnt =
     (if cnt < 0 then Panic MakeSliceRange else start_mock_servers net ''tcp'' (replicate (nat cnt) ''localhost:0''))"

text \<open>The names of the sockets are those of files made and removed: \<open>create\<close> and \<open>remove\<close> are the calls of \<open>os\<close>.\<close>

fun socket_names :: "(nat \<Rightarrow> error + string) \<Rightarrow> (string \<Rightarrow> error option) \<Rightarrow> nat list \<Rightarrow> error + string list" where
  "socket_names create remove [] = Inr []"
| "socket_names create remove (i # is) =
     (case create i of
        Inl e \<Rightarrow> Inl (ErrText (''failed to allocate temp file for unix socket: '' @ err_text e))
      | Inr fn \<Rightarrow>
          (case remove fn of
             Some e \<Rightarrow> Inl (ErrText (''failed to remove temp file before creating unix socket: '' @ err_text e))
           | None \<Rightarrow>
               (case socket_names create remove is of Inl e \<Rightarrow> Inl e | Inr fns \<Rightarrow> Inr (fn # fns))))"

definition start_mock_servers_unix ::
    "(nat \<Rightarrow> error + string) \<Rightarrow> (string \<Rightarrow> error option) \<Rightarrow> (nat \<Rightarrow> string \<Rightarrow> string \<Rightarrow> error + string) \<Rightarrow> int \<Rightarrow>
     (mock_servers option \<times> error option) run" where
  "start_mock_servers_unix create remove net cnt =
     (if cnt < 0 then Panic MakeSliceRange
      else case socket_names create remove [0..<nat cnt] of
        Inl e \<Rightarrow> Ret (None, Some e)
      | Inr addrs \<Rightarrow> start_mock_servers net ''unix'' addrs)"

definition start_mock_servers_on_network ::
    "(nat \<Rightarrow> error + string) \<Rightarrow> (string \<Rightarrow> error option) \<Rightarrow> (nat \<Rightarrow> string \<Rightarrow> string \<Rightarrow> error + string) \<Rightarrow> int \<Rightarrow> string \<Rightarrow>
     (mock_servers option \<times> error option) run" where
  "start_mock_servers_on_network create remove net cnt network =
     (if network = ''tcp'' then start_mock_servers_tcp net cnt
      else if network = ''unix'' then start_mock_servers_unix create remove net cnt
      else Ret (None, Some (ErrText (''unsupported network type: '' @ network))))"

definition server_up :: "mock_server option \<Rightarrow> bool" where
  "server_up p \<longleftrightarrow> (case p of None \<Rightarrow> False | Some s \<Rightarrow> sv_ln s \<and> sv_grpc s)"

definition server_down :: "mock_server option \<Rightarrow> bool" where
  "server_down p \<longleftrightarrow> (case p of None \<Rightarrow> False | Some s \<Rightarrow> \<not> sv_ln s \<and> \<not> sv_grpc s)"

lemma start_each_all:
  assumes "\<forall>j < length as. \<exists>b. net (idx + j) network (as ! j) = Inr b"
    and "length (mm_servers ms) = idx + length as" "\<forall>j < idx. server_up (mm_servers ms ! j)" "mm_wg ms = int idx"
  shows "\<exists>ms'. start_each net network idx as ms = Ret (Some ms', None) \<and> length (mm_servers ms') = idx + length as \<and>
    (\<forall>j < idx + length as. server_up (mm_servers ms' ! j)) \<and> mm_wg ms' = int (idx + length as)"
  using assms
proof (induction "as" arbitrary: idx ms)
  case (Cons a "as")
  obtain b where b: "net idx network a = Inr b" using Cons.prems(1) [rule_format, of 0] by auto
  let ?ms = "ms\<lparr>mm_servers := (mm_servers ms)[idx := Some \<lparr>sv_ln = True, sv_network = network, sv_address = b, sv_grpc = True\<rparr>],
    mm_wg := mm_wg ms + 1\<rparr>"
  have "start_each net network idx (a # as) ms = start_each net network (Suc idx) as ?ms"
    using Cons.prems(2) b by (simp add: start_at_def)
  moreover have "\<forall>j < length as. \<exists>b. net (Suc idx + j) network (as ! j) = Inr b"
    using Cons.prems(1) by force
  moreover have "\<forall>j < Suc idx. server_up (mm_servers ?ms ! j)"
    using Cons.prems(2,3) by (auto simp: nth_list_update less_Suc_eq server_up_def)
  ultimately show ?case using Cons.IH [of "Suc idx" ?ms] Cons.prems(2,4) by simp
qed simp

lemma start_each_fails:
  assumes "j < length as" "net (idx + j) network (as ! j) = Inl e" "length (mm_servers ms) = idx + length as"
  shows "\<exists>e'. start_each net network idx as ms = Ret (None, Some e')"
  using assms
proof (induction "as" arbitrary: idx ms j)
  case (Cons a "as")
  show ?case
  proof (cases "net idx network a")
    case (Inr b)
    with Cons.prems obtain j' where "j = Suc j'" by (cases j) auto
    with Cons.prems Cons.IH [of j' "Suc idx"] Inr show ?thesis by (simp add: start_at_def)
  qed simp
qed simp

lemma stop_from_all:
  assumes "length (mm_servers ms) = n" "i \<le> n" "\<forall>j < i. server_down (mm_servers ms ! j)"
    and "\<forall>j. i \<le> j \<and> j < n \<longrightarrow> server_up (mm_servers ms ! j)" "mm_wg ms = int (n - i)"
  shows "\<exists>ms'. stop_from [i..<n] ms = Ret ms' \<and> length (mm_servers ms') = n \<and>
    (\<forall>j < n. server_down (mm_servers ms' ! j)) \<and> mm_wg ms' = 0"
  using assms
proof (induction "n - i" arbitrary: i ms)
  case (Suc d)
  then have i: "i < n" by simp
  with Suc.prems(4) obtain s where s: "mm_servers ms ! i = Some s" "sv_ln s" "sv_grpc s"
    by (fastforce simp: server_up_def split: option.splits)
  let ?ms = "ms\<lparr>mm_servers := (mm_servers ms)[i := Some (s\<lparr>sv_ln := False, sv_grpc := False\<rparr>)], mm_wg := mm_wg ms - 1\<rparr>"
  have "stop_from [i..<n] ms = stop_from [Suc i..<n] ?ms"
    using Suc.prems(1,5) i s by (simp add: upt_conv_Cons stop_at_def)
  moreover have "\<forall>j < Suc i. server_down (mm_servers ?ms ! j)"
    using Suc.prems(1,3) i by (auto simp: nth_list_update less_Suc_eq server_down_def)
  ultimately show ?case
    using Suc.hyps(1) [of "Suc i" ?ms] Suc.hyps(2) Suc.prems i by simp
qed simp

text \<open>A group of mock servers comes up complete or not at all.  When every address can be listened on, all servers
  run, the wait group counts them, and \<open>Stop\<close> stops every one and returns.  When one cannot, the error is never
  reported: the deferred \<open>Stop\<close> is called on the nil result, a nil dereference.\<close>

theorem servers_start_and_stop:
  fixes net network addrs
  defines "r \<equiv> start_mock_servers net network addrs"
  shows "(if \<exists>j < length addrs. \<exists>e. net j network (addrs ! j) = Inl e then r = Panic NilDereference
    else \<exists>ms ms'. r = Ret (Some ms, None) \<and> length (mm_servers ms) = length addrs \<and>
      (\<forall>j < length addrs. server_up (mm_servers ms ! j)) \<and> mm_wg ms = int (length addrs) \<and>
      stop_servers (Some ms) = Ret (ms', True) \<and> (\<forall>j < length addrs. server_down (mm_servers ms' ! j)))"
proof (cases "\<exists>j < length addrs. \<exists>e. net j network (addrs ! j) = Inl e")
  case True
  then obtain j e where j: "j < length addrs" "net j network (addrs ! j) = Inl e" by blast
  from start_each_fails [of j addrs net 0 network e "\<lparr>mm_servers = replicate (length addrs) None, mm_wg = 0\<rparr>"] j
  show ?thesis by (auto simp: r_def start_mock_servers_def stop_servers_def)
next
  case False
  then have "\<forall>j < length addrs. \<exists>b. net (0 + j) network (addrs ! j) = Inr b"
    by (metis add_0 sum.exhaust_sel)
  with start_each_all [where idx = 0 and net = net and network = network and as = addrs
      and ms = "\<lparr>mm_servers = replicate (length addrs) None, mm_wg = 0\<rparr>"] obtain ms where
    ms: "r = Ret (Some ms, None)" "length (mm_servers ms) = length addrs"
      "\<forall>j < length addrs. server_up (mm_servers ms ! j)" "mm_wg ms = int (length addrs)"
    by (auto simp: r_def start_mock_servers_def)
  from stop_from_all [of ms "length addrs" 0] ms obtain ms' where
    "stop_servers (Some ms) = Ret (ms', True)" "\<forall>j < length addrs. server_down (mm_servers ms' ! j)"
    by (auto simp: stop_servers_def)
  with ms False show ?thesis by auto
qed

text \<open>A server started a second time without being stopped is counted twice and stopped once: \<open>Stop\<close> never returns.\<close>

theorem restarted_server_blocks_stop:
  assumes "mm_servers ms = [Some s]" "sv_ln s" "sv_grpc s" "mm_wg ms = 1"
  shows "\<exists>ms1 ms2. start_at net 0 ms = Ret (ms1, None) \<and> stop_servers (Some ms1) = Ret (ms2, False) \<and> mm_wg ms2 = 1"
  using assms by (simp add: start_at_def stop_servers_def stop_at_def)

section \<open>Witnesses\<close>

definition ex_host :: mock_host where
  "ex_host = new_mock_host\<lparr>mh_streams := 1,
     mh_watch := \<lparr>wv_watchers = [(7, \<lparr>wa_stream = 0, wa_key = ''/a'', wa_range_end = Some ''/b''\<rparr>)], wv_sent = []\<rparr>\<rparr>"

lemma ex_host_ok: "host_ok ex_host" "backlog ex_host = []" "delivered 7 ex_host = []" "change_log ex_host = []"
  by (simp_all add: ex_host_def new_mock_host_def new_mock_kv_def host_ok_def sm_wf_def backlog_def delivered_def change_log_def)


theorem mock_store_blocks_witness:
  "kv_call (RangeReq ''k'' '''') (run_host [TakeEvent, KvCall (PutReq ''k'' ''v'')]
     (run_host (map (\<lambda>(k, v). KvCall (PutReq k v)) (replicate 11 (''k'', ''v''))) new_mock_host)) = None"
  using mock_store_blocks [of "replicate 11 (''k'', ''v'')" "[TakeEvent, KvCall (PutReq ''k'' ''v'')]" _ "RangeReq ''k'' ''''", OF _ _ refl]
  by simp

theorem servers_start_and_stop_witness:
  "start_mock_servers (\<lambda>j n a. if j = 0 then Inr ''127.0.0.1:9'' else Inl (ErrText ''in use'')) ''tcp'' [''localhost:0'', ''localhost:0''] =
     Panic NilDereference \<and>
   (\<exists>ms ms'. start_mock_servers (\<lambda>j n a. Inr ''127.0.0.1:9'') ''tcp'' [''localhost:0'', ''localhost:0''] = Ret (Some ms, None) \<and>
      mm_wg ms = 2 \<and> stop_servers (Some ms) = Ret (ms', True))"
proof
  let ?addrs = "[''localhost:0'', ''localhost:0'']"
  have "\<exists>j < length ?addrs. \<exists>e. (if j = 0 then Inr ''127.0.0.1:9'' else Inl (ErrText ''in use'')) = Inl e"
    by (rule exI [of _ 1]) simp
  then show "start_mock_servers (\<lambda>j n a. if j = 0 then Inr ''127.0.0.1:9'' else Inl (ErrText ''in use'')) ''tcp'' ?addrs =
      Panic NilDereference"
    using servers_start_and_stop [of ?addrs "\<lambda>j n a. if j = 0 then Inr ''127.0.0.1:9'' else Inl (ErrText ''in use'')" "''tcp''"]
    by meson
  show "\<exists>ms ms'. start_mock_servers (\<lambda>j n a. Inr ''127.0.0.1:9'') ''tcp'' ?addrs = Ret (Some ms, None) \<and>
      mm_wg ms = 2 \<and> stop_servers (Some ms) = Ret (ms', True)"
    using servers_start_and_stop [of ?addrs "\<lambda>j n a. Inr ''127.0.0.1:9''" "''tcp''"] by auto
qed

theorem restarted_server_blocks_stop_witness:
  "\<exists>ms1 ms2. start_at (\<lambda>n a. Inr a) 0 \<lparr>mm_servers = [Some \<lparr>sv_ln = True, sv_network = ''tcp'', sv_address = ''a'', sv_grpc = True\<rparr>], mm_wg = 1\<rparr> =
     Ret (ms1, None) \<and> stop_servers (Some ms1) = Ret (ms2, False)"
  using restarted_server_blocks_stop [of "\<lparr>mm_servers = [Some \<lparr>sv_ln = True, sv_network = ''tcp'', sv_address = ''a'', sv_grpc = True\<rparr>], mm_wg = 1\<rparr>"
      "\<lparr>sv_ln = True, sv_network = ''tcp'', sv_address = ''a'', sv_grpc = True\<rparr>" "\<lambda>n a. Inr a"]
  by fastforce

end
