(* ===== verification/Mock_Ring.thy ===== *)
theory Mock_Ring
  imports Mock_Server Cluster
begin

text \<open>
  The cluster manager (\<open>internal/cluster/node.go\<close>) on the mock store (\<open>mocks/etcd_svr.go\<close>): what its ring is once the
  changes of the store have been forwarded to its watch, and where the mock differs from etcd.
\<close>

section \<open>Registrations in the store\<close>

definition registered :: "string \<Rightarrow> mock_kv \<Rightarrow> string set" where
  "registered rt kv = {n. sm_load (mk_data kv) (node_meta_path rt n) \<noteq> None}"

text \<open>A key below the path of the nodes holds the meta of the node it names.\<close>

definition meta_pair :: "string codec \<Rightarrow> string \<Rightarrow> string \<Rightarrow> string \<Rightarrow> bool" where
  "meta_pair cd rt k v \<longleftrightarrow> (prefix (node_meta_path_prefix rt) k \<longrightarrow>
     (case dec_meta cd v of None \<Rightarrow> False | Some m \<Rightarrow> k = node_meta_path rt (nm_node_id m)))"

definition metas_ok :: "string codec \<Rightarrow> string \<Rightarrow> mock_kv \<Rightarrow> bool" where
  "metas_ok cd rt kv \<longleftrightarrow> (\<forall>k v. sm_load (mk_data kv) k = Some v \<longrightarrow> meta_pair cd rt k v)"

fun member_act :: "string codec \<Rightarrow> string \<Rightarrow> host_act \<Rightarrow> bool" where
  "member_act cd rt (KvCall (PutReq k v)) = meta_pair cd rt k v"
| "member_act cd rt a = True"

definition node_watcher :: "string \<Rightarrow> watcher \<Rightarrow> bool" where
  "node_watcher rt wa \<longleftrightarrow> wa_key wa = node_meta_path_prefix rt \<and> wa_range_end wa = Some (prefix_end (node_meta_path_prefix rt))"

lemma node_meta_path_inj [simp]: "node_meta_path rt n = node_meta_path rt n' \<longleftrightarrow> n = n'"
  by (simp add: node_meta_path_def)

lemma node_prefix: "plain_prefix (node_meta_path_prefix rt)" "prefix (node_meta_path_prefix rt) (node_meta_path rt n)"
  by (simp_all add: plain_prefix_def node_meta_path_prefix_def node_meta_path_def)

lemma node_watcher_range: "node_watcher rt wa \<Longrightarrow> in_range wa e \<longleftrightarrow> prefix (node_meta_path_prefix rt) (fst (snd e))"
  using prefix_range [OF node_prefix(1), of rt] by (cases e) (simp add: node_watcher_def)

lemma mock_event_simps [simp]:
  "event_meta cd (mock_event (ty, k, v)) = (case dec_meta cd v of Some m \<Rightarrow> m | None \<Rightarrow> zero_node_meta)"
  "ev_is_create (mock_event (ty, k, v)) \<longleftrightarrow> ty = PutEvent" "ev_type (mock_event (ty, k, v)) = ty"
  by (simp_all add: event_meta_def mock_event_def ev_is_create_def)

lemma put_registers:
  assumes "meta_pair cd rt k v" "metas_ok cd rt kv"
  shows "metas_ok cd rt (mock_put k v kv) \<and> registered rt (mock_put k v kv) =
    (if prefix (node_meta_path_prefix rt) k then member_step cd (registered rt kv) (mock_event (PutEvent, k, v)) else registered rt kv)"
proof -
  have "metas_ok cd rt (mock_put k v kv)"
    using assms by (auto simp: metas_ok_def mock_put_def)
  moreover have "registered rt (mock_put k v kv) = registered rt kv" if "\<not> prefix (node_meta_path_prefix rt) k"
    using that node_prefix(2) by (auto simp: registered_def mock_put_def)
  moreover have "registered rt (mock_put k v kv) = member_step cd (registered rt kv) (mock_event (PutEvent, k, v))"
    if "prefix (node_meta_path_prefix rt) k"
    using that assms(1) by (auto simp: meta_pair_def member_step_def registered_def mock_put_def split: option.splits)
  ultimately show ?thesis by simp
qed

lemma delete_unregisters:
  assumes "metas_ok cd rt kv" "sm_load (mk_data kv) k = Some v"
    and "kv' = kv\<lparr>mk_data := sm_delete k (mk_data kv), mk_revision := rev', mk_events := evs\<rparr>"
  shows "metas_ok cd rt kv' \<and> registered rt kv' =
    (if prefix (node_meta_path_prefix rt) k then member_step cd (registered rt kv) (mock_event (DeleteEvent, k, v)) else registered rt kv)"
proof -
  have p: "meta_pair cd rt k v" using assms(1,2) by (auto simp: metas_ok_def)
  have "metas_ok cd rt kv'" using assms(1,3) by (auto simp: metas_ok_def)
  moreover have "registered rt kv' = registered rt kv" if "\<not> prefix (node_meta_path_prefix rt) k"
    using that node_prefix(2) by (auto simp: registered_def assms(3))
  moreover have "registered rt kv' = member_step cd (registered rt kv) (mock_event (DeleteEvent, k, v))"
    if "prefix (node_meta_path_prefix rt) k"
    using that p by (auto simp: meta_pair_def member_step_def registered_def assms(3) split: option.splits)
  ultimately show ?thesis by simp
qed

lemma kv_handler_members:
  assumes "metas_ok cd rt kv" "member_act cd rt (KvCall req)" "node_watcher rt wa"
    and "mk_events (kv_handler req kv) = mk_events kv @ new"
  shows "metas_ok cd rt (kv_handler req kv) \<and>
    registered rt (kv_handler req kv) = foldl (member_step cd) (registered rt kv) (map mock_event (filter (in_range wa) new))"
proof (cases req)
  case (RangeReq k e)
  with assms show ?thesis by simp
next
  case (PutReq k v)
  with assms(4) have "new = [(PutEvent, k, v)]" by (simp add: mock_put_def)
  with PutReq put_registers [of cd rt k v kv] assms(1,2) node_watcher_range [OF assms(3), of "(PutEvent, k, v)"]
  show ?thesis by (simp del: in_range.simps)
next
  case (DeleteReq k e)
  show ?thesis
  proof (cases "k = '''' \<or> e \<noteq> '''' \<or> sm_load (mk_data kv) k = None")
    case True
    then have "fst (mock_delete_range k e kv) = kv" by (auto simp: mock_delete_range_def)
    with DeleteReq assms show ?thesis by simp
  next
    case False
    then obtain v where v: "sm_load (mk_data kv) k = Some v" by auto
    with False DeleteReq assms(4) have new: "new = [(DeleteEvent, k, v)]" by (simp add: mock_delete_range_def)
    have "kv_handler req kv = kv\<lparr>mk_data := sm_delete k (mk_data kv), mk_revision := sm_delete k (mk_revision kv),
        mk_events := mk_events kv @ [(DeleteEvent, k, v)]\<rparr>"
      using False DeleteReq v by (simp add: mock_delete_range_def)
    with delete_unregisters [OF assms(1) v this] new node_watcher_range [OF assms(3), of "(DeleteEvent, k, v)"]
    show ?thesis by (simp del: in_range.simps)
  qed
qed

section \<open>Runs of the store\<close>

lemma host_step_members:
  assumes "host_step a g = Some g'" "member_act cd rt a" "metas_ok cd rt (mh_kv g)" "node_watcher rt wa"
  shows "metas_ok cd rt (mh_kv g') \<and> (\<exists>new. change_log g' = change_log g @ new \<and>
    registered rt (mh_kv g') = foldl (member_step cd) (registered rt (mh_kv g)) (map mock_event (filter (in_range wa) new)))"
proof (cases a)
  case (KvCall req)
  with assms(1) have c: "kv_call req g = Some g'" by simp
  from kv_call_backlog [OF this] obtain new where new: "mh_kv g' = kv_handler req (mh_kv g)" "change_log g' = change_log g @ new"
    by blast
  then have "mk_events (kv_handler req (mh_kv g)) = mk_events (mh_kv g) @ new" by (simp add: change_log_def)
  from kv_handler_members [OF assms(3) _ assms(4) this] assms(2) KvCall new show ?thesis by auto
qed (use assms in \<open>auto simp: change_log_def take_event_def split: if_splits list.splits\<close>)

lemma run_host_members:
  assumes "\<forall>a \<in> set as. member_act cd rt a" "metas_ok cd rt (mh_kv g)" "node_watcher rt wa"
  shows "metas_ok cd rt (mh_kv (run_host as g)) \<and> (\<exists>new. change_log (run_host as g) = change_log g @ new \<and>
    registered rt (mh_kv (run_host as g)) =
      foldl (member_step cd) (registered rt (mh_kv g)) (map mock_event (filter (in_range wa) new)))"
  using assms
proof (induction "as" arbitrary: g)
  case (Cons a "as")
  show ?case
  proof (cases "host_step a g")
    case None
    with Cons show ?thesis by simp
  next
    case (Some g1)
    have "member_act cd rt a" using Cons.prems(1) by simp
    from host_step_members [OF Some this Cons.prems(2,3)] obtain n1 where
      1: "metas_ok cd rt (mh_kv g1)" "change_log g1 = change_log g @ n1"
        "registered rt (mh_kv g1) = foldl (member_step cd) (registered rt (mh_kv g)) (map mock_event (filter (in_range wa) n1))"
      by blast
    from Cons.IH [OF _ 1(1) Cons.prems(3)] Cons.prems(1) obtain n2 where
      "metas_ok cd rt (mh_kv (run_host as g1))" "change_log (run_host as g1) = change_log g1 @ n2"
      "registered rt (mh_kv (run_host as g1)) = foldl (member_step cd) (registered rt (mh_kv g1)) (map mock_event (filter (in_range wa) n2))"
      by auto
    with 1 Some show ?thesis by auto
  qed
qed simp

section \<open>Properties\<close>


text \<open>A change between the synchronisation and the watch is never seen.  \<open>SyncCluster\<close> reads the registrations and starts
  its watch in a goroutine, without the revision of what it read: a change that another watch has taken from the channel by
  then is not among those the new watch is ever told of.\<close>

theorem change_before_watch_missed:
  assumes "host_ok g" "backlog g = []" "delivered i g = []" "0 < mh_streams g"
    and "g1 = run_host [KvCall (PutReq k v), TakeEvent] g"
    and "sm_load (wv_watchers (mh_watch g)) i = None"
    and "g2 = run_host [StreamRecv s i (CreateRequest key (Some range_end))] g1"
  shows "change_log g2 = change_log g @ [(PutEvent, k, v)] \<and> sm_load (mk_data (mh_kv g2)) k = Some v \<and>
    delivered i (run_host (replicate n TakeEvent) g2) = []"
proof -
  have m: "mh_sending g = None" "mh_chan g = []"
    using assms(2) by (auto simp: backlog_def split: option.splits)
  have g1: "g1 = g\<lparr>mh_kv := mock_put k v (mh_kv g), mh_chan := [], mh_sending := None,
      mh_watch := forward_event (PutEvent, k, v) (mh_watch g)\<rparr>"
    using kv_call_put [OF m(1), of k v] m assms(4) by (simp add: assms(5) take_event_def chan_cap_def)
  have none: "\<forall>w \<in> set (wv_watchers (mh_watch g)). fst w \<noteq> i"
    using assms(6) by (force simp: sm_load_def map_of_eq_None_iff)
  have d1: "delivered i g1 = []"
  proof -
    have "concat (map (\<lambda>(s, y). if wy_id y = i then wy_events y else [])
        (map (\<lambda>(j, wa). (wa_stream wa, \<lparr>wy_id = j, wy_created = False, wy_canceled = False, wy_events = [(PutEvent, k, v)]\<rparr>))
          (filter (\<lambda>(j, wa). in_range wa (PutEvent, k, v)) ws))) = []" if "\<forall>w \<in> set ws. fst w \<noteq> i" for ws
      using that by (induction ws) (auto simp del: in_range.simps)
    with none assms(3) show ?thesis by (simp add: g1 delivered_def forward_event_def)
  qed
  have ok: "host_ok g2" and d2: "delivered i g2 = []" and b2: "backlog g2 = []" "0 < mh_streams g2"
    using assms(1,4) d1 by (auto simp: assms(7) g1 host_ok_def delivered_def backlog_def forward_event_def)
  have "sm_load (wv_watchers (mh_watch g2)) i = Some \<lparr>wa_stream = s, wa_key = key, wa_range_end = Some range_end\<rparr>"
    by (simp add: assms(7))
  from drain_delivers [OF ok this b2(2), of n] b2(1) d2
  show ?thesis by (simp add: assms(7) g1 change_log_def mock_put_def)
qed

text \<open>An event of the mock never looks like an update, so a node that makes itself inactive stays on the ring; the same change
  read from etcd takes it off.\<close>

theorem mock_hides_inactive:
  assumes "ring_ok rg nodes" "em_ring em = Some r" "dec_meta cd v = Some m" "nm_status m = Inactive"
  shows "(\<exists>em' r' b. handle_node_event rg cd (mock_event (PutEvent, k, v)) em = Ret (em', b) \<and> em_ring em' = Some r' \<and>
      nodes r' = insert (nm_node_id m) (nodes r)) \<and>
    (\<exists>em' r' b. handle_node_event rg cd ((mock_event (PutEvent, k, v))\<lparr>ev_create := False\<rparr>) em = Ret (em', b) \<and> em_ring em' = Some r' \<and>
      nodes r' = nodes r - {nm_node_id m})"
  using handle_node_event_ring [OF assms(1,2), of cd "mock_event (PutEvent, k, v)"]
    handle_node_event_ring [OF assms(1,2), of cd "(mock_event (PutEvent, k, v))\<lparr>ev_create := False\<rparr>"] assms(3,4)
  by (auto simp: member_step_def mock_event_def event_meta_def ev_is_create_def)

section \<open>Witnesses\<close>

text \<open>The values of this store are the names of the nodes.\<close>

definition ex_string_codec :: "string codec" where
  "ex_string_codec = \<lparr>enc_meta = nm_node_id, dec_meta = (\<lambda>v. Some \<lparr>nm_node_id = v, nm_addr = ''a'', nm_status = Inactive\<rparr>),
     enc_load = (\<lambda>l. ''''), dec_load = (\<lambda>v. None), enc_revision = (\<lambda>r. ''''), dec_revision = (\<lambda>v. None), dec_manifest = (\<lambda>v. None)\<rparr>"

definition ex_node_host :: mock_host where
  "ex_node_host = new_mock_host\<lparr>mh_streams := 1, mh_watch := \<lparr>wv_watchers =
     [(7, \<lparr>wa_stream = 0, wa_key = node_meta_path_prefix ''/v'', wa_range_end = Some (prefix_end (node_meta_path_prefix ''/v''))\<rparr>)],
     wv_sent = []\<rparr>\<rparr>"

lemma ex_node_host_ok:
  "host_ok ex_node_host" "backlog ex_node_host = []" "delivered 7 ex_node_host = []"
  "registered ''/v'' (mh_kv ex_node_host) = {}" "metas_ok cd ''/v'' (mh_kv ex_node_host)"
  by (simp_all add: ex_node_host_def new_mock_host_def new_mock_kv_def host_ok_def sm_wf_def backlog_def delivered_def
      registered_def metas_ok_def)


theorem change_before_watch_missed_witness:
  "delivered 8 (run_host (replicate 3 TakeEvent) (run_host [StreamRecv 1 8 (CreateRequest ''/v'' (Some ''/w''))]
     (run_host [KvCall (PutReq ''/v/n3'' ''x''), TakeEvent] ex_node_host))) = []"
proof -
  have "delivered 8 ex_node_host = []" "0 < mh_streams ex_node_host" "sm_load (wv_watchers (mh_watch ex_node_host)) 8 = None"
    by (simp_all add: ex_node_host_def delivered_def sm_load_Cons)
  from change_before_watch_missed [OF ex_node_host_ok(1,2) this(1,2) refl this(3) refl] show ?thesis by blast
qed

theorem mock_hides_inactive_witness:
  "\<exists>em' r' b. handle_node_event ex_ring ex_string_codec (mock_event (PutEvent, ''k'', ''n9'')) ex_manager = Ret (em', b) \<and>
     em_ring em' = Some r' \<and> set r' = {''n1'', ''n2'', ''n9''}"
proof -
  have "dec_meta ex_string_codec ''n9'' = Some \<lparr>nm_node_id = ''n9'', nm_addr = ''a'', nm_status = Inactive\<rparr>"
    by (simp add: ex_string_codec_def)
  from mock_hides_inactive [OF ex_ring_ok ex_manager_ring this] show ?thesis by (auto simp: insert_commute)
qed

end
