(* ===== verification/Spec2Isabelle.thy ===== *)
theory Spec2Isabelle
  imports Error_Codes Processor Resolver_Threads Cluster_Runs Completion Shutdown Store_Threads Load_Races Reload_Linear Index_Ops Mock_Ring
begin

text \<open>
  Vectory: a distributed vector search service in Go.

  A node loads \<^emph>\<open>shards\<close> of \<^emph>\<open>indexes\<close> (FAISS files) and answers searches.  In cluster mode the nodes
  register in etcd, watch each other, and a consistent hash ring over their names says which node
  owns which shard.  An index is described by a \<^emph>\<open>manifest\<close> in etcd; its files have revisions, and a
  cron job on every node looks for a newer one.  A new revision is activated on all nodes together:
  each owner stages it and writes a ready key, the last one writes the commit key, and every node
  that sees the commit key swaps the staged index in.

  \<^bold>\<open>The theories, in the order of their imports\<close>

  \<^item> \<open>Prelude\<close>: outcomes of a Go call (\<open>run\<close>: a value, or a fault: panic, use after free, double
    free), fixed-width integers, \<open>sync.Map\<close> as an association list, float32 values.  \<open>Go_Sync\<close>: mutexes and
    reader-writer locks, and how threads are counted.
  \<^item> \<open>Go_Strings\<close>: what the code uses of \<open>strconv\<close>, \<open>strings\<close>, \<open>fmt\<close>, \<open>path\<close>.
  \<^item> \<open>Config\<close>: \<open>internal/config\<close> (errors, environment, etcd paths) and the lookups of
    \<open>internal/utils/config_manager\<close>.
  \<^item> \<open>Error_Codes\<close>: \<open>internal/utils/error.go\<close>.  \<open>Node_Status\<close>: \<open>pkg/pkg.go\<close>, with the channel.
  \<^item> \<open>Heap_Queue\<close>, \<open>Merge_Lists\<close>: \<open>internal/utils/utils.go\<close> on the algorithms of
    \<open>container/heap\<close>; the locales \<open>min_queue\<close> and \<open>bag_queue\<close> are the contracts of the queue.
  \<^item> \<open>Shards\<close>: \<open>internal/engine/index.go\<close>.  \<open>Downloader\<close>: \<open>internal/engine/downloader.go\<close>,
    \<open>local_dl.go\<close>, \<open>s3_dl.go\<close>; the locale \<open>revision_source\<close> is the interface \<open>Downloader\<close>, interpreted on both.
  \<^item> \<open>Faiss_Index\<close>: \<open>internal/engine/faiss.go\<close>, \<open>mock.go\<close>, over an explicit heap of handles.
    \<open>Staged_Reload\<close>: the interface \<open>StagedReloader\<close> as the locale \<open>staged_reloader\<close>, interpreted on it.
    \<open>Index_Ops\<close>: the interface \<open>Index\<close>, its dispatch and the locale \<open>index_contract\<close>, interpreted on both kinds.
  \<^item> \<open>Faiss_Threads\<close>: the same operations of \<open>faiss.go\<close> as threads whose steps take and release the two locks and the flag.
    \<open>Thread_Invariant\<close>, \<open>Thread_Safety\<close>: what holds of all their interleavings.  \<open>Linear_Log\<close>: the locale \<open>linearised\<close>, the
    contract under which they amount to calls one after another, interpreted on the calls of the two-phase activation
    (\<open>Shard_Linear\<close>) and on those of immediate reloads (\<open>Reload_Linear\<close>).  \<open>Store_Threads\<close>: searches,
    loads and unloads on one entry of the manager's shard map.
  \<^item> \<open>Etcd_Store\<close>: the calls of the etcd client as a record, their contract as the locale
    \<open>kv_store\<close>, interpreted on the server of \<open>mocks/etcd_svr.go\<close>.  \<open>Mock_Server\<close>: the rest of that file, the channel of
    changes, the watch streams and the group of servers.  \<open>Mock_Ring\<close>: the cluster manager on that store.
  \<^item> \<open>Cluster\<close>: \<open>internal/cluster/node.go\<close>; the locale \<open>cluster_members\<close> is what the engine asks of it.
  \<^item> \<open>Manager\<close>: \<open>internal/engine/manager.go\<close>, loading, deleting, searching, rebalancing, resolving.
    \<open>Init_Threads\<close>: the loads of \<open>InitManager\<close>, one goroutine each.
    \<open>Commit\<close>: the staging, signalling and committing part of the same file.
  \<^item> \<open>Processor\<close>: \<open>internal/processor\<close>.  \<open>Resolver\<close>: \<open>internal/grpc_client\<close>, one resolution at a time;
    \<open>Resolver_Threads\<close>: a resolver with all its goroutines.
    \<open>Metrics\<close>: \<open>internal/utils/monitor\<close>, \<open>func_builder\<close>, \<open>internal/http_handler\<close> and the messages of \<open>logger.go\<close>.
    \<open>Lifecycle\<close>: \<open>internal/core/vectory.go\<close>, \<open>Start\<close> and \<open>Stop\<close>.  \<open>Bootstrap\<close>: \<open>cmd/server/main.go\<close>, \<open>Setup\<close>, and the
    initialisation of the configuration, of the logger and of the metrics, composed with \<open>Start\<close>.  \<open>Shutdown\<close>: the
    process that serves, with its listeners, the signal handler, \<open>Stop\<close> and the end of \<open>main\<close>.
  \<^item> \<open>Node_Runs\<close>: all operations of one manager, in any order.  \<open>Membership\<close>: the watch loops, and the changes of
    the ring with the rebalances they cause, on all nodes.  \<open>Cluster_Runs\<close>: the nodes of a cluster with everything they
    handle, from their start on.  \<open>Load_Races\<close>: a load and a rebalance at once.  \<open>Protocol\<close>: the nodes of a cluster
    and their store as a step relation.  \<open>Atomic_Commit\<close>: the specification of the activation and
    the refinement.  \<open>Completion\<close>: that an activation can be carried to its end.

  \<^bold>\<open>State.\<close>  \<open>sys\<close> is what one node keeps: the manager with its maps (manifests, loaded shards by unique
  key, pending shards, listeners), the memory of the FAISS library and the published status.  \<open>cluster_view\<close> is what
  the manager asks of the cluster manager \<open>etcd_manager\<close>.  \<open>net\<close> is the nodes of a cluster and the store, with
  the pairs the store has held and who has staged what as history.  \<open>shard_sys\<close> is one shard with its locks, \<open>slot_sys\<close> an
  entry of the shard map, \<open>init_sys\<close> a manager that is loaded and the counters of \<open>InitManager\<close>, \<open>resolver_sys\<close> a resolver with its wait group, \<open>serving\<close> a serving process, \<open>mock_host\<close>
  a mock etcd server; their threads are program counters, and a run is a list of whose turn it is.  Every operation takes the state it reads and returns
  the state it leaves, with the error of the Go function as an option or a sum; a nil dereference, an index out of
  range or a handle used after it was freed is a fault, and what is proved to return is proved not to fault.

  \<^bold>\<open>What the lemmas show.\<close>  For the FAISS shard: every sequence of stage, commit and discard is
  memory safe and serves a new revision only when it is committed; and in every interleaving of the calls
  of any number of goroutines no step faults, none waits for ever, and the answers are those of the calls one after
  another in some order.  For an entry of the shard map: who can still reach a shard that was removed, and which
  races are left.  For \<open>InitManager\<close>: its goroutines, however they interleave, leave what the loads one after another
  leave.  For the manager: the invariant
  \<open>sys_ok\<close> (every shard under its own key, no handle shared, every manifest under its name) is kept by every
  operation in any order; loading, deleting, rebalancing and searching do what they say, shard by
  shard.  For the activation: each handler's effect on etcd and the node, then, over all interleavings
  of nodes, reloads, deliveries and expiries, that no node serves a revision before all owners had it
  staged, that the nodes implement an abstract atomic commit, and that once the last owner stages, its
  reload and the deliveries it causes bring every owner to the new revision.  For the cluster manager:
  the ring follows the watch events, one owner per key, routes lead to serving nodes; and for the
  cluster: from the start of its nodes on, and whatever they handle in between, when the nodes have seen who is there, no shard is missing.  For the request path: one
  answer per input, the least scores of all shards, merging equals sorting and always returns.  For the
  process: it comes up complete or not at all, what serves is well formed and registered, and it ends with everything
  stopped in order or with the error of a listener.  For the resolver: what concurrent resolutions publish is what one of
  them would have published, and \<open>Close\<close> waits for those that have entered.  For the mock store: every
  watcher is told of every change once and in order, and the ring of a node that watches is the registrations.  For the
  data: keys and paths are injective and read back.

  \<^bold>\<open>Loops and bounds.\<close>  The merge recurses on \<open>cap - len(result)\<close>, which each turn lowers, so it needs
  no fuel; the heap loops recurse on the index with a measure; the watch loops run over the responses they are
  given, a finite list of any length; a schedule or a list of acts is finite and of any length, so what holds of runs holds of all
  of them; calls on a shard return within twelve rounds of the scheduler for each of them, because none has more steps
  (\<open>steps_left\<close>); a goroutine of \<open>InitManager\<close> has at most five steps and three for each replica of each shard (\<open>load_left\<close>); the channel of the mock store has its capacity of ten, so eleven turns empty it with the
  event that waits; and every other loop of the code runs over a list it does not
  change.  Shard numbers are \<open>int32\<close> with wrap-around, revisions and counts \<open>int\<close> (\<open>int64\<close> in the code: a
  revision is a number somebody wrote in a file or a key), error codes \<open>32 word\<close>, weights \<open>uint32\<close> over
  rationals with the roundings of floats as parameters.

  \<^bold>\<open>Parameters.\<close>  The FAISS library, the file system, AWS S3, the cron parser (\<open>world\<close>), the hash ring
  (\<open>ring_ops\<close>), etcd (\<open>etcd_ops\<close>), JSON and YAML (\<open>codec\<close>), viper, and gRPC are code outside the repository.
  What the code relies on is a hypothesis about the parameter (\<open>ring_ok\<close>, \<open>kv_store\<close>, \<open>codec_ok\<close>), and the
  witnesses instantiate it.

  \<^bold>\<open>Not modelled.\<close>  Goroutines of one manager beyond those of \<open>InitManager\<close>, a load with a
  rebalance, and those on one entry of its shard map: its other handlers run as one step each.  Data races on single fields and the memory model of Go: a
  step reads or writes a field at once.  The writing of log messages (zap), the gathering of metrics (Prometheus), tracing, the
  transport and the dialling of gRPC, and the mechanics of the listeners, which appear by the errors they return: the
  sources only call libraries there.  Leases and revisions are not in the mock server of the sources either.
\<close>

end
